(* ===== verification/CT_Prelude.thy ===== *)
theory CT_Prelude
  imports Main "HOL-Library.Word" "HOL-Library.Signed_Division" "HOL-Library.Monad_Syntax"
begin

text \<open>
  Shared vocabulary of the development: the ranges of the C++ integer types, checked
  arithmetic (\<open>None\<close> is the undefined behaviour of a signed overflow or of a division by
  zero), the wrap-around of narrowing conversions, growing a \<open>std::vector\<close>, and the lemmas
  and fact collections that carry the proofs of the component theories.
\<close>

section \<open>Fact collections\<close>

named_theorems range_defs \<open>definitions of the integer ranges and of checked arithmetic\<close>
named_theorems geom_defs \<open>definitions of the geometry accessors and constructors\<close>
named_theorems scan_facts \<open>scanners consume a prefix of their input\<close>

section \<open>Integer ranges of the target (LP64)\<close>

definition i32 :: "int \<Rightarrow> bool" where
  [range_defs]: "i32 x \<longleftrightarrow> - 2147483648 \<le> x \<and> x \<le> 2147483647"

definition i64 :: "int \<Rightarrow> bool" where
  [range_defs]: "i64 x \<longleftrightarrow> - 9223372036854775808 \<le> x \<and> x \<le> 9223372036854775807"

text \<open>The result of an \<open>int64_t\<close> (\<open>int\<close>) operation; an overflow is undefined: \<open>None\<close>.\<close>

definition chk64 :: "int \<Rightarrow> int option" where
  [range_defs]: "chk64 x = (if i64 x then Some x else None)"

definition chk32 :: "int \<Rightarrow> int option" where
  [range_defs]: "chk32 x = (if i32 x then Some x else None)"

text \<open>Conversion of a wider integer to \<open>int\<close>: the low 32 bits, read as two's complement.\<close>

definition wrap32 :: "int \<Rightarrow> int" where
  "wrap32 x = (x + 2147483648) mod 4294967296 - 2147483648"

lemma wrap32_id [simp]: "i32 x \<Longrightarrow> wrap32 x = x"
  by (simp add: wrap32_def i32_def)

lemma i32_wrap32 [simp, intro]: "i32 (wrap32 x)"
  by (simp add: wrap32_def i32_def)

lemma chk64_eq_Some [simp]: "chk64 x = Some y \<longleftrightarrow> i64 x \<and> y = x"
  by (auto simp: chk64_def)

lemma chk32_eq_Some [simp]: "chk32 x = Some y \<longleftrightarrow> i32 x \<and> y = x"
  by (auto simp: chk32_def)

lemma chk64_Some [simp]: "i64 x \<Longrightarrow> chk64 x = Some x"
  by (simp only: chk64_eq_Some)

lemma chk32_Some [simp]: "i32 x \<Longrightarrow> chk32 x = Some x"
  by (simp only: chk32_eq_Some)

lemma chk64_None: "\<not> i64 x \<Longrightarrow> chk64 x = None"
  by (simp add: chk64_def)

section \<open>Truncating division of C++\<close>

text \<open>\<open>a / b\<close> and \<open>a % b\<close> on C++ integers are \<open>sdiv\<close> and \<open>smod\<close>.\<close>

lemma sdiv_nonneg: "0 \<le> a \<Longrightarrow> 0 \<le> b \<Longrightarrow> (a::int) sdiv b = a div b"
  by (cases "a = 0 \<or> b = 0") (auto simp: signed_divide_int_def)

lemma smod_nonneg: "0 \<le> a \<Longrightarrow> 0 \<le> b \<Longrightarrow> (a::int) smod b = a mod b"
  by (cases "a = 0") (auto simp: signed_modulo_int_def)

lemma sdiv_uminus_left: "(- a::int) sdiv b = - (a sdiv b)"
  by (simp add: signed_divide_int_def)

lemma sdiv_uminus_right: "(a::int) sdiv (- b) = - (a sdiv b)"
  by (simp add: signed_divide_int_def)

lemma smod_uminus_left: "(- a::int) smod b = - (a smod b)"
  by (simp add: signed_modulo_int_def)

section \<open>Lists\<close>

lemma takeWhile_id: "(\<And>x. x \<in> set xs \<Longrightarrow> P x) \<Longrightarrow> takeWhile P xs = xs"
  by (simp add: takeWhile_eq_all_conv)

lemma nth_list_update_if: "xs[i := x] ! j = (if i = j \<and> i < length xs then x else xs ! j)"
  by (cases "i < length xs") (simp_all add: nth_list_update list_update_beyond)

text \<open>\<open>v.resize(n, x)\<close> of a vector that only grows.\<close>

definition grow :: "nat \<Rightarrow> 'a \<Rightarrow> 'a list \<Rightarrow> 'a list" where
  "grow n x xs = xs @ replicate (n - length xs) x"

lemma length_grow [simp]: "length (grow n x xs) = max n (length xs)"
  by (simp add: grow_def)

lemma nth_grow: "i < n \<or> i < length xs \<Longrightarrow>
    grow n x xs ! i = (if i < length xs then xs ! i else x)"
  by (auto simp: grow_def nth_append)

lemma grow_id [simp]: "n \<le> length xs \<Longrightarrow> grow n x xs = xs"
  by (simp add: grow_def)

section \<open>Operations that act on a region\<close>

text \<open>
  \<open>acts_on view G f R\<close>: seen through \<open>view\<close>, the operation \<open>f\<close> applies \<open>G p\<close> at the points of
  \<open>R\<close> and changes nothing elsewhere. Loops over disjoint regions compose.
\<close>

definition acts_on :: "('m \<Rightarrow> 'p \<Rightarrow> 'v) \<Rightarrow> ('p \<Rightarrow> 'v \<Rightarrow> 'v) \<Rightarrow> ('m \<Rightarrow> 'm) \<Rightarrow> 'p set \<Rightarrow> bool" where
  "acts_on view G f R \<longleftrightarrow> (\<forall>m p. view (f m) p = (if p \<in> R then G p (view m p) else view m p))"

lemma acts_onI:
  "(\<And>m p. view (f m) p = (if p \<in> R then G p (view m p) else view m p)) \<Longrightarrow> acts_on view G f R"
  by (simp add: acts_on_def)

lemma acts_onD: "acts_on view G f R \<Longrightarrow> view (f m) p = (if p \<in> R then G p (view m p) else view m p)"
  by (simp add: acts_on_def)

lemma acts_on_cong:
  "acts_on view G f R \<Longrightarrow> (\<And>p v. p \<in> R \<Longrightarrow> G p v = H p v) \<Longrightarrow> acts_on view H f R"
  by (simp add: acts_on_def)

lemma acts_on_id: "(\<And>p v. p \<in> R \<Longrightarrow> G p v = v) \<Longrightarrow> acts_on view G (\<lambda>m. m) R"
  by (simp add: acts_on_def)

lemma acts_on_comp:
  "acts_on view G f R \<Longrightarrow> acts_on view G g S \<Longrightarrow> R \<inter> S = {} \<Longrightarrow> acts_on view G (\<lambda>m. g (f m)) (R \<union> S)"
  by (auto simp: acts_on_def)

lemma acts_on_fold:
  assumes "\<And>k. k < n \<Longrightarrow> acts_on view G (f k) (R k)"
    and "\<And>i j. i < j \<Longrightarrow> j < n \<Longrightarrow> R i \<inter> R j = {}"
  shows "acts_on view G (fold f [0..<n]) (\<Union>k<n. R k)"
  using assms
proof (induction n)
  case 0
  then show ?case by (simp add: acts_on_def)
next
  case (Suc n)
  then have ih: "acts_on view G (fold f [0..<n]) (\<Union>k<n. R k)" by simp
  have "(\<Union>k<n. R k) \<inter> R n = {}" using Suc.prems(2) by blast
  then have "acts_on view G (\<lambda>m. f n (fold f [0..<n] m)) ((\<Union>k<n. R k) \<union> R n)"
    using acts_on_comp[OF ih Suc.prems(1)[of n]] by simp
  then show ?case by (simp add: lessThan_Suc Un_commute comp_def)
qed

section \<open>Splitting off the longest prefix\<close>

lemma span_append: "takeWhile P xs @ dropWhile P xs = xs"
  by simp

lemma length_dropWhile_less: "xs \<noteq> [] \<Longrightarrow> P (hd xs) \<Longrightarrow> length (dropWhile P xs) < length xs"
  by (cases xs) (auto simp: length_dropWhile_le le_imp_less_Suc)

lemma takeWhile_Cons_nonempty: "P x \<Longrightarrow> takeWhile P (x # xs) \<noteq> []"
  by simp

end
