(* ===== verification/CT_CLib.thy ===== *)
theory CT_CLib
  imports CT_Prelude
begin

text \<open>
  What the program uses of the C library: the character classes of the C locale,
  \<open>c_str()\<close>, \<open>strtol\<close>, \<open>atoi\<close> and the integer conversions of \<open>sprintf\<close>.
  A pointer into a string is the suffix it points at.
\<close>

section \<open>Characters\<close>

abbreviation NUL :: char where "NUL \<equiv> CHR 0x00"
abbreviation NL :: char where "NL \<equiv> CHR 0x0A"
abbreviation CR :: char where "CR \<equiv> CHR 0x0D"

definition char_code :: "char \<Rightarrow> nat" where
  "char_code c = of_char c"

definition isspace :: "char \<Rightarrow> bool" where
  "isspace c \<longleftrightarrow> c \<in> set [CHR '' '', CHR 0x09, CHR 0x0A, CHR 0x0B, CHR 0x0C, CHR 0x0D]"

definition isdigit :: "char \<Rightarrow> bool" where
  "isdigit c \<longleftrightarrow> 48 \<le> char_code c \<and> char_code c \<le> 57"

definition isupper :: "char \<Rightarrow> bool" where
  "isupper c \<longleftrightarrow> 65 \<le> char_code c \<and> char_code c \<le> 90"

definition islower :: "char \<Rightarrow> bool" where
  "islower c \<longleftrightarrow> 97 \<le> char_code c \<and> char_code c \<le> 122"

definition isalpha :: "char \<Rightarrow> bool" where
  "isalpha c \<longleftrightarrow> isupper c \<or> islower c"

definition isalnum :: "char \<Rightarrow> bool" where
  "isalnum c \<longleftrightarrow> isalpha c \<or> isdigit c"

definition isxdigit :: "char \<Rightarrow> bool" where
  "isxdigit c \<longleftrightarrow> isdigit c \<or> (65 \<le> char_code c \<and> char_code c \<le> 70)
     \<or> (97 \<le> char_code c \<and> char_code c \<le> 102)"

lemmas char_class_defs =
  isspace_def isdigit_def isupper_def islower_def isalpha_def isalnum_def isxdigit_def char_code_def

lemma char_code_bound: "char_code c < 256"
  by (simp add: char_code_def)

lemma isdigit_not_space: "isdigit c \<Longrightarrow> \<not> isspace c"
  by (auto simp: char_class_defs)

lemma isalpha_not_digit: "isalpha c \<Longrightarrow> \<not> isdigit c"
  by (auto simp: char_class_defs)

section \<open>Strings as C strings\<close>

text \<open>What a \<open>const char*\<close> to the data of a \<open>std::string\<close> denotes.\<close>

definition c_str :: "string \<Rightarrow> string" where
  "c_str s = takeWhile (\<lambda>c. c \<noteq> NUL) s"

lemma c_str_id: "NUL \<notin> set s \<Longrightarrow> c_str s = s"
  unfolding c_str_def by (rule takeWhile_id) auto

section \<open>strtol and atoi\<close>

definition digit_val :: "char \<Rightarrow> nat" where
  "digit_val c = char_code c - 48"

fun scan_digits :: "nat \<Rightarrow> string \<Rightarrow> nat \<times> string" where
  "scan_digits acc [] = (acc, [])"
| "scan_digits acc (c # cs) =
     (if isdigit c then scan_digits (10 * acc + digit_val c) cs else (acc, c # cs))"

text \<open>\<open>long\<close> has 64 bits; out-of-range values are clamped to \<open>LONG_MIN\<close> or \<open>LONG_MAX\<close>.\<close>

definition clamp_long :: "int \<Rightarrow> int" where
  "clamp_long x = max (- 9223372036854775808) (min 9223372036854775807 x)"

text \<open>
  \<open>strtol(s, &end, 10)\<close>: the value and what \<open>end\<close> points at. With no digits the value is 0
  and \<open>end\<close> is \<open>s\<close> itself.
\<close>

definition strtol :: "string \<Rightarrow> int \<times> string" where
  "strtol s =
     (let t = dropWhile isspace s;
          neg = (t \<noteq> [] \<and> hd t = CHR ''-'');
          u = (if t \<noteq> [] \<and> (hd t = CHR ''-'' \<or> hd t = CHR ''+'') then tl t else t)
      in if u \<noteq> [] \<and> isdigit (hd u)
         then (case scan_digits 0 u of (n, rest) \<Rightarrow>
                 (clamp_long (if neg then - int n else int n), rest))
         else (0, s))"

text \<open>\<open>atoi\<close> is \<open>(int)strtol(s, NULL, 10)\<close>.\<close>

definition atoi :: "string \<Rightarrow> int" where
  "atoi s = wrap32 (fst (strtol s))"

section \<open>sprintf\<close>

definition digit_char :: "nat \<Rightarrow> char" where
  "digit_char d = ''0123456789'' ! d"

fun show_nat :: "nat \<Rightarrow> string" where
  "show_nat n = (if n < 10 then [digit_char n] else show_nat (n div 10) @ [digit_char (n mod 10)])"

declare show_nat.simps [simp del]

lemma show_nat_eval:
  shows "n < 10 \<Longrightarrow> show_nat n = [digit_char n]"
    and "10 \<le> n \<Longrightarrow> show_nat n = show_nat (n div 10) @ [digit_char (n mod 10)]"
  by (subst show_nat.simps, simp)+

text \<open>\<open>%d\<close> and \<open>%lld\<close>.\<close>

definition show_int :: "int \<Rightarrow> string" where
  "show_int i = (if i < 0 then CHR ''-'' # show_nat (nat (- i)) else show_nat (nat i))"

text \<open>\<open>%0wlld\<close> of a non-negative value.\<close>

definition show_padded :: "nat \<Rightarrow> nat \<Rightarrow> string" where
  "show_padded w n = replicate (w - length (show_nat n)) (CHR ''0'') @ show_nat n"

section \<open>Printing and scanning numbers\<close>

lemma digit_char_cases:
  assumes "d < 10"
  shows "isdigit (digit_char d) \<and> digit_val (digit_char d) = d"
proof -
  have "d \<in> {0,1,2,3,4,5,6,7,8,9}" using assms by auto
  then show ?thesis
    by (auto simp: digit_char_def char_class_defs digit_val_def)
qed

lemma isdigit_digit_char [simp]: "d < 10 \<Longrightarrow> isdigit (digit_char d)"
  by (simp add: digit_char_cases)

lemma digit_val_digit_char [simp]: "d < 10 \<Longrightarrow> digit_val (digit_char d) = d"
  by (simp add: digit_char_cases)

text \<open>The value of a string of digits.\<close>

definition digits_value :: "string \<Rightarrow> nat" where
  "digits_value ds = foldl (\<lambda>acc c. 10 * acc + digit_val c) 0 ds"

lemma foldl_digits_acc:
  "foldl (\<lambda>acc c. 10 * acc + digit_val c) a ds = a * 10 ^ length ds + digits_value ds"
proof (induction ds arbitrary: a)
  case Nil
  then show ?case by (simp add: digits_value_def)
next
  case (Cons d ds)
  show ?case
    using Cons[of "10 * a + digit_val d"] Cons[of "digit_val d"]
    by (simp add: digits_value_def algebra_simps)
qed

lemma digits_value_Nil [simp]: "digits_value [] = 0"
  by (simp add: digits_value_def)

lemma digits_value_append:
  "digits_value (xs @ ys) = digits_value xs * 10 ^ length ys + digits_value ys"
  using foldl_digits_acc[of "digits_value xs" ys] by (simp add: digits_value_def)

lemma digits_value_snoc [simp]: "digits_value (xs @ [d]) = 10 * digits_value xs + digit_val d"
  by (simp add: digits_value_def)

lemma digits_value_zeros [simp]: "digits_value (replicate k (CHR ''0'')) = 0"
  by (induction k) (simp_all add: digits_value_append[of "[_]", simplified] digit_val_def char_code_def
      digits_value_def)

lemma scan_digits_append:
  assumes "\<forall>c \<in> set ds. isdigit c" and "rest = [] \<or> \<not> isdigit (hd rest)"
  shows "scan_digits a (ds @ rest) = (a * 10 ^ length ds + digits_value ds, rest)"
  using assms(1)
proof (induction ds arbitrary: a)
  case Nil
  then show ?case using assms(2) by (cases rest) auto
next
  case (Cons d ds)
  then show ?case
    using digits_value_append[of "[d]" ds] by (simp add: digits_value_def algebra_simps)
qed

lemma scan_digits_suffix: "scan_digits a s = (n, r) \<Longrightarrow> \<exists>p. s = p @ r"
proof (induction a s rule: scan_digits.induct)
  case (2 acc c cs)
  then show ?case by (cases "isdigit c") (auto intro: exI[of _ "c # _"])
qed simp

lemma show_nat_digits: "\<forall>c \<in> set (show_nat n). isdigit c"
  by (induction n rule: show_nat.induct) (subst show_nat.simps, auto)

lemma show_nat_nonempty [simp]: "show_nat n \<noteq> []"
  by (subst show_nat.simps) auto

lemma isdigit_hd_show_nat: "isdigit (hd (show_nat n))"
  using show_nat_digits[of n] hd_in_set[OF show_nat_nonempty[of n]] by blast

lemma isdigit_neq:
  assumes "isdigit c"
  shows "c \<noteq> CHR ''-''" "c \<noteq> CHR ''+''" "c \<noteq> CHR ''.''" "c \<noteq> CHR '',''" "c \<noteq> NUL"
  using assms by (auto simp: char_class_defs)

lemma digits_value_show_nat [simp]: "digits_value (show_nat n) = n"
  by (induction n rule: show_nat.induct) (subst show_nat.simps, auto simp: digits_value_def)

lemma show_padded_digits: "\<forall>c \<in> set (show_padded w n). isdigit c"
  using show_nat_digits by (auto simp: show_padded_def char_class_defs)

lemma digits_value_show_padded [simp]: "digits_value (show_padded w n) = n"
  by (simp add: show_padded_def digits_value_append)

lemma length_show_nat_le: "n < 10 ^ w \<Longrightarrow> 0 < w \<Longrightarrow> length (show_nat n) \<le> w"
proof (induction w arbitrary: n)
  case 0
  then show ?case by simp
next
  case (Suc w)
  show ?case
  proof (cases "n < 10")
    case True
    then show ?thesis by (subst show_nat.simps) simp
  next
    case False
    then have "0 < w" using Suc.prems by (cases w) auto
    moreover have "n div 10 < 10 ^ w" using Suc.prems by (simp add: less_mult_imp_div_less mult.commute)
    ultimately show ?thesis using Suc.IH[of "n div 10"] False
      by (subst show_nat.simps) simp
  qed
qed

lemma length_show_padded: "n < 10 ^ w \<Longrightarrow> 0 < w \<Longrightarrow> length (show_padded w n) = w"
  by (simp add: show_padded_def length_show_nat_le)

lemma digits_value_less: "\<forall>c \<in> set ds. isdigit c \<Longrightarrow> digits_value ds < 10 ^ length ds"
proof (induction ds rule: rev_induct)
  case Nil
  then show ?case by simp
next
  case (snoc d ds)
  then have "digit_val d \<le> 9"
    by (auto simp: digit_val_def isdigit_def)
  with snoc show ?case by simp
qed

text \<open>\<open>strtol\<close> reads back a number written in front of a character that is not a digit.\<close>

lemma strtol_digits:
  assumes "ds \<noteq> []" and "\<forall>c \<in> set ds. isdigit c" and "rest = [] \<or> \<not> isdigit (hd rest)"
  shows "strtol (ds @ rest) = (clamp_long (int (digits_value ds)), rest)"
proof -
  obtain d ds' where ds: "ds = d # ds'" using assms(1) by (cases ds) auto
  have d: "isdigit d" using assms(2) ds by simp
  then have "d \<noteq> CHR ''-''" "d \<noteq> CHR ''+''" "\<not> isspace d"
    by (auto simp: char_class_defs)
  moreover have "scan_digits 0 (ds @ rest) = (digits_value ds, rest)"
    using scan_digits_append[OF assms(2,3), of 0] by simp
  ultimately show ?thesis
    using d by (simp add: strtol_def ds)
qed

lemma strtol_show_int:
  assumes "i64 i" and "rest = [] \<or> \<not> isdigit (hd rest)"
  shows "strtol (show_int i @ rest) = (i, rest)"
proof (cases "i < 0")
  case False
  then show ?thesis
    using strtol_digits[OF show_nat_nonempty show_nat_digits assms(2), of "nat i"] assms(1)
    by (simp add: show_int_def clamp_long_def i64_def)
next
  case True
  let ?ds = "show_nat (nat (- i))"
  obtain d ds' where ds: "?ds = d # ds'" using show_nat_nonempty by (cases ?ds) auto
  have d: "isdigit d" using show_nat_digits[of "nat (- i)"] ds by simp
  have "scan_digits 0 (?ds @ rest) = (nat (- i), rest)"
    using scan_digits_append[OF show_nat_digits assms(2), of 0 "nat (- i)"] by simp
  then have "scan_digits 0 (d # ds' @ rest) = (nat (- i), rest)" using ds by simp
  moreover have "\<not> isspace (CHR ''-'')" by (simp add: isspace_def)
  ultimately show ?thesis
    using True assms(1) d by (simp add: strtol_def show_int_def ds clamp_long_def i64_def)
qed

lemma show_int_nonempty [simp]: "show_int i \<noteq> []"
  by (simp add: show_int_def)

end
