(* ===== verification/CT_Decimal.thy ===== *)
theory CT_Decimal
  imports CT_CLib
begin

text \<open>
  \<open>src/decimal.hpp\<close> and \<open>src/decimal.cpp\<close>: the 64-bit fixed-point numbers (six decimal
  places) that every script computes with. A result is \<open>None\<close> where the C++ has undefined
  behaviour: a signed 64-bit overflow, a division by zero, a read past the end of a string.
\<close>

section \<open>The type and its order\<close>

datatype decimal = from_raw_value (dvalue: int)

abbreviation DECIMAL_PRECISION :: int where "DECIMAL_PRECISION \<equiv> 1000000"
abbreviation DECIMAL_PLACES :: int where "DECIMAL_PLACES \<equiv> 6"

definition wf_decimal :: "decimal \<Rightarrow> bool" where
  "wf_decimal d \<longleftrightarrow> i64 (dvalue d)"

definition from_int :: "int \<Rightarrow> decimal" where
  "from_int v = from_raw_value (v * DECIMAL_PRECISION)"

definition as_int :: "decimal \<Rightarrow> int" where
  "as_int d = wrap32 (dvalue d sdiv DECIMAL_PRECISION)"

definition fractional :: "decimal \<Rightarrow> int" where
  "fractional d = dvalue d smod DECIMAL_PRECISION"

definition decimal_le :: "decimal \<Rightarrow> decimal \<Rightarrow> bool" where
  "decimal_le a b \<longleftrightarrow> dvalue a \<le> dvalue b"

definition decimal_less :: "decimal \<Rightarrow> decimal \<Rightarrow> bool" where
  "decimal_less a b \<longleftrightarrow> \<not> decimal_le b a"

instantiation decimal :: linorder
begin

definition less_eq_decimal :: "decimal \<Rightarrow> decimal \<Rightarrow> bool" where
  "less_eq_decimal = decimal_le"

definition less_decimal :: "decimal \<Rightarrow> decimal \<Rightarrow> bool" where
  "less_decimal = decimal_less"

instance
  by standard (auto simp: less_eq_decimal_def less_decimal_def decimal_le_def decimal_less_def intro: decimal.expand)

end

section \<open>Arithmetic\<close>

definition dec_uminus :: "decimal \<Rightarrow> decimal option" where
  "dec_uminus d = map_option from_raw_value (chk64 (- dvalue d))"

definition dec_plus :: "decimal \<Rightarrow> decimal \<Rightarrow> decimal option" where
  "dec_plus a b = map_option from_raw_value (chk64 (dvalue a + dvalue b))"

definition dec_minus :: "decimal \<Rightarrow> decimal \<Rightarrow> decimal option" where
  "dec_minus a b = map_option from_raw_value (chk64 (dvalue a - dvalue b))"

text \<open>\<open>v > 0 ? v : -v\<close>\<close>

definition abs64 :: "int \<Rightarrow> int option" where
  "abs64 v = (if v > 0 then Some v else chk64 (- v))"

definition opposite_signs :: "decimal \<Rightarrow> decimal \<Rightarrow> bool" where
  "opposite_signs a b \<longleftrightarrow>
     (dvalue a < 0 \<and> dvalue b > 0) \<or> (dvalue b < 0 \<and> dvalue a > 0)"

definition dec_times :: "decimal \<Rightarrow> decimal \<Rightarrow> decimal option" where
  "dec_times a b = do {
     va \<leftarrow> abs64 (dvalue a);
     vb \<leftarrow> abs64 (dvalue b);
     let ia = va sdiv DECIMAL_PRECISION;
     let ib = vb sdiv DECIMAL_PRECISION;
     let fa = va smod DECIMAL_PRECISION;
     let fb = vb smod DECIMAL_PRECISION;
     iaib \<leftarrow> chk64 (ia * ib);
     whole \<leftarrow> chk64 (iaib * DECIMAL_PRECISION);
     faib \<leftarrow> chk64 (fa * ib);
     sum1 \<leftarrow> chk64 (whole + faib);
     fbia \<leftarrow> chk64 (fb * ia);
     sum2 \<leftarrow> chk64 (sum1 + fbia);
     fafb \<leftarrow> chk64 (fa * fb);
     result \<leftarrow> chk64 (sum2 + fafb sdiv DECIMAL_PRECISION);
     (if opposite_signs a b then dec_uminus (from_raw_value result)
      else Some (from_raw_value result)) }"

text \<open>\<open>while(va < target_value) { va *= 10; ++shift; }\<close>, entered with \<open>va > 0\<close> only.\<close>

function scale_up :: "int \<Rightarrow> int \<Rightarrow> int \<times> int" where
  "scale_up va shift =
     (if 0 < va \<and> va < 10000000000000 then scale_up (va * 10) (shift + 1) else (va, shift))"
  by pat_completeness auto
termination
  by (relation "measure (\<lambda>(va, shift). nat (10000000000000 - va))") auto

text \<open>\<open>while(vb > target_value_b) { vb /= 10; ++shift; }\<close>\<close>

function scale_down :: "int \<Rightarrow> int \<Rightarrow> int \<times> int" where
  "scale_down vb shift =
     (if vb > 1000000 then scale_down (vb sdiv 10) (shift + 1) else (vb, shift))"
  by pat_completeness auto
termination
  by (relation "measure (\<lambda>(vb, shift). nat vb)") (auto simp: sdiv_nonneg)

text \<open>
  \<open>while(n > target) { v /= 10; --n; }\<close> and \<open>while(n < target) { v *= 10; ++n; }\<close>: the
  division runs them with the target 6, the parser with \<open>DECIMAL_PLACES + 1\<close>.
\<close>

function shrink_to :: "int \<Rightarrow> int \<Rightarrow> int \<Rightarrow> int \<times> int" where
  "shrink_to target v n = (if n > target then shrink_to target (v sdiv 10) (n - 1) else (v, n))"
  by pat_completeness auto
termination
  by (relation "measure (\<lambda>(target, v, n). nat (n - target))") auto

function expand_to :: "int \<Rightarrow> int \<Rightarrow> int \<Rightarrow> int option" where
  "expand_to target v n =
     (if n < target then Option.bind (chk64 (v * 10)) (\<lambda>v'. expand_to target v' (n + 1))
      else Some v)"
  by pat_completeness auto
termination
  by (relation "measure (\<lambda>(target, v, n). nat (target - n))") auto

declare scale_up.simps [simp del] scale_down.simps [simp del]
  shrink_to.simps [simp del] expand_to.simps [simp del]

definition dec_div :: "decimal \<Rightarrow> decimal \<Rightarrow> decimal option" where
  "dec_div a b = do {
     va \<leftarrow> abs64 (dvalue a);
     vb \<leftarrow> abs64 (dvalue b);
     if va = 0 then Some a
     else (case scale_up va 0 of (va', shift1) \<Rightarrow>
           case scale_down vb shift1 of (vb', shift2) \<Rightarrow>
             if vb' = 0 then None
             else (case shrink_to 6 (va' sdiv vb') shift2 of (v, shift3) \<Rightarrow> do {
               result \<leftarrow> expand_to 6 v shift3;
               (if opposite_signs a b then dec_uminus (from_raw_value result)
                else Some (from_raw_value result)) })) }"

section \<open>Parsing and printing\<close>

definition from_string :: "string \<Rightarrow> decimal option" where
  "from_string s =
     (let text = c_str s;
          negative = (text \<noteq> [] \<and> hd text = CHR ''-'');
          ptr = (if negative then tl text else text)
      in case strtol ptr of (n, endptr) \<Rightarrow>
         (case endptr of
            [] \<Rightarrow> None \<comment> \<open>\<open>endptr+1\<close> is past the terminating NUL\<close>
          | c # after \<Rightarrow>
              (case strtol after of (m, enddec) \<Rightarrow>
                 let dist = 1 + int (length after) - int (length enddec)
                 in case shrink_to (DECIMAL_PLACES + 1) m dist of (m1, dist1) \<Rightarrow> do {
                      m2 \<leftarrow> expand_to (DECIMAL_PLACES + 1) m1 dist1;
                      n' \<leftarrow> (if negative then chk64 (- n) else Some n);
                      m' \<leftarrow> (if negative then chk64 (- m2) else Some m2);
                      scaled \<leftarrow> chk64 (n' * DECIMAL_PRECISION);
                      total \<leftarrow> chk64 (scaled + m');
                      Some (from_raw_value total) })))"

text \<open>The loop that cuts trailing zeros, on the reversed buffer.\<close>

fun trim_rev :: "string \<Rightarrow> string" where
  "trim_rev (x # y # r) = (if x = CHR ''0'' \<and> y \<noteq> CHR ''.'' then trim_rev (y # r) else x # y # r)"
| "trim_rev s = s"

text \<open>\<open>operator<<\<close>\<close>

definition dec_to_string :: "decimal \<Rightarrow> string option" where
  "dec_to_string d =
     (let v = dvalue d;
          minus = (if v < 0 \<and> v > - DECIMAL_PRECISION then ''-'' else '''')
      in do {
        a \<leftarrow> abs64 v;
        (let buf = minus @ show_int (v sdiv DECIMAL_PRECISION) @ ''.''
                   @ show_padded 6 (nat (a smod DECIMAL_PRECISION))
         in Some (rev (trim_rev (rev buf)))) })"

section \<open>Helper lemmas\<close>

lemma abs64_eq: "i64 v \<Longrightarrow> abs64 v = (if v = - 9223372036854775808 then None else Some \<bar>v\<bar>)"
  by (auto simp: abs64_def range_defs)

lemma opposite_signs_iff: "opposite_signs a b \<longleftrightarrow> dvalue a * dvalue b < 0"
  by (auto simp: opposite_signs_def mult_less_0_iff)

text \<open>Splitting both factors at the decimal point loses nothing.\<close>

lemma split_product:
  fixes x y p :: int
  assumes "p > 0"
  shows "(x * y) div p = (x div p) * (y div p) * p + (x mod p) * (y div p) + (y mod p) * (x div p)
           + ((x mod p) * (y mod p)) div p"
proof -
  have "x * y = (x div p * p + x mod p) * (y div p * p + y mod p)" by simp
  also have "\<dots> = ((x div p) * (y div p) * p + (x mod p) * (y div p) + (y mod p) * (x div p)) * p
      + (x mod p) * (y mod p)"
    by (simp only: algebra_simps)
  finally show ?thesis using assms by simp
qed

lemma scale_up_spec:
  assumes "0 < va"
  shows "\<exists>k. scale_up va s = (va * 10 ^ k, s + int k) \<and> 10000000000000 \<le> va * 10 ^ k
           \<and> (0 < k \<longrightarrow> va * 10 ^ k < 100000000000000)"
  using assms
proof (induction va s rule: scale_up.induct)
  case (1 va s)
  show ?case
  proof (cases "va < 10000000000000")
    case False
    then show ?thesis using 1 by (intro exI[of _ 0]) (simp add: scale_up.simps)
  next
    case True
    obtain k where k: "scale_up (va * 10) (s + 1) = (va * 10 * 10 ^ k, s + 1 + int k)"
        "10000000000000 \<le> va * 10 * 10 ^ k" "0 < k \<longrightarrow> va * 10 * 10 ^ k < 100000000000000"
      using 1 True by auto
    show ?thesis
      using k True \<open>0 < va\<close>
      by (intro exI[of _ "Suc k"]) (cases k; simp add: scale_up.simps[of va] algebra_simps)
  qed
qed

lemma scale_down_spec:
  assumes "0 \<le> vb"
  shows "\<exists>m. scale_down vb s = (vb div 10 ^ m, s + int m) \<and> vb div 10 ^ m \<le> 1000000
           \<and> (0 < m \<longrightarrow> 100000 \<le> vb div 10 ^ m)"
  using assms
proof (induction vb s rule: scale_down.induct)
  case (1 vb s)
  show ?case
  proof (cases "vb > 1000000")
    case False
    then show ?thesis by (intro exI[of _ 0]) (simp add: scale_down.simps)
  next
    case True
    have "vb sdiv 10 = vb div 10" using True by (simp add: sdiv_nonneg)
    moreover have "0 \<le> vb sdiv 10" using True by (simp add: sdiv_nonneg)
    ultimately obtain m where m: "scale_down (vb div 10) (s + 1) = (vb div 10 div 10 ^ m, s + 1 + int m)"
        "vb div 10 div 10 ^ m \<le> 1000000" "0 < m \<longrightarrow> 100000 \<le> vb div 10 div 10 ^ m"
      using 1(1)[OF True] by metis
    have d: "vb div 10 div 10 ^ m = vb div 10 ^ Suc m"
      by (simp add: zdiv_zmult2_eq)
    have "100000 \<le> vb div 10 ^ Suc m"
      unfolding d[symmetric] using m(3) True by (cases "m = 0") auto
    then show ?thesis
      using m True \<open>vb sdiv 10 = vb div 10\<close>
      by (intro exI[of _ "Suc m"]) (simp add: scale_down.simps[of vb] d)
  qed
qed

lemma shrink_to_spec:
  "0 \<le> v \<Longrightarrow> shrink_to t v n = (if n > t then (v div 10 ^ nat (n - t), t) else (v, n))"
proof (induction t v n rule: shrink_to.induct)
  case (1 t v n)
  show ?case
  proof (cases "n > t")
    case False
    then show ?thesis by (simp add: shrink_to.simps)
  next
    case True
    then have e: "nat (n - t) = Suc (nat (n - 1 - t))" by simp
    have "shrink_to t (v div 10) (n - 1) = (if n - 1 > t then (v div 10 div 10 ^ nat (n - 1 - t), t)
        else (v div 10, n - 1))"
      using 1 True by (simp add: sdiv_nonneg)
    then show ?thesis using True 1(2)
      by (subst shrink_to.simps) (auto simp: sdiv_nonneg e zdiv_zmult2_eq simp del: nat_diff_distrib)
  qed
qed

lemma expand_to_spec:
  assumes "0 \<le> v" and "v * 10 ^ nat (t - n) \<le> 9223372036854775807"
  shows "expand_to t v n = Some (v * 10 ^ nat (t - n))"
  using assms
proof (induction t v n rule: expand_to.induct)
  case (1 t v n)
  show ?case
  proof (cases "n < t")
    case False
    then show ?thesis by (simp add: expand_to.simps)
  next
    case True
    then have e: "nat (t - n) = Suc (nat (t - (n + 1)))" by simp
    have p: "v * 10 * 10 ^ nat (t - (n + 1)) \<le> 9223372036854775807"
      using 1(3) unfolding e by simp
    moreover have "v * 10 * 1 \<le> v * 10 * 10 ^ nat (t - (n + 1))"
      using 1(2) by (intro mult_left_mono) auto
    ultimately have c: "chk64 (v * 10) = Some (v * 10)"
      using 1(2) by (simp add: range_defs)
    have "expand_to t (v * 10) (n + 1) = Some (v * 10 * 10 ^ nat (t - (n + 1)))"
      using 1(1)[OF True c] p 1(2) by simp
    then show ?thesis using True c by (subst expand_to.simps) (simp add: e)
  qed
qed

section \<open>Correctness\<close>

text \<open>All the partial sums of the multiplication are bounded by its result.\<close>

lemma dec_times_magnitude:
  fixes x y :: int
  assumes "0 \<le> x" and "0 \<le> y" and "i64 (x * y div 1000000)"
  defines "ia \<equiv> x div 1000000" and "ib \<equiv> y div 1000000"
    and "fa \<equiv> x mod 1000000" and "fb \<equiv> y mod 1000000"
  shows "i64 (ia * ib)" and "i64 (ia * ib * 1000000)" and "i64 (fa * ib)"
    and "i64 (ia * ib * 1000000 + fa * ib)" and "i64 (fb * ia)"
    and "i64 (ia * ib * 1000000 + fa * ib + fb * ia)" and "i64 (fa * fb)"
    and "ia * ib * 1000000 + fa * ib + fb * ia + fa * fb div 1000000 = x * y div 1000000"
proof -
  show sum: "ia * ib * 1000000 + fa * ib + fb * ia + fa * fb div 1000000 = x * y div 1000000"
    using split_product[of 1000000 x y] by (simp add: ia_def ib_def fa_def fb_def)
  have nonneg: "0 \<le> ia * ib" "0 \<le> fa * ib" "0 \<le> fb * ia" "0 \<le> fa * fb div 1000000" "0 \<le> fa * fb"
    using assms(1,2) by (auto simp: ia_def ib_def fa_def fb_def pos_imp_zdiv_nonneg_iff)
  have small: "fa * fb \<le> 1000000 * 1000000"
    by (intro mult_mono) (auto simp: fa_def fb_def intro: order_less_imp_le)
  show "i64 (ia * ib)" "i64 (ia * ib * 1000000)" "i64 (fa * ib)"
    "i64 (ia * ib * 1000000 + fa * ib)" "i64 (fb * ia)"
    "i64 (ia * ib * 1000000 + fa * ib + fb * ia)" "i64 (fa * fb)"
    using nonneg small sum assms(3) unfolding i64_def by linarith+
qed

lemma sdiv_signed_product:
  fixes x y p :: int
  assumes "p > 0"
  shows "(x * y) sdiv p = (if x * y < 0 then - (\<bar>x\<bar> * \<bar>y\<bar> div p) else \<bar>x\<bar> * \<bar>y\<bar> div p)"
  using assms by (cases "x * y = 0") (auto simp: signed_divide_int_def sgn_if abs_mult)

text \<open>If the last sum does not fit, no path through the checks returns a value.\<close>

lemma dec_times_chain:
  assumes "\<not> i64 (ia * ib * 1000000 + fa * ib + fb * ia + (fa * fb) sdiv 1000000)"
  shows "(do { iaib \<leftarrow> chk64 (ia * ib); whole \<leftarrow> chk64 (iaib * 1000000); faib \<leftarrow> chk64 (fa * ib);
      sum1 \<leftarrow> chk64 (whole + faib); fbia \<leftarrow> chk64 (fb * ia); sum2 \<leftarrow> chk64 (sum1 + fbia);
      fafb \<leftarrow> chk64 (fa * fb); result \<leftarrow> chk64 (sum2 + fafb sdiv 1000000); f result }) = None"
  using assms by (simp add: chk64_def)

lemma dec_times_value:
  assumes "wf_decimal a" and "wf_decimal b"
  shows "dec_times a b =
    (if dvalue a = - 9223372036854775808 \<or> dvalue b = - 9223372036854775808
        \<or> \<not> i64 (\<bar>dvalue a\<bar> * \<bar>dvalue b\<bar> div DECIMAL_PRECISION) then None
     else Some (from_raw_value ((dvalue a * dvalue b) sdiv DECIMAL_PRECISION)))"
proof (cases "dvalue a = - 9223372036854775808 \<or> dvalue b = - 9223372036854775808")
  case True
  then show ?thesis using assms
    by (auto simp: dec_times_def wf_decimal_def abs64_eq Option.bind_eq_None_conv)
next
  case False
  define x y where "x = \<bar>dvalue a\<bar>" and "y = \<bar>dvalue b\<bar>"
  have xy: "0 \<le> x" "0 \<le> y" by (simp_all add: x_def y_def)
  have abs: "abs64 (dvalue a) = Some x" "abs64 (dvalue b) = Some y"
    using assms False by (simp_all add: x_def y_def wf_decimal_def abs64_eq)
  note T = sdiv_signed_product[of 1000000 "dvalue a" "dvalue b", folded x_def y_def]
  have last: "x div 1000000 * (y div 1000000) * 1000000 + x mod 1000000 * (y div 1000000)
      + y mod 1000000 * (x div 1000000) + x mod 1000000 * (y mod 1000000) div 1000000 = x * y div 1000000"
    by (rule split_product[symmetric]) simp
  have parts: "x sdiv 1000000 = x div 1000000" "y sdiv 1000000 = y div 1000000"
    "x smod 1000000 = x mod 1000000" "y smod 1000000 = y mod 1000000"
    "(x mod 1000000 * (y mod 1000000)) sdiv 1000000 = x mod 1000000 * (y mod 1000000) div 1000000"
    using xy by (simp_all add: sdiv_nonneg smod_nonneg)
  show ?thesis
  proof (cases "i64 (x * y div 1000000)")
    case True
    note steps = dec_times_magnitude[OF xy True]
    have "0 \<le> x * y div 1000000" using xy by (simp add: pos_imp_zdiv_nonneg_iff)
    then have neg: "i64 (- (x * y div 1000000))" using True unfolding i64_def by linarith
    have "dec_times a b = (if opposite_signs a b then dec_uminus (from_raw_value (x * y div 1000000))
        else Some (from_raw_value (x * y div 1000000)))"
      by (simp only: dec_times_def abs Let_def parts Option.bind.simps
          chk64_Some[OF steps(1)] chk64_Some[OF steps(2)] chk64_Some[OF steps(3)]
          chk64_Some[OF steps(4)] chk64_Some[OF steps(5)] chk64_Some[OF steps(6)]
          chk64_Some[OF steps(7)] chk64_Some[OF True] last)
    then show ?thesis
      using False True T neg
      by (simp add: opposite_signs_iff dec_uminus_def x_def y_def)
  next
    case nofit: False
    have "dec_times a b = None"
      unfolding dec_times_def abs Let_def Option.bind.simps
      by (rule dec_times_chain) (simp only: parts last nofit not_False_eq_True)
    then show ?thesis using False nofit by (simp add: x_def y_def)
  qed
qed

text \<open>C7: the multiplication, done on the two halves of each operand, is the exact product divided
  by the precision and truncated towards zero; it is undefined in C++ exactly when that result
  does not fit in 64 bits or an operand is the smallest 64-bit value.\<close>

theorem dec_times_exact:
  assumes "wf_decimal a" and "wf_decimal b"
  shows "dec_times a b =
    (if dvalue a = - 9223372036854775808 \<or> dvalue b = - 9223372036854775808
        \<or> \<not> i64 (\<bar>dvalue a\<bar> * \<bar>dvalue b\<bar> div DECIMAL_PRECISION) then None
     else Some (from_raw_value ((dvalue a * dvalue b) sdiv DECIMAL_PRECISION)))"
  using assms by (rule dec_times_value)

subsection \<open>Division\<close>

text \<open>
  What the scaling loops compute for positive operands: \<open>x\<close> times a power of ten over \<open>y\<close>
  cut to its leading digits, and how far the cut can move the quotient.
\<close>

lemma quotient_upper:
  fixes x Y r s :: int
  assumes "r * Y * 10 ^ nat (s - 6) \<le> x * 10 ^ nat s" and "s > 6"
  shows "r * Y \<le> x * 1000000"
proof -
  have "(10::int) ^ nat s = 10 ^ (6 + nat (s - 6))" using assms(2) by simp
  then have "(10::int) ^ nat s = 1000000 * 10 ^ nat (s - 6)" by (simp only: power_add) simp
  then have "r * Y * 10 ^ nat (s - 6) \<le> (x * 1000000) * 10 ^ nat (s - 6)" using assms(1) by simp
  then show ?thesis by (simp only: mult_le_cancel_right) simp
qed

lemma floor_div_mult:
  fixes u w :: int
  assumes "0 < w"
  shows "u div w * w \<le> u" and "u < (u div w + 1) * w"
proof -
  have "u = u div w * w + u mod w" "0 \<le> u mod w" "u mod w < w"
    using assms by simp_all
  then show "u div w * w \<le> u" "u < (u div w + 1) * w"
    unfolding distrib_right by linarith+
qed

text \<open>
  \<open>q\<close> is the first quotient, \<open>Y\<close> the divisor cut to its leading digits, \<open>s\<close> the total shift
  and \<open>r\<close> the value after the shift has been undone.
\<close>

definition unshifted :: "int \<Rightarrow> int \<Rightarrow> int" where
  "unshifted q s = (if s > 6 then q div 10 ^ nat (s - 6) else q * 10 ^ nat (6 - s))"

lemma unshifted_upper:
  assumes "0 < Y" and "q * Y \<le> x * 10 ^ nat s" and "0 \<le> s"
  shows "unshifted q s * Y \<le> x * 1000000"
proof (cases "s > 6")
  case True
  have "q div 10 ^ nat (s - 6) * 10 ^ nat (s - 6) \<le> q"
    by (rule floor_div_mult) simp
  then have "q div 10 ^ nat (s - 6) * 10 ^ nat (s - 6) * Y \<le> q * Y"
    using assms(1) by (intro mult_right_mono) auto
  then have "q div 10 ^ nat (s - 6) * Y * 10 ^ nat (s - 6) \<le> x * 10 ^ nat s"
    using assms(2) by (simp add: mult.commute mult.left_commute)
  then show ?thesis using quotient_upper True by (simp add: unshifted_def)
next
  case False
  have "nat s + nat (6 - s) = 6" using False assms(3) by simp
  then have e: "(10::int) ^ nat s * 10 ^ nat (6 - s) = 1000000" by (simp flip: power_add)
  have "q * Y * 10 ^ nat (6 - s) \<le> x * 10 ^ nat s * 10 ^ nat (6 - s)"
    using assms(2) by (intro mult_right_mono) auto
  also have "\<dots> = x * 1000000" using e by (simp add: mult.assoc)
  finally show ?thesis using False by (simp add: unshifted_def mult.commute mult.left_commute)
qed

lemma unshifted_lower:
  assumes "x * 10 ^ nat s < (q + 1) * y" and "0 < y" and "0 \<le> s" and "0 \<le> q"
    and "s \<le> 6 \<Longrightarrow> 10000000 \<le> q"
  shows "x * 1000000 * 10000000 < (unshifted q s + 1) * y * 10000001"
proof (cases "s > 6")
  case True
  let ?d = "10 ^ nat (s - 6) :: int" and ?r = "q div 10 ^ nat (s - 6)"
  have "(10::int) ^ nat s = 10 ^ (6 + nat (s - 6))" using True by simp
  then have e: "(10::int) ^ nat s = 1000000 * ?d" by (simp only: power_add) simp
  have "q < (?r + 1) * ?d" by (rule floor_div_mult) simp
  then have le: "(q + 1) * y \<le> (?r + 1) * ?d * y" using assms(2) by (intro mult_right_mono) auto
  have "x * 1000000 * ?d = x * 10 ^ nat s" unfolding e by (simp only: mult.assoc)
  also note assms(1)
  also note le
  also have "(?r + 1) * ?d * y = (?r + 1) * y * ?d" by (simp only: ac_simps)
  finally have "x * 1000000 * ?d < (?r + 1) * y * ?d" .
  then have lt: "x * 1000000 < (?r + 1) * y" by (simp only: mult_less_cancel_right) simp
  have "0 \<le> (?r + 1) * y" using assms(2,4) by (simp add: pos_imp_zdiv_nonneg_iff)
  then show ?thesis using lt True by (simp add: unshifted_def)
next
  case False
  let ?d = "10 ^ nat (6 - s) :: int"
  have "nat s + nat (6 - s) = 6" using False assms(3) by simp
  then have e: "(10::int) ^ nat s * ?d = 1000000" by (simp flip: power_add)
  have d: "1 \<le> ?d" by simp
  have "x * 1000000 = x * 10 ^ nat s * ?d" using e by (simp only: mult.assoc)
  also have "x * 10 ^ nat s * ?d < (q + 1) * y * ?d"
    using assms(1) by (rule mult_strict_right_mono) simp
  also have "(q + 1) * y * ?d = (q + 1) * ?d * y" by (simp only: ac_simps)
  finally have "x * 1000000 < (q + 1) * ?d * y" .
  moreover have "(q + 1) * 10000000 * (?d * y) \<le> q * 10000001 * (?d * y)"
    using assms False d by (intro mult_right_mono) auto
  ultimately have "x * 1000000 * 10000000 < q * ?d * y * 10000001"
    by (simp add: algebra_simps)
  also have "\<dots> \<le> (q * ?d + 1) * y * 10000001" using assms(2) by (simp add: algebra_simps)
  finally show ?thesis using False by (simp add: unshifted_def)
qed

lemma dec_div_magnitude:
  assumes x: "0 < x" "x \<le> 9223372036854775807" and y: "0 < y" "y \<le> 9223372036854775807"
    and fits: "x * 1000000 div y \<le> 9223372036854775807"
  shows "\<exists>r. (case scale_up x 0 of (va', shift1) \<Rightarrow> case scale_down y shift1 of (vb', shift2) \<Rightarrow>
            if vb' = 0 then None
            else (case shrink_to 6 (va' sdiv vb') shift2 of (v, shift3) \<Rightarrow> expand_to 6 v shift3)) = Some r
        \<and> 0 \<le> r \<and> r \<le> 9223372036854775807
        \<and> r * y * 100000 \<le> x * 1000000 * 100001
        \<and> x * 1000000 * 10000000 < (r + 1) * y * 10000001"
proof -
  obtain k where k: "scale_up x 0 = (x * 10 ^ k, int k)" "10000000000000 \<le> x * 10 ^ k"
      "0 < k \<longrightarrow> x * 10 ^ k < 100000000000000"
    using scale_up_spec[OF x(1), of 0] by auto
  obtain m where m: "scale_down y (int k) = (y div 10 ^ m, int k + int m)"
      "y div 10 ^ m \<le> 1000000" "0 < m \<longrightarrow> 100000 \<le> y div 10 ^ m"
    using scale_down_spec[of y "int k"] y(1) by auto
  define b q s Y where "b = y div 10 ^ m" and "q = x * 10 ^ k div b" and "s = int k + int m"
    and "Y = b * 10 ^ m"
  have b: "0 < b" using m(3) y(1) by (cases "m = 0") (auto simp: b_def)
  have s: "nat s = k + m" "0 \<le> s" by (simp_all add: s_def)
  have xk: "0 \<le> x * 10 ^ k" using x by simp
  have q0: "0 \<le> q" using b xk by (simp add: q_def pos_imp_zdiv_nonneg_iff)
  have qb: "q * b \<le> x * 10 ^ k" "x * 10 ^ k < (q + 1) * b"
    unfolding q_def by (rule floor_div_mult[OF b])+
  have Y: "Y \<le> y" "y < (b + 1) * 10 ^ m" "0 < Y"
    using floor_div_mult[of "10 ^ m" y] b by (simp_all add: Y_def b_def)
  have yY: "y * 100000 \<le> Y * 100001"
  proof (cases "m = 0")
    case True
    then show ?thesis using y by (simp add: Y_def b_def)
  next
    case False
    then have "(b + 1) * 100000 \<le> b * 100001" using m(3) by (simp add: b_def)
    then have "(b + 1) * 100000 * 10 ^ m \<le> b * 100001 * 10 ^ m" by (rule mult_right_mono) simp
    moreover have "y * 100000 \<le> (b + 1) * 10 ^ m * 100000" using Y(2) by simp
    ultimately show ?thesis by (simp only: Y_def ac_simps)
  qed
  have "q * b * 10 ^ m \<le> x * 10 ^ k * 10 ^ m" using qb(1) by (intro mult_right_mono) auto
  then have up: "unshifted q s * Y \<le> x * 1000000"
    using Y(3) s by (intro unshifted_upper) (simp_all add: Y_def power_add mult.assoc)
  have "x * 10 ^ k * 10 ^ m < (q + 1) * b * 10 ^ m" using qb(2) by (intro mult_strict_right_mono) auto
  also have "(q + 1) * b * 10 ^ m \<le> (q + 1) * y"
    using Y(1) q0 by (simp add: Y_def mult.assoc mult_left_mono)
  finally have low0: "x * 10 ^ nat s < (q + 1) * y" by (simp add: s power_add mult.assoc)
  have "10000000000000 < (q + 1) * 1000000"
    using k(2) qb(2) m(2) q0 b_def mult_left_mono[of b 1000000 "q + 1"] by linarith
  then have q7: "10000000 \<le> q" by simp
  note low = unshifted_lower[OF low0 y(1) s(2) q0 q7]
  let ?r = "unshifted q s"
  have r0: "0 \<le> ?r" using q0 by (simp add: unshifted_def pos_imp_zdiv_nonneg_iff)
  have "?r * (y * 100000) \<le> ?r * (Y * 100001)" using yY r0 by (rule mult_left_mono)
  also have "?r * (Y * 100001) \<le> x * 1000000 * 100001"
    using mult_right_mono[OF up, of 100001] by (simp only: mult.assoc)
  finally have over: "?r * y * 100000 \<le> x * 1000000 * 100001" by (simp only: mult.assoc)
  have rmax: "?r \<le> 9223372036854775807"
  proof (cases "m = 0")
    case True
    then have "?r * y \<le> x * 1000000" using up by (simp add: Y_def b_def)
    then have "?r * y div y \<le> x * 1000000 div y" using y(1) by (rule zdiv_mono1)
    then show ?thesis using y(1) fits by simp
  next
    case False
    then have "100000 \<le> b" using m(3) by (simp add: b_def)
    moreover have "(10::int) \<le> 10 ^ m" using False by (cases m) auto
    ultimately have "100000 * 10 \<le> Y" unfolding Y_def by (intro mult_mono) auto
    then have "?r * (100000 * 10) \<le> ?r * Y" using r0 by (rule mult_left_mono)
    then show ?thesis using up x by simp
  qed
  have res: "(case shrink_to 6 q s of (v, shift3) \<Rightarrow> expand_to 6 v shift3) = Some ?r"
  proof (cases "s > 6")
    case True
    then show ?thesis using q0 rmax
      by (simp add: shrink_to_spec unshifted_def expand_to.simps)
  next
    case False
    then show ?thesis using q0 rmax
      by (simp add: shrink_to_spec unshifted_def expand_to_spec)
  qed
  have "x * 10 ^ k sdiv b = q" using xk b by (simp add: sdiv_nonneg q_def)
  then show ?thesis
    using k(1) m(1) b res r0 rmax over low by (intro exI[of _ ?r]) (simp add: s_def b_def)
qed

text \<open>C24: the division returns for every non-zero divisor when the quotient fits in 64 bits, with
  the sign of the true quotient and a magnitude that exceeds it by at most one part in 100000 (the
  divisor is cut to its leading six digits) and falls short of it by less than one unit in the last
  place plus one part in 10 million.\<close>

theorem dec_div_accuracy:
  assumes "wf_decimal a" and "wf_decimal b"
    and "dvalue a \<noteq> - 9223372036854775808" and "dvalue b \<noteq> - 9223372036854775808"
    and "dvalue a \<noteq> 0" and "dvalue b \<noteq> 0"
    and "\<bar>dvalue a\<bar> * 1000000 div \<bar>dvalue b\<bar> \<le> 9223372036854775807"
  shows "\<exists>r \<ge> 0. dec_div a b = Some (from_raw_value (if dvalue a * dvalue b < 0 then - r else r))
        \<and> r * \<bar>dvalue b\<bar> * 100000 \<le> \<bar>dvalue a\<bar> * 1000000 * 100001
        \<and> \<bar>dvalue a\<bar> * 1000000 * 10000000 < (r + 1) * \<bar>dvalue b\<bar> * 10000001"
proof -
  have abs: "abs64 (dvalue a) = Some \<bar>dvalue a\<bar>" "abs64 (dvalue b) = Some \<bar>dvalue b\<bar>"
    using assms by (simp_all add: wf_decimal_def abs64_eq)
  have range: "0 < \<bar>dvalue a\<bar>" "\<bar>dvalue a\<bar> \<le> 9223372036854775807"
      "0 < \<bar>dvalue b\<bar>" "\<bar>dvalue b\<bar> \<le> 9223372036854775807"
    using assms(1-6) unfolding wf_decimal_def i64_def by auto
  obtain r where r: "(case scale_up \<bar>dvalue a\<bar> 0 of (va', shift1) \<Rightarrow>
            case scale_down \<bar>dvalue b\<bar> shift1 of (vb', shift2) \<Rightarrow>
            if vb' = 0 then None
            else (case shrink_to 6 (va' sdiv vb') shift2 of (v, shift3) \<Rightarrow> expand_to 6 v shift3)) = Some r"
      and bounds: "0 \<le> r" "r \<le> 9223372036854775807"
        "r * \<bar>dvalue b\<bar> * 100000 \<le> \<bar>dvalue a\<bar> * 1000000 * 100001"
        "\<bar>dvalue a\<bar> * 1000000 * 10000000 < (r + 1) * \<bar>dvalue b\<bar> * 10000001"
    using dec_div_magnitude[OF range assms(7)] by blast
  have "i64 (- r)" using bounds by (simp add: i64_def)
  moreover from r have "dec_div a b = (if opposite_signs a b then dec_uminus (from_raw_value r)
      else Some (from_raw_value r))"
    using range by (auto simp: dec_div_def abs split: prod.splits if_splits)
  ultimately have "dec_div a b = Some (from_raw_value (if dvalue a * dvalue b < 0 then - r else r))"
    by (simp add: opposite_signs_iff dec_uminus_def)
  then show ?thesis using bounds by blast
qed

subsection \<open>Printing and parsing\<close>

lemma trim_rev_zeros:
  assumes "ds \<noteq> []" and "CHR ''.'' \<notin> set ds"
  shows "\<exists>ds' k. ds' \<noteq> [] \<and> ds = ds' @ replicate k (CHR ''0'')
           \<and> rev (trim_rev (rev (pre @ CHR ''.'' # ds))) = pre @ CHR ''.'' # ds'"
  using assms
proof (induction ds rule: rev_induct)
  case Nil
  then show ?case by simp
next
  case (snoc d ds)
  show ?case
  proof (cases "d = CHR ''0'' \<and> ds \<noteq> []")
    case True
    have "ds \<noteq> []" "CHR ''.'' \<notin> set ds" using True snoc.prems by auto
    from snoc.IH[OF this] obtain ds' k where ih: "ds' \<noteq> []" "ds = ds' @ replicate k (CHR ''0'')"
        "rev (trim_rev (rev (pre @ CHR ''.'' # ds))) = pre @ CHR ''.'' # ds'"
      by blast
    obtain e es where e: "ds = es @ [e]" using True by (cases ds rule: rev_cases) auto
    have "e \<noteq> CHR ''.''" using snoc.prems(2) e by auto
    then have "trim_rev (rev (pre @ CHR ''.'' # ds @ [d])) = trim_rev (rev (pre @ CHR ''.'' # ds))"
      using True by (simp add: e)
    then show ?thesis using ih True
      by (intro exI[of _ ds'] exI[of _ "Suc k"]) (simp add: replicate_append_same)
  next
    case False
    have "trim_rev (rev (pre @ CHR ''.'' # ds @ [d])) = rev (pre @ CHR ''.'' # ds @ [d])"
      using False by (cases ds rule: rev_cases) auto
    then show ?thesis by (intro exI[of _ "ds @ [d]"] exI[of _ 0]) simp
  qed
qed

lemma dec_to_string_form:
  assumes "i64 v" and "v \<noteq> - 9223372036854775808"
  shows "dec_to_string (from_raw_value v) = Some (rev (trim_rev (rev
     ((if v < 0 then ''-'' else '''') @ show_nat (nat (\<bar>v\<bar> div 1000000)) @ CHR ''.''
        # show_padded 6 (nat (\<bar>v\<bar> mod 1000000))))))"
proof (cases "v < 0")
  case False
  then show ?thesis
    by (simp add: dec_to_string_def abs64_eq assms sdiv_nonneg smod_nonneg show_int_def
        pos_imp_zdiv_neg_iff)
next
  case True
  define w where "w = - v"
  have w: "v = - w" "0 < w" using True by (simp_all add: w_def)
  have abs: "abs64 (- w) = Some w" using assms w by (simp add: abs64_eq)
  show ?thesis
  proof (cases "w < 1000000")
    case True
    then show ?thesis
      unfolding w(1) using w(2)
      by (simp add: dec_to_string_def abs sdiv_nonneg smod_nonneg show_int_def)
  next
    case False
    then have "0 < w div 1000000" by (simp add: pos_imp_zdiv_pos_iff)
    then show ?thesis
      unfolding w(1) using False w(2)
      by (simp add: dec_to_string_def abs sdiv_nonneg smod_nonneg show_int_def)
  qed
qed

text \<open>Cutting trailing zeros leaves a string that the parser pads back to six places.\<close>

lemma from_string_digits:
  assumes "ds' \<noteq> []" and "length (ds' @ replicate k (CHR ''0'')) = 6"
    and "\<forall>c \<in> set ds'. isdigit c" and "i64 v" and "v \<noteq> - 9223372036854775808"
    and "digits_value (ds' @ replicate k (CHR ''0'')) = nat (\<bar>v\<bar> mod 1000000)"
  shows "from_string ((if v < 0 then ''-'' else '''') @ show_nat (nat (\<bar>v\<bar> div 1000000)) @ CHR ''.'' # ds')
           = Some (from_raw_value v)"
proof -
  let ?n = "nat (\<bar>v\<bar> div 1000000)" and ?m = "digits_value ds'"
  have len: "length ds' + k = 6" using assms(2) by simp
  have val: "int ?m * 10 ^ k = \<bar>v\<bar> mod 1000000"
  proof -
    have "?m * 10 ^ k = nat (\<bar>v\<bar> mod 1000000)" using assms(6) by (simp add: digits_value_append)
    then have "int (?m * 10 ^ k) = int (nat (\<bar>v\<bar> mod 1000000))" by (simp only:)
    then show ?thesis by simp
  qed
  have "int ?m \<le> int ?m * 10 ^ k" using mult_left_mono[of 1 "10 ^ k" "int ?m"] by simp
  then have m_small: "int ?m < 1000000" using val by (smt (verit) pos_mod_bound)
  have n_small: "int ?n \<le> 9223372036854" "int ?n = \<bar>v\<bar> div 1000000"
    using assms(4,5) by (auto simp: i64_def)
  have hd: "hd (show_nat ?n) \<noteq> CHR ''-''"
    by (rule isdigit_neq) (simp add: isdigit_hd_show_nat)
  have "NUL \<notin> set ((if v < 0 then ''-'' else '''') @ show_nat ?n @ CHR ''.'' # ds')"
    using show_nat_digits[of ?n] assms(3) by (auto simp: char_class_defs)
  note cstr = c_str_id[OF this]
  have whole: "strtol (show_nat ?n @ CHR ''.'' # ds') = (int ?n, CHR ''.'' # ds')"
    using strtol_digits[OF show_nat_nonempty show_nat_digits, of "CHR ''.'' # ds'" ?n] n_small
    by (simp add: clamp_long_def isdigit_def char_code_def)
  have frac: "strtol ds' = (int ?m, [])"
    using strtol_digits[OF assms(1,3), of "[]"] m_small by (simp add: clamp_long_def)
  have expand: "expand_to 7 (int ?m) (1 + int (length ds')) = Some (\<bar>v\<bar> mod 1000000)"
  proof -
    have "nat (7 - (1 + int (length ds'))) = k" using len by simp
    moreover have "\<bar>v\<bar> mod 1000000 < 1000000" by simp
    ultimately show ?thesis using expand_to_spec[of "int ?m" 7 "1 + int (length ds')"] val by simp
  qed
  have shrink: "shrink_to 7 (int ?m) (1 + int (length ds')) = (int ?m, 1 + int (length ds'))"
    using len by (simp add: shrink_to_spec)
  define N F where "N = int ?n" and "F = \<bar>v\<bar> mod 1000000"
  have split: "\<bar>v\<bar> = N * 1000000 + F"
    using n_small(2) div_mult_mod_eq[of "\<bar>v\<bar>" 1000000] by (simp add: N_def F_def)
  have F: "0 \<le> F" "F < 1000000" by (simp_all add: F_def)
  have N: "0 \<le> N" "N \<le> 9223372036854"
    using n_small(1) by (simp_all only: N_def of_nat_0_le_iff)
  have fit: "i64 (- N)" "i64 (- F)" "i64 (N * 1000000)" "i64 (- (N * 1000000))"
    using F N unfolding i64_def by linarith+
  show ?thesis
  proof (cases "v < 0")
    case True
    have "- F - N * 1000000 = v" using True split by simp
    then show ?thesis
      using True cstr hd whole[folded N_def] frac expand[folded F_def] shrink fit assms(4)
      by (simp add: from_string_def)
  next
    case False
    have "N * 1000000 + F = v" using False split by simp
    then show ?thesis
      using False cstr hd whole[folded N_def] frac expand[folded F_def] shrink fit assms(4)
      by (simp add: from_string_def hd_append)
  qed
qed

lemma dec_printed:
  assumes "i64 v" and "v \<noteq> - 9223372036854775808"
  shows "\<exists>ds'. ds' \<noteq> [] \<and> (\<forall>c \<in> set ds'. isdigit c)
    \<and> dec_to_string (from_raw_value v)
        = Some ((if v < 0 then ''-'' else '''') @ show_nat (nat (\<bar>v\<bar> div 1000000)) @ CHR ''.'' # ds')
    \<and> from_string ((if v < 0 then ''-'' else '''') @ show_nat (nat (\<bar>v\<bar> div 1000000)) @ CHR ''.'' # ds')
        = Some (from_raw_value v)"
proof -
  let ?pre = "(if v < 0 then ''-'' else '''') @ show_nat (nat (\<bar>v\<bar> div 1000000))"
  let ?ds = "show_padded 6 (nat (\<bar>v\<bar> mod 1000000))"
  have "\<bar>v\<bar> mod 1000000 < 1000000" by simp
  then have f: "nat (\<bar>v\<bar> mod 1000000) < 10 ^ 6" by simp
  have digits: "\<forall>c \<in> set ?ds. isdigit c" by (rule show_padded_digits)
  have len: "length ?ds = 6" using length_show_padded[OF f] by simp
  have "?ds \<noteq> []" using len by auto
  moreover have "CHR ''.'' \<notin> set ?ds" using digits isdigit_neq(3) by blast
  ultimately obtain ds' k where ds: "ds' \<noteq> []" "?ds = ds' @ replicate k (CHR ''0'')"
      "rev (trim_rev (rev (?pre @ CHR ''.'' # ?ds))) = ?pre @ CHR ''.'' # ds'"
    using trim_rev_zeros by blast
  have d: "\<forall>c \<in> set ds'. isdigit c" using digits unfolding ds(2) by simp
  moreover have "digits_value (ds' @ replicate k (CHR ''0'')) = nat (\<bar>v\<bar> mod 1000000)"
    unfolding ds(2)[symmetric] by simp
  ultimately have "from_string (?pre @ CHR ''.'' # ds') = Some (from_raw_value v)"
    using from_string_digits[OF ds(1) len[unfolded ds(2)] _ assms] by simp
  moreover have "dec_to_string (from_raw_value v) = Some (?pre @ CHR ''.'' # ds')"
    unfolding dec_to_string_form[OF assms] using ds(3) by (simp only: append.assoc)
  ultimately show ?thesis using ds(1) d by auto
qed

text \<open>C25: parsing the printed form of a decimal gives the decimal back, for every 64-bit value but
  the smallest one: the sign of values between -1 and 0, the six padded places and the cut zeros
  are all undone by the parser.\<close>

theorem dec_print_parse:
  assumes "wf_decimal d" and "dvalue d \<noteq> - 9223372036854775808"
  shows "Option.bind (dec_to_string d) from_string = Some d"
proof (cases d)
  case (from_raw_value v)
  then show ?thesis using dec_printed[of v] assms by (auto simp: wf_decimal_def)
qed

theorem dec_print_parse_witness:
  "Option.bind (dec_to_string (from_raw_value (- 500000))) from_string = Some (from_raw_value (- 500000))
   \<and> dec_to_string (from_raw_value (- 500000)) = Some ''-0.5''"
proof -
  have "dec_to_string (from_raw_value (- 500000)) = Some ''-0.5''"
    by (simp add: dec_to_string_def abs64_def show_int_def show_padded_def show_nat_eval
        digit_char_def i64_def)
  then show ?thesis
    using dec_print_parse[of "from_raw_value (- 500000)"] by (simp add: wf_decimal_def i64_def)
qed

theorem dec_times_exact_witness:
  "dec_times (from_raw_value (- 80000)) (from_raw_value 500000) = Some (from_raw_value (- 40000))"
  using dec_times_exact[of "from_raw_value (- 80000)" "from_raw_value 500000"]
  by (simp add: wf_decimal_def i64_def)

theorem dec_div_accuracy_witness:
  "\<exists>r \<ge> 0. dec_div (from_raw_value (- 10934540000)) (from_raw_value 7649440000) = Some (from_raw_value (- r))
     \<and> r * 7649440000 * 100000 \<le> 10934540000 * 1000000 * 100001
     \<and> 10934540000 * 1000000 * 10000000 < (r + 1) * 7649440000 * 10000001"
  using dec_div_accuracy[of "from_raw_value (- 10934540000)" "from_raw_value 7649440000"]
  by (simp add: wf_decimal_def i64_def)

end
