(* ===== verification/CT_Level_Solid_Map.thy ===== *)
theory CT_Level_Solid_Map
  imports CT_CLib
begin

text \<open>
  \<open>src/level_solid_map.hpp\<close> and \<open>src/level_solid_map.cpp\<close>: the sparse map from tile
  positions to solidity information, kept as growable vectors of rows and cells for each of the four
  quadrants. A cell is a pointer owned by its slot, so it is modelled by the value it points at, and
  \<open>NULL\<close> by \<open>None\<close>.
\<close>

unbundle bit_operations_syntax

section \<open>Data\<close>

type_synonym tile_pos = "int \<times> int"
type_synonym tile_bitmap = "1024 word" \<comment> \<open>\<open>std::bitset<TileSize*TileSize>\<close> with \<open>TileSize = 32\<close>\<close>

record surface_info =
  friction :: int
  traction :: int
  damage :: int
  surf_info :: "string option" \<comment> \<open>\<open>info\<close>: a pointer into the pool of interned strings\<close>

record tile_solid_info =
  bitmap :: tile_bitmap
  surf :: surface_info
  all_solid :: bool

definition default_surface :: surface_info where
  "default_surface = \<lparr>friction = 0, traction = 0, damage = -1, surf_info = None\<rparr>"

definition default_tile :: tile_solid_info where
  "default_tile = \<lparr>bitmap = 0, surf = default_surface, all_solid = False\<rparr>"

type_synonym cells = "tile_solid_info option list"

record tile_row =
  positive_cells :: cells
  negative_cells :: cells

record level_solid_map =
  positive_rows :: "tile_row list"
  negative_rows :: "tile_row list"

definition empty_row :: tile_row where
  "empty_row = \<lparr>positive_cells = [], negative_cells = []\<rparr>"

definition empty_map :: level_solid_map where
  "empty_map = \<lparr>positive_rows = [], negative_rows = []\<rparr>"

section \<open>Slots\<close>

text \<open>
  A coordinate selects the vector of its sign and an index in it; a slot, what a
  \<open>tile_solid_info**\<close> points at, is given by the two selections.
\<close>

type_synonym slot = "(bool \<times> nat) \<times> (bool \<times> nat)"

definition quadrant :: "int \<Rightarrow> bool \<times> nat" where
  "quadrant i = (if i \<ge> 0 then (True, nat i) else (False, nat (- (i + 1))))"

definition rows_of :: "bool \<Rightarrow> level_solid_map \<Rightarrow> tile_row list" where
  "rows_of b m = (if b then positive_rows m else negative_rows m)"

definition set_rows :: "bool \<Rightarrow> tile_row list \<Rightarrow> level_solid_map \<Rightarrow> level_solid_map" where
  "set_rows b rs m = (if b then m\<lparr>positive_rows := rs\<rparr> else m\<lparr>negative_rows := rs\<rparr>)"

definition cells_of :: "bool \<Rightarrow> tile_row \<Rightarrow> cells" where
  "cells_of b r = (if b then positive_cells r else negative_cells r)"

definition set_cells :: "bool \<Rightarrow> cells \<Rightarrow> tile_row \<Rightarrow> tile_row" where
  "set_cells b cs r = (if b then r\<lparr>positive_cells := cs\<rparr> else r\<lparr>negative_cells := cs\<rparr>)"

definition deref :: "level_solid_map \<Rightarrow> slot \<Rightarrow> tile_solid_info option" where
  "deref m s = (case s of ((rb, ri), (cb, ci)) \<Rightarrow> cells_of cb (rows_of rb m ! ri) ! ci)"

definition assign :: "level_solid_map \<Rightarrow> slot \<Rightarrow> tile_solid_info option \<Rightarrow> level_solid_map" where
  "assign m s v = (case s of ((rb, ri), (cb, ci)) \<Rightarrow>
     let rows = rows_of rb m; r = rows ! ri
     in set_rows rb (rows[ri := set_cells cb ((cells_of cb r)[ci := v]) r]) m)"

section \<open>Operations\<close>

definition insert_raw :: "level_solid_map \<Rightarrow> tile_pos \<Rightarrow> level_solid_map \<times> slot" where
  "insert_raw m pos =
     (case quadrant (snd pos) of (rb, ri) \<Rightarrow>
      case quadrant (fst pos) of (cb, ci) \<Rightarrow>
        let rows = grow (ri + 1) empty_row (rows_of rb m);
            r = rows ! ri;
            cs = grow (ci + 1) None (cells_of cb r)
        in (set_rows rb (rows[ri := set_cells cb cs r]) m, ((rb, ri), (cb, ci))))"

definition insert_or_find :: "level_solid_map \<Rightarrow> tile_pos \<Rightarrow> level_solid_map \<times> slot" where
  "insert_or_find m pos =
     (case insert_raw m pos of (m', result) \<Rightarrow>
        (if deref m' result = None then assign m' result (Some default_tile) else m', result))"

definition find_tile :: "level_solid_map \<Rightarrow> tile_pos \<Rightarrow> tile_solid_info option" where
  "find_tile m pos =
     (case quadrant (snd pos) of (rb, ri) \<Rightarrow>
        if ri < length (rows_of rb m)
        then (case quadrant (fst pos) of (cb, ci) \<Rightarrow>
                let r = rows_of rb m ! ri
                in if ci < length (cells_of cb r) then cells_of cb r ! ci else None)
        else None)"

definition erase_tile :: "level_solid_map \<Rightarrow> tile_pos \<Rightarrow> level_solid_map" where
  "erase_tile m pos = (case insert_raw m pos of (m', info) \<Rightarrow> assign m' info None)"

definition clear_map :: "level_solid_map \<Rightarrow> level_solid_map" where
  "clear_map m = m\<lparr>positive_rows := [], negative_rows := []\<rparr>"

text \<open>The copy constructor and the assignment operator copy nothing.\<close>

definition copy_construct :: "level_solid_map \<Rightarrow> level_solid_map" where
  "copy_construct m = empty_map"

definition copy_assign :: "level_solid_map \<Rightarrow> level_solid_map \<Rightarrow> level_solid_map" where
  "copy_assign this m = this"

definition merge_surface_info :: "surface_info \<Rightarrow> surface_info \<Rightarrow> surface_info" where
  "merge_surface_info a b =
     (let a1 = a\<lparr>friction := max (friction a) (friction b)\<rparr>;
          a2 = a1\<lparr>traction := max (traction a1) (traction b)\<rparr>;
          a3 = a2\<lparr>damage := max (damage a2) (damage b)\<rparr>
      in case surf_info b of None \<Rightarrow> a3 | Some i \<Rightarrow> a3\<lparr>surf_info := Some i\<rparr>)"

definition merge_tile :: "tile_solid_info \<Rightarrow> tile_solid_info \<Rightarrow> tile_solid_info" where
  "merge_tile dst src =
     (let d1 = dst\<lparr>all_solid := all_solid dst \<or> all_solid src\<rparr>;
          d2 = d1\<lparr>surf := merge_surface_info (surf d1) (surf src)\<rparr>
      in if \<not> all_solid d2 then d2\<lparr>bitmap := bitmap d2 OR bitmap src\<rparr> else d2)"

text \<open>
  The body of the first three inner loops: the destination is created before the source cell is
  tested. The fourth loop tests the source cell first.
\<close>

definition merge_cell :: "tile_pos \<Rightarrow> tile_solid_info option \<Rightarrow> level_solid_map \<Rightarrow> level_solid_map" where
  "merge_cell pos src m =
     (case insert_or_find m pos of (m', dst) \<Rightarrow>
        (case src of
           None \<Rightarrow> m'
         | Some s \<Rightarrow> assign m' dst (map_option (\<lambda>d. merge_tile d s) (deref m' dst))))"

definition merge_cell_checked ::
    "tile_pos \<Rightarrow> tile_solid_info option \<Rightarrow> level_solid_map \<Rightarrow> level_solid_map" where
  "merge_cell_checked pos src m =
     (case src of
        None \<Rightarrow> m
      | Some s \<Rightarrow> (case insert_or_find m pos of (m', dst) \<Rightarrow>
                     assign m' dst (map_option (\<lambda>d. merge_tile d s) (deref m' dst))))"

definition merge_map :: "level_solid_map \<Rightarrow> level_solid_map \<Rightarrow> int \<Rightarrow> int \<Rightarrow> level_solid_map" where
  "merge_map this src xoffset yoffset =
     (let after_negative =
        fold (\<lambda>n m0.
            (let r = negative_rows src ! n;
                 m1 = fold (\<lambda>k. merge_cell (- int k - 1 + xoffset, - int n - 1 + yoffset)
                              (negative_cells r ! k)) [0..<length (negative_cells r)] m0
             in fold (\<lambda>k. merge_cell (int k + xoffset, - int n - 1 + yoffset)
                              (positive_cells r ! k)) [0..<length (positive_cells r)] m1))
          [0..<length (negative_rows src)] this
      in
        fold (\<lambda>n m0.
            (let r = positive_rows src ! n;
                 m1 = fold (\<lambda>k. merge_cell (- int k - 1 + xoffset, int n + yoffset)
                              (negative_cells r ! k)) [0..<length (negative_cells r)] m0
             in fold (\<lambda>k. merge_cell_checked (int k + xoffset, int n + yoffset)
                              (positive_cells r ! k)) [0..<length (positive_cells r)] m1))
          [0..<length (positive_rows src)] after_negative)"

text \<open>What the collision code reads: an unset tile is as good as a default one.\<close>

definition view_tile :: "level_solid_map \<Rightarrow> tile_pos \<Rightarrow> tile_solid_info" where
  "view_tile m pos = (case find_tile m pos of None \<Rightarrow> default_tile | Some t \<Rightarrow> t)"

definition tile_solid :: "tile_solid_info \<Rightarrow> nat \<Rightarrow> bool" where
  "tile_solid t i \<longleftrightarrow> all_solid t \<or> bit (bitmap t) i"

section \<open>Slots as a memory\<close>

lemma quadrant_inj [simp]: "quadrant i = quadrant j \<longleftrightarrow> i = j"
  by (auto simp: quadrant_def split: if_splits)

lemma rows_of_set_rows [simp]: "rows_of b' (set_rows b rs m) = (if b' = b then rs else rows_of b' m)"
  by (simp add: rows_of_def set_rows_def)

lemma cells_of_set_cells [simp]: "cells_of b' (set_cells b cs r) = (if b' = b then cs else cells_of b' r)"
  by (simp add: cells_of_def set_cells_def)

lemma cells_of_empty_row [simp]: "cells_of b empty_row = []"
  by (simp add: cells_of_def empty_row_def)

lemma rows_of_empty_map [simp]: "rows_of b empty_map = []"
  by (simp add: rows_of_def empty_map_def)

text \<open>A slot is allocated in a map when both indices are in range.\<close>

definition allocated :: "level_solid_map \<Rightarrow> slot \<Rightarrow> bool" where
  "allocated m s = (case s of ((rb, ri), (cb, ci)) \<Rightarrow>
     ri < length (rows_of rb m) \<and> ci < length (cells_of cb (rows_of rb m ! ri)))"

definition slot_of :: "tile_pos \<Rightarrow> slot" where
  "slot_of pos = (quadrant (snd pos), quadrant (fst pos))"

lemma slot_of_inj [simp]: "slot_of p = slot_of q \<longleftrightarrow> p = q"
  by (cases p; cases q) (auto simp: slot_of_def)

lemma find_tile_deref: "find_tile m pos = (if allocated m (slot_of pos) then deref m (slot_of pos) else None)"
  by (auto simp: find_tile_def allocated_def slot_of_def deref_def Let_def split: prod.splits)

lemma allocated_assign [simp]: "allocated (assign m s v) t \<longleftrightarrow> allocated m t"
  by (cases s; cases t) (auto simp: allocated_def assign_def Let_def nth_list_update_if split: prod.splits)

lemma deref_assign:
  "allocated m s \<Longrightarrow> allocated m t \<Longrightarrow> deref (assign m s v) t = (if t = s then v else deref m t)"
  by (auto simp: allocated_def assign_def deref_def Let_def nth_list_update_if split: prod.splits)

lemma insert_raw_slot [simp]: "snd (insert_raw m pos) = slot_of pos"
  by (simp add: insert_raw_def slot_of_def Let_def split: prod.splits)

lemma insert_raw_allocated: "allocated (fst (insert_raw m pos)) (slot_of pos)"
  by (auto simp: insert_raw_def slot_of_def allocated_def Let_def nth_list_update_if nth_grow less_max_iff_disj split: prod.splits)

lemma insert_raw_find [simp]: "find_tile (fst (insert_raw m pos)) p = find_tile m p"
  by (auto simp: insert_raw_def find_tile_def Let_def nth_list_update_if nth_grow less_max_iff_disj
      split: prod.splits if_splits)

lemma find_assign:
  "allocated m (slot_of pos) \<Longrightarrow> find_tile (assign m (slot_of pos) v) p = (if p = pos then v else find_tile m p)"
  by (auto simp: find_tile_deref deref_assign)

section \<open>The interface the rest of the engine uses\<close>

text \<open>
  A store of cells: \<open>alloc\<close> returns a slot for a key, creating a default cell where there was
  none; \<open>rd\<close> and \<open>wr\<close> go through the slot.
\<close>

locale slot_store =
  fixes find :: "'m \<Rightarrow> 'k \<Rightarrow> 'v option"
    and alloc :: "'m \<Rightarrow> 'k \<Rightarrow> 'm \<times> 's"
    and rd :: "'m \<Rightarrow> 's \<Rightarrow> 'v option"
    and wr :: "'m \<Rightarrow> 's \<Rightarrow> 'v option \<Rightarrow> 'm"
    and dflt :: 'v
  assumes find_alloc: "find (fst (alloc m k)) k' =
      (if k' = k then Some (case find m k of None \<Rightarrow> dflt | Some v \<Rightarrow> v) else find m k')"
    and rd_alloc: "rd (fst (alloc m k)) (snd (alloc m k)) = find (fst (alloc m k)) k"
    and find_wr: "find (wr (fst (alloc m k)) (snd (alloc m k)) v) k' = (if k' = k then v else find m k')"
begin

lemma find_modify:
  "find (wr (fst (alloc m k)) (snd (alloc m k)) (map_option f (rd (fst (alloc m k)) (snd (alloc m k))))) k'
     = (if k' = k then Some (f (case find m k of None \<Rightarrow> dflt | Some v \<Rightarrow> v)) else find m k')"
  by (simp add: find_wr rd_alloc find_alloc)

lemma modify_acts_on:
  "acts_on (\<lambda>m p. case find m p of None \<Rightarrow> dflt | Some v \<Rightarrow> v) (\<lambda>p. f)
     (\<lambda>m. wr (fst (alloc m k)) (snd (alloc m k)) (map_option f (rd (fst (alloc m k)) (snd (alloc m k))))) {k}"
  by (rule acts_onI) (simp add: find_modify)

lemma alloc_acts_on:
  "acts_on (\<lambda>m p. case find m p of None \<Rightarrow> dflt | Some v \<Rightarrow> v) (\<lambda>p v. v) (\<lambda>m. fst (alloc m k)) {k}"
  by (rule acts_onI) (simp add: find_alloc split: option.splits)

end

lemma insert_or_find_slot [simp]: "snd (insert_or_find m pos) = slot_of pos"
  using insert_raw_slot[of m pos]
  by (cases "insert_raw m pos") (simp add: insert_or_find_def)

lemma insert_or_find_allocated: "allocated (fst (insert_or_find m pos)) (slot_of pos)"
  using insert_raw_allocated[of m pos] insert_raw_slot[of m pos]
  by (auto simp: insert_or_find_def split: prod.splits)

lemma insert_or_find_find:
  "find_tile (fst (insert_or_find m pos)) p =
     (if p = pos then Some (view_tile m pos) else find_tile m p)"
proof -
  obtain m' where raw: "insert_raw m pos = (m', slot_of pos)"
    using insert_raw_slot[of m pos] by (cases "insert_raw m pos") auto
  have a: "allocated m' (slot_of pos)" using insert_raw_allocated[of m pos] raw by simp
  have f: "find_tile m' q = find_tile m q" for q using insert_raw_find[of m pos q] raw by simp
  have "deref m' (slot_of pos) = find_tile m pos" using a f[of pos] by (simp add: find_tile_deref)
  then show ?thesis
    using a f by (auto simp: insert_or_find_def raw find_assign view_tile_def split: option.splits)
qed

interpretation level_store: slot_store find_tile insert_or_find deref assign default_tile
proof
  fix m k k' v
  show "find_tile (fst (insert_or_find m k)) k' =
      (if k' = k then Some (case find_tile m k of None \<Rightarrow> default_tile | Some v \<Rightarrow> v) else find_tile m k')"
    by (simp add: insert_or_find_find view_tile_def)
  show "deref (fst (insert_or_find m k)) (snd (insert_or_find m k)) = find_tile (fst (insert_or_find m k)) k"
    by (simp add: find_tile_deref insert_or_find_allocated)
  show "find_tile (assign (fst (insert_or_find m k)) (snd (insert_or_find m k)) v) k' =
      (if k' = k then v else find_tile m k')"
    by (simp add: find_assign insert_or_find_allocated insert_or_find_find)
qed

section \<open>Merging\<close>

text \<open>What merging a source map does to the view of the destination at a position.\<close>

definition merge_view :: "level_solid_map \<Rightarrow> int \<Rightarrow> int \<Rightarrow> tile_pos \<Rightarrow> tile_solid_info \<Rightarrow> tile_solid_info" where
  "merge_view src xo yo p t =
     (case find_tile src (fst p - xo, snd p - yo) of None \<Rightarrow> t | Some s \<Rightarrow> merge_tile t s)"

lemma view_tile_eq: "view_tile = (\<lambda>m p. case find_tile m p of None \<Rightarrow> default_tile | Some v \<Rightarrow> v)"
  by (intro ext) (simp add: view_tile_def)

lemma merge_cell_acts_on:
  assumes "find_tile src (fst pos - xo, snd pos - yo) = cell"
  shows "acts_on view_tile (merge_view src xo yo) (merge_cell pos cell) {pos}"
    and "acts_on view_tile (merge_view src xo yo) (merge_cell_checked pos cell) {pos}"
proof -
  have g: "merge_view src xo yo p t = (case cell of None \<Rightarrow> t | Some s \<Rightarrow> merge_tile t s)"
    if "p \<in> {pos}" for p t
    using that assms by (simp add: merge_view_def)
  have none: "acts_on view_tile (merge_view src xo yo) (\<lambda>m. fst (insert_or_find m pos)) {pos}" if "cell = None"
    unfolding view_tile_eq
    by (rule acts_on_cong[OF level_store.alloc_acts_on]) (use g that in simp)
  have some: "acts_on view_tile (merge_view src xo yo)
      (\<lambda>m. assign (fst (insert_or_find m pos)) (snd (insert_or_find m pos)) (map_option (\<lambda>d. merge_tile d s)
         (deref (fst (insert_or_find m pos)) (snd (insert_or_find m pos))))) {pos}" if "cell = Some s" for s
    unfolding view_tile_eq
    by (rule acts_on_cong[OF level_store.modify_acts_on]) (use g that in simp)
  have id: "acts_on view_tile (merge_view src xo yo) (\<lambda>m. m) {pos}" if "cell = None"
    by (rule acts_on_id) (use g that in simp)
  show "acts_on view_tile (merge_view src xo yo) (merge_cell pos cell) {pos}"
    using none some by (cases cell) (simp_all add: merge_cell_def[abs_def] case_prod_unfold)
  show "acts_on view_tile (merge_view src xo yo) (merge_cell_checked pos cell) {pos}"
    using id some by (cases cell) (simp_all add: merge_cell_checked_def[abs_def] case_prod_unfold)
qed

definition row_region :: "tile_row \<Rightarrow> int \<Rightarrow> int \<Rightarrow> tile_pos set" where
  "row_region r xo y = (\<Union>k<length (negative_cells r). {(- int k - 1 + xo, y)})
                     \<union> (\<Union>k<length (positive_cells r). {(int k + xo, y)})"

lemma row_acts_on:
  assumes "\<And>k. k < length (negative_cells r) \<Longrightarrow> acts_on view G (f k) {(- int k - 1 + xo, y)}"
    and "\<And>k. k < length (positive_cells r) \<Longrightarrow> acts_on view G (g k) {(int k + xo, y)}"
  shows "acts_on view G (\<lambda>m0. fold g [0..<length (positive_cells r)]
           (fold f [0..<length (negative_cells r)] m0)) (row_region r xo y)"
  unfolding row_region_def
  by (intro acts_on_comp acts_on_fold assms) auto

lemma row_region_disjoint: "y \<noteq> y' \<Longrightarrow> row_region r xo y \<inter> row_region r' xo y' = {}"
  by (auto simp: row_region_def)

definition map_region :: "level_solid_map \<Rightarrow> int \<Rightarrow> int \<Rightarrow> tile_pos set" where
  "map_region src xo yo =
     (\<Union>n<length (negative_rows src). row_region (negative_rows src ! n) xo (- int n - 1 + yo))
   \<union> (\<Union>n<length (positive_rows src). row_region (positive_rows src ! n) xo (int n + yo))"

lemma find_tile_cells:
  shows "n < length (negative_rows src) \<Longrightarrow> k < length (negative_cells (negative_rows src ! n)) \<Longrightarrow>
      find_tile src (- int k - 1, - int n - 1) = negative_cells (negative_rows src ! n) ! k"
    and "n < length (negative_rows src) \<Longrightarrow> k < length (positive_cells (negative_rows src ! n)) \<Longrightarrow>
      find_tile src (int k, - int n - 1) = positive_cells (negative_rows src ! n) ! k"
    and "n < length (positive_rows src) \<Longrightarrow> k < length (negative_cells (positive_rows src ! n)) \<Longrightarrow>
      find_tile src (- int k - 1, int n) = negative_cells (positive_rows src ! n) ! k"
    and "n < length (positive_rows src) \<Longrightarrow> k < length (positive_cells (positive_rows src ! n)) \<Longrightarrow>
      find_tile src (int k, int n) = positive_cells (positive_rows src ! n) ! k"
  by (simp_all add: find_tile_def quadrant_def rows_of_def cells_of_def)

lemma find_tile_region:
  assumes "find_tile src (fst p - xo, snd p - yo) \<noteq> None"
  shows "p \<in> map_region src xo yo"
proof -
  obtain x y where p: "p = (x, y)" by (cases p)
  obtain rb ri where q: "quadrant (y - yo) = (rb, ri)" by (cases "quadrant (y - yo)")
  obtain cb ci where c: "quadrant (x - xo) = (cb, ci)" by (cases "quadrant (x - xo)")
  have in_range: "ri < length (rows_of rb src)" "ci < length (cells_of cb (rows_of rb src ! ri))"
    using assms by (auto simp: p find_tile_def q c Let_def split: if_splits)
  have y: "y = (if rb then int ri + yo else - int ri - 1 + yo)"
    using q by (auto simp: quadrant_def split: if_splits)
  have x: "x = (if cb then int ci + xo else - int ci - 1 + xo)"
    using c by (auto simp: quadrant_def split: if_splits)
  have "p \<in> row_region (rows_of rb src ! ri) xo y"
    using in_range(2) by (auto simp: p x row_region_def cells_of_def split: if_splits)
  then show ?thesis
    using in_range(1) by (auto simp: map_region_def y rows_of_def split: if_splits)
qed

lemma merge_map_acts_on:
  "acts_on view_tile (merge_view src xo yo) (\<lambda>m. merge_map m src xo yo) (map_region src xo yo)"
proof -
  let ?G = "merge_view src xo yo"
  have neg: "acts_on view_tile ?G (\<lambda>m0. fold (\<lambda>k. merge_cell (int k + xo, - int n - 1 + yo)
        (positive_cells (negative_rows src ! n) ! k)) [0..<length (positive_cells (negative_rows src ! n))]
      (fold (\<lambda>k. merge_cell (- int k - 1 + xo, - int n - 1 + yo) (negative_cells (negative_rows src ! n) ! k))
         [0..<length (negative_cells (negative_rows src ! n))] m0))
      (row_region (negative_rows src ! n) xo (- int n - 1 + yo))" if "n < length (negative_rows src)" for n
    by (rule row_acts_on) (use that in \<open>auto intro!: merge_cell_acts_on simp: find_tile_cells\<close>)
  have pos: "acts_on view_tile ?G (\<lambda>m0. fold (\<lambda>k. merge_cell_checked (int k + xo, int n + yo)
        (positive_cells (positive_rows src ! n) ! k)) [0..<length (positive_cells (positive_rows src ! n))]
      (fold (\<lambda>k. merge_cell (- int k - 1 + xo, int n + yo) (negative_cells (positive_rows src ! n) ! k))
         [0..<length (negative_cells (positive_rows src ! n))] m0))
      (row_region (positive_rows src ! n) xo (int n + yo))" if "n < length (positive_rows src)" for n
    by (rule row_acts_on) (use that in \<open>auto intro!: merge_cell_acts_on simp: find_tile_cells\<close>)
  have sep: "(\<Union>n<length (negative_rows src). row_region (negative_rows src ! n) xo (- int n - 1 + yo))
      \<inter> (\<Union>n<length (positive_rows src). row_region (positive_rows src ! n) xo (int n + yo)) = {}"
    by (auto simp: row_region_def)
  show ?thesis
    unfolding merge_map_def map_region_def Let_def
    by (rule acts_on_comp[OF acts_on_fold acts_on_fold sep])
       (use neg pos row_region_disjoint in \<open>auto simp: comp_def\<close>)
qed

text \<open>Merging, seen through the view: the pointwise merge with the shifted source.\<close>

lemma view_merge_map:
  "view_tile (merge_map m src xo yo) p = merge_view src xo yo p (view_tile m p)"
proof (cases "p \<in> map_region src xo yo")
  case True
  then show ?thesis using acts_onD[OF merge_map_acts_on] by metis
next
  case False
  then have "find_tile src (fst p - xo, snd p - yo) = None" using find_tile_region by blast
  then show ?thesis using False acts_onD[OF merge_map_acts_on] by (simp add: merge_view_def)
qed

section \<open>Properties\<close>

lemma tile_solid_default [simp]: "\<not> tile_solid default_tile i"
  by (simp add: tile_solid_def default_tile_def)

lemma tile_solid_merge:
  assumes "i < 1024"
  shows "tile_solid (merge_tile t s) i \<longleftrightarrow> tile_solid t i \<or> tile_solid s i"
  by (auto simp: tile_solid_def merge_tile_def Let_def bit_or_iff)


text \<open>C27: erasing a position removes its cell and no other, in each of the four quadrants, and
  clearing the map, like copying it, leaves no cell at all.\<close>

theorem erase_refines:
  "find_tile (erase_tile m pos) = (find_tile m)(pos := None)
   \<and> find_tile (clear_map m) = Map.empty \<and> find_tile (copy_construct m) = Map.empty"
proof (intro conjI ext)
  fix p
  have "find_tile (assign (fst (insert_raw m pos)) (slot_of pos) None) p = ((find_tile m)(pos := None)) p"
    by (simp add: find_assign insert_raw_allocated)
  then show "find_tile (erase_tile m pos) p = ((find_tile m)(pos := None)) p"
    using insert_raw_slot[of m pos] by (cases "insert_raw m pos") (simp add: erase_tile_def)
qed (simp_all add: find_tile_def clear_map_def copy_construct_def empty_map_def rows_of_def split: prod.splits)

text \<open>C12: merging a map at an offset gives, at every position, the merge of what both maps hold
  there (an unset tile counting as a default one); the four loops over the quadrants, which create
  cells as they go, visit every cell of the source exactly once.\<close>

theorem merge_map_pointwise:
  "view_tile (merge_map m src xo yo) p =
     (case find_tile src (fst p - xo, snd p - yo) of
        None \<Rightarrow> view_tile m p
      | Some s \<Rightarrow> merge_tile (view_tile m p) s)"
  by (simp add: view_merge_map merge_view_def)



end
