(* ===== verification/CT_String_Utils.thy ===== *)
theory CT_String_Utils
  imports CT_CLib
begin

text \<open>
  \<open>src/string_utils.cpp\<close>: stripping, splitting and joining strings, and lists of integers as
  text. A pair of iterators into a string is the text between them; a \<open>const char*\<close> is the suffix
  it points at, without the terminator.
\<close>

section \<open>Character classes\<close>

definition c_isnewline :: "char \<Rightarrow> bool" where
  "c_isnewline c \<longleftrightarrow> c = CR \<or> c = NL"

definition portable_isspace :: "char \<Rightarrow> bool" where
  "portable_isspace c \<longleftrightarrow> c_isnewline c \<or> isspace c"

definition notspace :: "char \<Rightarrow> bool" where
  "notspace c \<longleftrightarrow> \<not> portable_isspace c"

section \<open>Stripping\<close>

text \<open>\<open>find_if\<close> from the front and, over the reversed string, from the back.\<close>

definition strip :: "string \<Rightarrow> string" where
  "strip str =
     (let s1 = dropWhile (\<lambda>c. \<not> notspace c) str
      in rev (dropWhile (\<lambda>c. \<not> notspace c) (rev s1)))"

section \<open>Splitting at a string\<close>

fun starts_at :: "string \<Rightarrow> string \<Rightarrow> bool" where
  "starts_at [] s = True"
| "starts_at (d # ds) [] = False"
| "starts_at (d # ds) (c # cs) = (d = c \<and> starts_at ds cs)"

text \<open>\<open>strstr\<close>: what precedes the first occurrence, and the suffix that starts with it.\<close>

fun strstr :: "string \<Rightarrow> string \<Rightarrow> (string \<times> string) option" where
  "strstr d [] = (if d = [] then Some ([], []) else None)"
| "strstr d (c # cs) = (if starts_at d (c # cs) then Some ([], c # cs)
     else case strstr d cs of None \<Rightarrow> None | Some (pre, rest) \<Rightarrow> Some (c # pre, rest))"

lemma starts_at_append: "starts_at d s \<Longrightarrow> s = d @ drop (length d) s"
  by (induction d s rule: starts_at.induct) auto

lemma strstr_Some: "strstr d s = Some (pre, rest) \<Longrightarrow> s = pre @ rest \<and> starts_at d rest"
  by (induction s arbitrary: pre rest) (auto split: if_splits option.splits)

text \<open>The loop of \<open>split(val, delim)\<close> for a non-empty delimiter.\<close>

function split_at_loop :: "string \<Rightarrow> string \<Rightarrow> string list" where
  "split_at_loop d ptr =
     (if d = [] then [ptr]
      else case strstr d ptr of
             None \<Rightarrow> [ptr]
           | Some (pre, rest) \<Rightarrow> pre # split_at_loop d (drop (length d) rest))"
  by pat_completeness auto
termination
proof (relation "measure (\<lambda>(d, ptr). length ptr)")
  fix d ptr :: string and x pre rest
  assume a: "d \<noteq> []" "strstr d ptr = Some x" "(pre, rest) = x"
  then have "ptr = pre @ rest" "starts_at d rest" using strstr_Some[of d ptr pre rest] by auto
  moreover from this(2) a(1) have "rest \<noteq> []" by (cases d; cases rest) auto
  ultimately show "((d, drop (length d) rest), (d, ptr)) \<in> measure (\<lambda>(d, ptr). length ptr)"
    using a(1) by (cases rest; cases d) auto
qed simp

declare split_at_loop.simps [simp del]

definition split_string :: "string \<Rightarrow> string \<Rightarrow> string list" where
  "split_string val delim =
     (if delim = [] then map (\<lambda>c. [c]) val else split_at_loop (c_str delim) (c_str val))"

section \<open>Splitting at a character\<close>

record split_flags =
  REMOVE_EMPTY :: bool
  STRIP_SPACES :: bool

definition default_flags :: split_flags where
  "default_flags = \<lparr>REMOVE_EMPTY = True, STRIP_SPACES = True\<rparr>"

definition push_token :: "split_flags \<Rightarrow> string \<Rightarrow> string list" where
  "push_token flags tok =
     (let new_val = (if STRIP_SPACES flags then strip tok else tok)
      in if \<not> REMOVE_EMPTY flags \<or> new_val \<noteq> [] then [new_val] else [])"

text \<open>\<open>tok\<close> is the text between \<open>i1\<close> and \<open>i2\<close>.\<close>

function split_loop :: "char \<Rightarrow> split_flags \<Rightarrow> string \<Rightarrow> string \<Rightarrow> string list" where
  "split_loop c flags tok [] = push_token flags tok"
| "split_loop c flags tok (x # xs) =
     (if x = c
      then push_token flags tok @
           split_loop c flags [] (if STRIP_SPACES flags then dropWhile (\<lambda>y. y = CHR '' '') xs else xs)
      else split_loop c flags (tok @ [x]) xs)"
  by pat_completeness auto
termination
  by (relation "measure (\<lambda>(c, flags, tok, xs). length xs)") (auto simp: le_imp_less_Suc length_dropWhile_le)

definition split_char :: "string \<Rightarrow> char \<Rightarrow> split_flags \<Rightarrow> string list" where
  "split_char val c flags = split_loop c flags [] val"

fun join_char :: "string list \<Rightarrow> char \<Rightarrow> string" where
  "join_char [] j = []"
| "join_char [v] j = v"
| "join_char (v # w # vs) j = v @ j # join_char (w # vs) j"

section \<open>Lists of integers\<close>

text \<open>
  \<open>split_into_ints\<close> with an output array of \<open>cap\<close> elements: the elements stored, the number of
  integers found and the returned pointer. \<open>int result = strtol(...)\<close> keeps the low 32 bits.
\<close>

lemma strtol_shorter:
  "strtol s = (v, r) \<Longrightarrow> r \<noteq> s \<Longrightarrow> length r < length s"
proof -
  assume a: "strtol s = (v, r)" "r \<noteq> s"
  define t where "t = dropWhile isspace s"
  define u where "u = (if t \<noteq> [] \<and> (hd t = CHR ''-'' \<or> hd t = CHR ''+'') then tl t else t)"
  have l: "length u \<le> length s"
    using length_dropWhile_le[of isspace s] by (auto simp: u_def t_def)
  have ne: "u \<noteq> [] \<and> isdigit (hd u)" and r: "r = snd (scan_digits 0 u)"
    using a by (auto simp: strtol_def Let_def t_def u_def split: if_splits prod.splits)
  have "length (snd (scan_digits a v)) \<le> length v" for a v
    by (induction a v rule: scan_digits.induct) auto
  then have "length (snd (scan_digits 0 u)) < length u" using ne by (cases u) (auto simp: le_imp_less_Suc)
  then show ?thesis using l r by simp
qed

function split_ints_loop :: "nat \<Rightarrow> string \<Rightarrow> int list \<Rightarrow> nat \<Rightarrow> int list \<times> nat \<times> string" where
  "split_ints_loop cap s out index =
     (case strtol s of (v, endptr) \<Rightarrow>
        if endptr = s then (out, index, endptr)
        else let out' = (if index < cap then out @ [wrap32 v] else out)
             in (case endptr of
                   [] \<Rightarrow> (out', index + 1, endptr)
                 | e # s' \<Rightarrow> if e \<noteq> CHR '','' then (out', index + 1, endptr)
                            else split_ints_loop cap s' out' (index + 1)))"
  by pat_completeness auto
termination
  by (relation "measure (\<lambda>(cap, s, out, index). length s)") (auto dest!: strtol_shorter[OF sym])

declare split_ints_loop.simps [simp del]

definition split_into_ints :: "nat \<Rightarrow> string \<Rightarrow> int list \<times> nat \<times> string" where
  "split_into_ints cap s = split_ints_loop cap s [] 0"

definition split_into_vector_int :: "string \<Rightarrow> int list" where
  "split_into_vector_int s = map (\<lambda>v. atoi (c_str v)) (split_char s (CHR '','') default_flags)"

definition join_ints :: "int list \<Rightarrow> string" where
  "join_ints ints = join_char (map show_int ints) (CHR '','')"

section \<open>Prefixes\<close>

definition string_starts_with :: "string \<Rightarrow> string \<Rightarrow> bool" where
  "string_starts_with target prefix =
     (if length target < length prefix then False else take (length prefix) target = prefix)"

definition strip_string_prefix :: "string \<Rightarrow> string \<Rightarrow> string" where
  "strip_string_prefix target prefix =
     (if length target < length prefix then [] else drop (length prefix) target)"

section \<open>Helper lemmas\<close>

text \<open>A string that stripping leaves alone.\<close>

definition stripped :: "string \<Rightarrow> bool" where
  "stripped s \<longleftrightarrow> s = [] \<or> notspace (hd s) \<and> notspace (last s)"

lemma dropWhile_hd: "dropWhile P xs = [] \<or> \<not> P (hd (dropWhile P xs))"
  by (induction xs) auto

lemma strip_id: "stripped s \<Longrightarrow> strip s = s"
proof (cases "s = []")
  case False
  assume "stripped s"
  then have h: "notspace (hd s)" "notspace (hd (rev s))" using False by (simp_all add: stripped_def hd_rev)
  then have "dropWhile (\<lambda>c. \<not> notspace c) s = s" by (cases s) auto
  moreover have "dropWhile (\<lambda>c. \<not> notspace c) (rev s) = rev s" using h(2) False by (cases "rev s") auto
  ultimately show ?thesis by (simp add: strip_def)
qed (simp add: strip_def)

lemma split_loop_prefix:
  "c \<notin> set xs \<Longrightarrow> split_loop c flags tok (xs @ ys) = split_loop c flags (tok @ xs) ys"
  by (induction xs arbitrary: tok) auto

lemma split_loop_join:
  assumes "vs \<noteq> []" and "\<forall>v \<in> set vs. c \<notin> set v"
    and "STRIP_SPACES flags \<longrightarrow> (\<forall>v \<in> set vs. v = [] \<or> hd v \<noteq> CHR '' '') \<and> c \<noteq> CHR '' ''"
  shows "split_loop c flags [] (join_char vs c) = concat (map (push_token flags) vs)"
  using assms
proof (induction vs c rule: join_char.induct)
  case (2 v j)
  then show ?case using split_loop_prefix[of j v flags "[]" "[]"] by simp
next
  case (3 v w vs j)
  have head: "STRIP_SPACES flags \<longrightarrow> join_char (w # vs) j = [] \<or> hd (join_char (w # vs) j) \<noteq> CHR '' ''"
    using 3(4) by (cases w; cases vs) auto
  have d: "STRIP_SPACES flags \<longrightarrow> dropWhile (\<lambda>y. y = CHR '' '') (join_char (w # vs) j) = join_char (w # vs) j"
    using head by (cases "join_char (w # vs) j") auto
  have "split_loop j flags [] (join_char (v # w # vs) j)
      = split_loop j flags v (j # join_char (w # vs) j)"
    using 3(3) split_loop_prefix[of j v flags "[]" "j # join_char (w # vs) j"] by simp
  also have "\<dots> = push_token flags v @ split_loop j flags [] (join_char (w # vs) j)"
    using d by simp
  finally show ?case using 3 by simp
qed simp

lemma show_int_chars: "c \<in> set (show_int i) \<Longrightarrow> isdigit c \<or> c = CHR ''-''"
  using show_nat_digits by (auto simp: show_int_def split: if_splits)

lemma show_int_no_comma [simp]: "CHR '','' \<notin> set (show_int i)" "NUL \<notin> set (show_int i)"
  using show_int_chars[of "CHR '',''" i] show_int_chars[of NUL i] by (auto simp: char_class_defs)

lemma notspace_show_int: "c \<in> set (show_int i) \<Longrightarrow> notspace c"
  using show_int_chars[of c i]
  by (auto simp: notspace_def portable_isspace_def c_isnewline_def char_class_defs)

lemma stripped_show_int [simp]: "stripped (show_int i)"
  by (simp add: stripped_def notspace_show_int[OF hd_in_set] notspace_show_int[OF last_in_set])

lemma i32_i64: "i32 i \<Longrightarrow> i64 i"
  by (simp add: i32_def i64_def)

lemma atoi_show_int [simp]: "i32 i \<Longrightarrow> atoi (show_int i) = i"
  using strtol_show_int[of i "[]"] by (simp add: atoi_def i32_i64)

lemma join_char_Cons: "vs \<noteq> [] \<Longrightarrow> join_char (v # vs) j = v @ j # join_char vs j"
  by (cases vs) auto

lemma split_ints_step:
  assumes "i32 i" and "rest = [] \<or> \<not> isdigit (hd rest)"
  shows "split_ints_loop cap (show_int i @ rest) out index =
    (let out' = (if index < cap then out @ [i] else out)
     in if rest \<noteq> [] \<and> hd rest = CHR '','' then split_ints_loop cap (tl rest) out' (index + 1)
        else (out', index + 1, rest))"
  using strtol_show_int[OF i32_i64[OF assms(1)] assms(2)] assms(1)
  by (subst split_ints_loop.simps) (auto simp: Let_def split: list.splits)

lemma split_ints_join:
  assumes "is \<noteq> []" and "\<forall>i \<in> set is. i32 i" and "rest = [] \<or> \<not> isdigit (hd rest) \<and> hd rest \<noteq> CHR '',''"
    and "length out = min index cap"
  shows "split_ints_loop cap (join_ints is @ rest) out index =
    (out @ take (cap - index) is, index + length is, rest)"
  using assms
proof (induction "is" arbitrary: out index)
  case (Cons i "is")
  show ?case
  proof (cases "is = []")
    case True
    have "split_ints_loop cap (show_int i @ rest) out index =
        ((if index < cap then out @ [i] else out), index + 1, rest)"
      using Cons.prems by (subst split_ints_step) (auto simp: Let_def)
    then show ?thesis using True by (simp add: join_ints_def)
  next
    case False
    let ?out = "if index < cap then out @ [i] else out"
    have j: "join_ints (i # is) @ rest = show_int i @ (CHR '','' # join_ints is @ rest)"
      using False by (simp add: join_ints_def join_char_Cons)
    have "split_ints_loop cap (join_ints (i # is) @ rest) out index
        = split_ints_loop cap (join_ints is @ rest) ?out (index + 1)"
      unfolding j using Cons.prems by (subst split_ints_step) (auto simp: Let_def char_class_defs)
    also have "\<dots> = (?out @ take (cap - (index + 1)) is, index + 1 + length is, rest)"
      using Cons.prems False by (intro Cons.IH) auto
    finally show ?thesis using Cons.prems
      by (cases "index < cap") (auto simp: take_Cons' Suc_diff_Suc)
  qed
qed simp

text \<open>Joining non-empty stripped items with a separator none of them contains, and splitting the
  result with the default flags, gives the items back.\<close>

lemma split_join:
  assumes "\<forall>v \<in> set vs. v \<noteq> [] \<and> stripped v \<and> c \<notin> set v" and "c \<noteq> CHR '' ''"
  shows "split_char (join_char vs c) c default_flags = vs"
proof (cases "vs = []")
  case True
  then show ?thesis by (simp add: split_char_def push_token_def default_flags_def strip_def)
next
  case False
  have "concat (map (push_token default_flags) vs) = vs"
    using assms(1) by (induction vs) (auto simp: push_token_def default_flags_def strip_id)
  moreover have "\<forall>v \<in> set vs. hd v \<noteq> CHR '' ''"
    using assms(1) by (auto simp: stripped_def notspace_def portable_isspace_def isspace_def)
  ultimately show ?thesis
    using split_loop_join[OF False, of c default_flags] assms by (simp add: split_char_def)
qed

section \<open>Properties\<close>

text \<open>C40: \<open>split_into_ints\<close> reads back what \<open>join_ints\<close> wrote, up to the first character that does not
  continue the list: it stores as many values as the array holds, reports how many there were, and
  returns the rest of the text.\<close>

theorem split_into_ints_join:
  assumes "is \<noteq> []" and "\<forall>i \<in> set is. i32 i" and "rest = [] \<or> \<not> isdigit (hd rest) \<and> hd rest \<noteq> CHR '',''"
  shows "split_into_ints cap (join_ints is @ rest) = (take cap is, length is, rest)"
  using split_ints_join[OF assms, of "[]" 0 cap] by (simp add: split_into_ints_def)

lemma split_into_ints_join_witness:
  "split_into_ints 1 (join_ints [4, -18] @ ''x'') = ([4], 2, ''x'')"
  using split_into_ints_join[of "[4, -18]" "''x''" 1] by (simp add: i32_def char_class_defs)

text \<open>Splitting at a string loses nothing: the pieces joined by the delimiter are the text again.\<close>

lemma split_string_concat:
  assumes "delim \<noteq> []" and "NUL \<notin> set delim" and "NUL \<notin> set val"
  shows "\<exists>p ps. split_string val delim = p # ps \<and> val = p @ concat (map (\<lambda>q. delim @ q) ps)"
proof -
  have "\<exists>p ps. split_at_loop delim s = p # ps \<and> s = p @ concat (map (\<lambda>q. delim @ q) ps)" for s
  proof (induction delim s rule: split_at_loop.induct)
    case (1 d ptr)
    show ?case
    proof (cases "d = [] \<or> strstr d ptr = None")
      case True
      then show ?thesis by (subst split_at_loop.simps) auto
    next
      case False
      then obtain pre rest where s: "d \<noteq> []" "strstr d ptr = Some (pre, rest)" by auto
      then have e: "ptr = pre @ d @ drop (length d) rest"
        using strstr_Some[OF s(2)] starts_at_append[of d rest] by simp
      have "split_at_loop d ptr = pre # split_at_loop d (drop (length d) rest)"
        using s by (subst split_at_loop.simps) simp
      moreover obtain p ps where "split_at_loop d (drop (length d) rest) = p # ps"
          "drop (length d) rest = p @ concat (map (\<lambda>q. d @ q) ps)"
        using "1.IH"[OF s(1,2) refl] by auto
      ultimately show ?thesis using e by auto
    qed
  qed
  then show ?thesis using assms by (simp add: split_string_def c_str_id)
qed

text \<open>C39: A list of 32-bit integers printed by \<open>join_ints\<close> is read back by
  \<open>split_into_vector_int\<close>, the empty list included.\<close>

theorem split_into_vector_int_join:
  assumes "\<forall>i \<in> set is. i32 i"
  shows "split_into_vector_int (join_ints is) = is"
proof -
  have "split_char (join_ints is) (CHR '','') default_flags = map show_int is"
    unfolding join_ints_def by (rule split_join) auto
  then show ?thesis using assms by (simp add: split_into_vector_int_def c_str_id map_idI)
qed

lemma split_into_vector_int_join_witness: "split_into_vector_int (join_ints [4, -18, 245]) = [4, -18, 245]"
  by (rule split_into_vector_int_join) (simp add: i32_def)

end
