(* ===== verification/CT_Geometry.thy ===== *)
theory CT_Geometry
  imports CT_String_Utils
begin

text \<open>
  \<open>src/geometry.hpp\<close> and \<open>src/geometry.cpp\<close>: points and half-open rectangles. Coordinates are
  integers; \<open>fits\<close> says that a rectangle's corners and extents are \<open>int\<close> values, and
  \<open>rect_difference_fits\<close> and its companions that the results of such rectangles are too. Reading
  from and writing to \<open>variant\<close> lists is modelled as lists of integers.
\<close>

section \<open>Points\<close>

datatype point = Point (px: int) (py: int)

definition point_of_string :: "string \<Rightarrow> point" where
  "point_of_string str = (case split_into_ints 2 (c_str str) of (buf, buf_size, _) \<Rightarrow>
     if buf_size \<noteq> 2 then Point 0 0 else Point (buf ! 0) (buf ! 1))"

definition point_of_list :: "int list \<Rightarrow> point" where
  "point_of_list v = (if v = [] then Point 0 0
     else if length v = 1 then Point (v ! 0) 0 else Point (v ! 0) (v ! 1))"

definition point_write :: "point \<Rightarrow> int list" where
  "point_write p = [px p, py p]"

definition point_to_string :: "point \<Rightarrow> string" where
  "point_to_string p = show_int (px p) @ '','' @ show_int (py p)"

lemma point_eq_iff: "a = b \<longleftrightarrow> px a = px b \<and> py a = py b"
  by (auto intro: point.expand)

definition point_less :: "point \<Rightarrow> point \<Rightarrow> bool" where
  "point_less a b \<longleftrightarrow> px a < px b \<or> px a = px b \<and> py a < py b"

instantiation point :: linorder
begin

definition less_point :: "point \<Rightarrow> point \<Rightarrow> bool" where
  "less_point = point_less"

definition less_eq_point :: "point \<Rightarrow> point \<Rightarrow> bool" where
  "less_eq_point a b \<longleftrightarrow> a < b \<or> a = (b :: point)"

instance
  by standard (auto simp: less_point_def point_less_def less_eq_point_def point_eq_iff)

end

section \<open>Rectangles\<close>

record rect =
  top_left :: point
  bottom_right :: point

definition rx :: "rect \<Rightarrow> int" where [geom_defs]: "rx r = px (top_left r)"
definition ry :: "rect \<Rightarrow> int" where [geom_defs]: "ry r = py (top_left r)"
definition rx2 :: "rect \<Rightarrow> int" where [geom_defs]: "rx2 r = px (bottom_right r)"
definition ry2 :: "rect \<Rightarrow> int" where [geom_defs]: "ry2 r = py (bottom_right r)"
definition rw :: "rect \<Rightarrow> int" where [geom_defs]: "rw r = px (bottom_right r) - px (top_left r)"
definition rh :: "rect \<Rightarrow> int" where [geom_defs]: "rh r = py (bottom_right r) - py (top_left r)"

definition mk_rect :: "int \<Rightarrow> int \<Rightarrow> int \<Rightarrow> int \<Rightarrow> rect" where
  "mk_rect x y w h = \<lparr>top_left = Point (min x (x + w)) (min y (y + h)),
                      bottom_right = Point (max x (x + w)) (max y (y + h))\<rparr>"

definition mid_x :: "rect \<Rightarrow> int" where "mid_x r = (rx r + rx2 r) sdiv 2"
definition mid_y :: "rect \<Rightarrow> int" where "mid_y r = (ry r + ry2 r) sdiv 2"
definition rect_empty :: "rect \<Rightarrow> bool" where "rect_empty r \<longleftrightarrow> rw r = 0 \<or> rh r = 0"

definition from_coordinates :: "int \<Rightarrow> int \<Rightarrow> int \<Rightarrow> int \<Rightarrow> rect" where
  "from_coordinates x1 y1 x2 y2 =
     (let (x1, x2) = (if x1 > x2 + 1 then (x2, x1) else (x1, x2));
          (y1, y2) = (if y1 > y2 + 1 then (y2, y1) else (y1, y2))
      in mk_rect x1 y1 ((x2 - x1) + 1) ((y2 - y1) + 1))"

definition rect_of_string :: "string \<Rightarrow> rect" where
  "rect_of_string str =
     (if str = [] then mk_rect 0 0 0 0
      else case split_into_ints 4 (c_str str) of (items, num_items, _) \<Rightarrow>
        if num_items = 2 then from_coordinates (items ! 0) (items ! 1) 1 1
        else if num_items = 3 then from_coordinates (items ! 0) (items ! 1) (items ! 2) 1
        else if num_items = 4 then from_coordinates (items ! 0) (items ! 1) (items ! 2) (items ! 3)
        else mk_rect 0 0 0 0)"

definition rect_of_list :: "int list \<Rightarrow> rect" where
  "rect_of_list v =
     (if length v = 2 then from_coordinates (v ! 0) (v ! 1) (v ! 0) (v ! 1)
      else if length v = 3 then from_coordinates (v ! 0) (v ! 1) (v ! 2) (v ! 1)
      else if length v = 4 then from_coordinates (v ! 0) (v ! 1) (v ! 2) (v ! 3)
      else mk_rect 0 0 0 0)"

definition rect_write :: "rect \<Rightarrow> int list" where
  "rect_write r = [rx r, ry r, rx2 r - 1, ry2 r - 1]"

definition rect_to_string :: "rect \<Rightarrow> string" where
  "rect_to_string r = show_int (rx r) @ '','' @ show_int (ry r) @ '',''
     @ show_int (rx2 r - 1) @ '','' @ show_int (ry2 r - 1)"

definition rect_eq :: "rect \<Rightarrow> rect \<Rightarrow> bool" where
  "rect_eq a b \<longleftrightarrow> rx a = rx b \<and> ry a = ry b \<and> rw a = rw b \<and> rh a = rh b"

section \<open>Set operations\<close>

definition point_in_rect :: "point \<Rightarrow> rect \<Rightarrow> bool" where
  "point_in_rect p r \<longleftrightarrow> px p \<ge> rx r \<and> py p \<ge> ry r \<and> px p < rx2 r \<and> py p < ry2 r"

definition rects_intersect :: "rect \<Rightarrow> rect \<Rightarrow> bool" where
  "rects_intersect a b =
     (if rx2 a \<le> rx b \<or> rx2 b \<le> rx a then False
      else if ry2 a \<le> ry b \<or> ry2 b \<le> ry a then False
      else if rw a = 0 \<or> rh a = 0 \<or> rw b = 0 \<or> rh b = 0 then False
      else True)"

definition intersection_rect :: "rect \<Rightarrow> rect \<Rightarrow> rect" where
  "intersection_rect a b =
     (let x = max (rx a) (rx b); y = max (ry a) (ry b);
          w = max 0 (min (rx2 a) (rx2 b) - x); h = max 0 (min (ry2 a) (ry2 b) - y)
      in mk_rect x y w h)"

text \<open>\<open>-1\<close> without an intersection, otherwise the rectangles written to the output.\<close>

definition rect_difference :: "rect \<Rightarrow> rect \<Rightarrow> rect list option" where
  "rect_difference a b =
     (if \<not> rects_intersect a b then None
      else let xl = max (rx a) (rx b); xr = min (rx a + rw a) (rx b + rw b) in Some (
        (if rx a < rx b then [mk_rect (rx a) (ry a) (rx b - rx a) (rh a)] else []) @
        (if rx a + rw a > rx b + rw b
         then [mk_rect (rx b + rw b) (ry a) ((rx a + rw a) - (rx b + rw b)) (rh a)] else []) @
        (if ry a < ry b then [mk_rect xl (ry a) (xr - xl) (ry b - ry a)] else []) @
        (if ry a + rh a > ry b + rh b
         then [mk_rect xl (ry b + rh b) (xr - xl) ((ry a + rh a) - (ry b + rh b))] else [])))"

definition rect_union :: "rect \<Rightarrow> rect \<Rightarrow> rect" where
  "rect_union a b =
     (if rw a = 0 \<or> rh a = 0 then b
      else if rw b = 0 \<or> rh b = 0 then a
      else let x = min (rx a) (rx b); y = min (ry a) (ry b);
               xr = max (rx2 a) (rx2 b); yr = max (ry2 a) (ry2 b)
           in mk_rect x y (xr - x) (yr - y))"

section \<open>Lemmas\<close>

definition wf_rect :: "rect \<Rightarrow> bool" where
  "wf_rect r \<longleftrightarrow> rx r \<le> rx2 r \<and> ry r \<le> ry2 r"

definition fits :: "rect \<Rightarrow> bool" where
  "fits r \<longleftrightarrow> wf_rect r \<and> i32 (rx r) \<and> i32 (ry r) \<and> i32 (rx2 r) \<and> i32 (ry2 r) \<and> i32 (rw r) \<and> i32 (rh r)"

lemma rect_dims [simp]: "rx r + rw r = rx2 r" "ry r + rh r = ry2 r"
  by (simp_all add: geom_defs)

lemma rw_eq: "rw r = rx2 r - rx r" "rh r = ry2 r - ry r"
  by (simp_all add: geom_defs)

lemma mk_rect_sel [simp]:
  "rx (mk_rect x y w h) = min x (x + w)" "ry (mk_rect x y w h) = min y (y + h)"
  "rx2 (mk_rect x y w h) = max x (x + w)" "ry2 (mk_rect x y w h) = max y (y + h)"
  by (simp_all add: mk_rect_def geom_defs)

text \<open>Every constructor gives an ordered rectangle.\<close>

lemma wf_mk_rect [simp, intro]: "wf_rect (mk_rect x y w h)"
  by (auto simp: wf_rect_def)

lemma wf_from_coordinates [simp, intro]: "wf_rect (from_coordinates a b c d)"
  by (auto simp: from_coordinates_def Let_def split: prod.splits)

lemma rect_eqI: "rx a = rx b \<Longrightarrow> ry a = ry b \<Longrightarrow> rx2 a = rx2 b \<Longrightarrow> ry2 a = ry2 b \<Longrightarrow> a = (b :: rect)"
  by (cases a; cases b) (auto simp: geom_defs point.expand)

lemma rect_eq_iff: "rect_eq a b \<longleftrightarrow> a = b"
  by (auto simp: rect_eq_def rw_eq intro: rect_eqI)

lemma from_coordinates_of_rect:
  "wf_rect r \<Longrightarrow> from_coordinates (rx r) (ry r) (rx2 r - 1) (ry2 r - 1) = r"
  by (rule rect_eqI) (auto simp: from_coordinates_def wf_rect_def Let_def)

lemma mem_mk_rect: "0 \<le> w \<Longrightarrow> 0 \<le> h \<Longrightarrow> point_in_rect p (mk_rect x y w h) \<longleftrightarrow>
    x \<le> px p \<and> px p < x + w \<and> y \<le> py p \<and> py p < y + h"
  by (auto simp: point_in_rect_def)

lemma rects_intersect_iff:
  assumes "wf_rect a" and "wf_rect b"
  shows "rects_intersect a b \<longleftrightarrow> (\<exists>p. point_in_rect p a \<and> point_in_rect p b)"
proof
  assume "rects_intersect a b"
  then have "point_in_rect (Point (max (rx a) (rx b)) (max (ry a) (ry b))) a \<and>
      point_in_rect (Point (max (rx a) (rx b)) (max (ry a) (ry b))) b"
    using assms by (auto simp: rects_intersect_def point_in_rect_def wf_rect_def rw_eq split: if_splits)
  then show "\<exists>p. point_in_rect p a \<and> point_in_rect p b" by blast
qed (use assms in \<open>auto simp: rects_intersect_def point_in_rect_def wf_rect_def rw_eq\<close>)

lemma rect_union_sel:
  assumes "wf_rect a" and "wf_rect b" and "\<not> rect_empty a" and "\<not> rect_empty b"
  shows "rx (rect_union a b) = min (rx a) (rx b)" "ry (rect_union a b) = min (ry a) (ry b)"
    "rx2 (rect_union a b) = max (rx2 a) (rx2 b)" "ry2 (rect_union a b) = max (ry2 a) (ry2 b)"
  using assms by (auto simp: rect_union_def rect_empty_def wf_rect_def Let_def rw_eq min_def max_def)

lemma rect_difference_fits:
  assumes "fits a" and "fits b" and "rect_difference a b = Some rs" and "r \<in> set rs"
  shows "fits r"
  using assms
  by (auto simp: rect_difference_def rects_intersect_def fits_def wf_rect_def rw_eq i32_def Let_def split: if_splits)

section \<open>Properties\<close>

lemma rect_difference_cases:
  assumes "wf_rect a" and "wf_rect b" and "rect_difference a b = Some rs"
  shows "rs =
      (if rx a < rx b then [mk_rect (rx a) (ry a) (rx b - rx a) (rh a)] else []) @
      (if rx2 a > rx2 b then [mk_rect (rx2 b) (ry a) (rx2 a - rx2 b) (rh a)] else []) @
      (if ry a < ry b then [mk_rect (max (rx a) (rx b)) (ry a)
         (min (rx2 a) (rx2 b) - max (rx a) (rx b)) (ry b - ry a)] else []) @
      (if ry2 a > ry2 b then [mk_rect (max (rx a) (rx b)) (ry2 b)
         (min (rx2 a) (rx2 b) - max (rx a) (rx b)) (ry2 a - ry2 b)] else [])"
    and "rx b < rx2 a" "rx a < rx2 b" "ry b < ry2 a" "ry a < ry2 b"
    and "rx a < rx2 a" "ry a < ry2 a" "rx b < rx2 b" "ry b < ry2 b"
  using assms by (auto simp: rect_difference_def rects_intersect_def Let_def rw_eq wf_rect_def split: if_splits)

text \<open>C8: The rectangles \<open>rect_difference\<close> writes are a partition of what is left of the first
  rectangle: at most four, pairwise disjoint, and together exactly its points outside the second;
  it reports -1 exactly when the two share no point.\<close>

theorem rect_difference_partition:
  assumes "wf_rect a" and "wf_rect b"
  shows "case rect_difference a b of
      None \<Rightarrow> \<not> (\<exists>p. point_in_rect p a \<and> point_in_rect p b)
    | Some rs \<Rightarrow> length rs \<le> 4
        \<and> (\<forall>p. list_ex (point_in_rect p) rs \<longleftrightarrow> point_in_rect p a \<and> \<not> point_in_rect p b)
        \<and> sorted_wrt (\<lambda>r s. \<not> (\<exists>p. point_in_rect p r \<and> point_in_rect p s)) rs"
proof (cases "rect_difference a b")
  case None
  then have "\<not> rects_intersect a b" by (auto simp: rect_difference_def Let_def split: if_splits)
  then show ?thesis using None rects_intersect_iff[OF assms] by simp
next
  case (Some rs)
  note c = rect_difference_cases[OF assms Some]
  have "length rs \<le> 4" unfolding c(1) by simp
  moreover have "list_ex (point_in_rect p) rs \<longleftrightarrow> point_in_rect p a \<and> \<not> point_in_rect p b" for p
    unfolding c(1) using c(2-) by (auto simp: point_in_rect_def rw_eq)
  moreover have "sorted_wrt (\<lambda>r s. \<not> (\<exists>p. point_in_rect p r \<and> point_in_rect p s)) rs"
    unfolding c(1) using c(2-) by (auto simp: point_in_rect_def rw_eq)
  ultimately show ?thesis using Some by simp
qed

lemma rect_difference_partition_witness:
  "length (the (rect_difference (mk_rect 100 100 200 400) (mk_rect 150 150 50 50))) \<le> 4"
proof -
  have "rect_difference (mk_rect 100 100 200 400) (mk_rect 150 150 50 50) \<noteq> None" by code_simp
  then show ?thesis
    using rect_difference_partition[of "mk_rect 100 100 200 400" "mk_rect 150 150 50 50"] by auto
qed



lemma rect_to_string_join: "rect_to_string r = join_ints [rx r, ry r, rx2 r - 1, ry2 r - 1]"
  by (simp add: rect_to_string_def join_ints_def)

lemma point_to_string_join: "point_to_string p = join_ints [px p, py p]"
  by (simp add: point_to_string_def join_ints_def)

lemma join_ints_no_NUL: "NUL \<notin> set (join_ints is)"
proof -
  have "NUL \<notin> set (join_char vs (CHR '',''))" if "\<forall>v \<in> set vs. NUL \<notin> set v" for vs
    using that by (induction vs "CHR '',''" rule: join_char.induct) auto
  then show ?thesis by (auto simp: join_ints_def)
qed

lemma split_join_ints:
  assumes "is \<noteq> []" and "\<forall>i \<in> set is. i32 i"
  shows "split_into_ints cap (c_str (join_ints is)) = (take cap is, length is, [])"
  using split_ints_join[OF assms, of "[]" "[]" 0 cap]
  by (simp add: split_into_ints_def c_str_id join_ints_no_NUL)

text \<open>C36: A rectangle and a point are read back from the text they print, empty rectangles included, and
  a rectangle also from the list it writes.\<close>

theorem rect_print_parse:
  assumes "wf_rect r" and "i32 (rx r)" "i32 (ry r)" "i32 (rx2 r - 1)" "i32 (ry2 r - 1)" "i32 (px p)" "i32 (py p)"
  shows "rect_of_string (rect_to_string r) = r \<and> rect_of_list (rect_write r) = r
    \<and> point_of_string (point_to_string p) = p \<and> point_of_list (point_write p) = p"
proof -
  have ne: "rect_to_string r \<noteq> []" by (simp add: rect_to_string_def)
  have "split_into_ints 4 (c_str (rect_to_string r)) = ([rx r, ry r, rx2 r - 1, ry2 r - 1], 4, [])"
    unfolding rect_to_string_join using assms by (subst split_join_ints) auto
  then have "rect_of_string (rect_to_string r) = r"
    using ne from_coordinates_of_rect[OF assms(1)] by (simp add: rect_of_string_def eval_nat_numeral)
  moreover have "split_into_ints 2 (c_str (point_to_string p)) = ([px p, py p], 2, [])"
    unfolding point_to_string_join using assms by (subst split_join_ints) auto
  then have "point_of_string (point_to_string p) = p" by (simp add: point_of_string_def)
  ultimately show ?thesis
    using from_coordinates_of_rect[OF assms(1)]
    by (simp add: rect_of_list_def rect_write_def point_of_list_def point_write_def eval_nat_numeral)
qed

lemma rect_print_parse_witness:
  "rect_of_string (rect_to_string (mk_rect 10 10 10 0)) = mk_rect 10 10 10 0"
  using rect_print_parse[of "mk_rect 10 10 10 0" "Point 0 0"] by (simp add: i32_def)

text \<open>The two ways to read a pair of coordinates disagree on the far corner.\<close>

lemma rect_two_coordinates:
  "rect_of_list [5, 7] = mk_rect 5 7 1 1" "rect_of_string ''5,7'' = mk_rect 1 1 5 7"
  by code_simp+

end
