(* ===== verification/CT_Variant.thy ===== *)
theory CT_Variant
  imports CT_Decimal "HOL-Library.List_Lexorder"
begin

text \<open>
  \<open>src/variant.cpp\<close>: the values of formulas and data files. A \<open>std::map\<close> is the list of its pairs in
  iteration order. Objects and functions are known by an address; what the virtual functions of an object
  answer is the argument \<open>E\<close>. \<open>None\<close> is a failed assertion: \<open>generate_error\<close>, a type error, or an
  overflow of the arithmetic. Reference counts, shared buffers of list slices and the places recorded for
  messages have no influence on the values and are left out.
\<close>

section \<open>Values\<close>

datatype variant =
    VNull
  | VBool bool
  | VInt int
  | VDecimal int
  | VCallable nat
  | VLoading int
  | VList "variant list"
  | VString string string
  | VMap "(variant \<times> variant) list"
  | VFunction nat "string list" "variant list" string "nat option"
  | VDelayed nat

text \<open>A string holds its text and what it was translated from; a function its address, the names and the
  defaults of its arguments, its text and the object it is closed over.\<close>

record callables =
  c_equals :: "nat \<Rightarrow> nat \<Rightarrow> bool"
  c_less :: "nat \<Rightarrow> nat \<Rightarrow> bool"
  c_serializable :: "nat \<Rightarrow> bool"
  c_pointer :: "nat \<Rightarrow> string"
  c_serialize :: "nat \<Rightarrow> string option"

abbreviation vstr :: "string \<Rightarrow> variant" where "vstr s \<equiv> VString s []"

fun type_rank :: "variant \<Rightarrow> nat" where
  "type_rank VNull = 0"
| "type_rank (VBool b) = 1"
| "type_rank (VInt i) = 2"
| "type_rank (VDecimal d) = 3"
| "type_rank (VCallable c) = 4"
| "type_rank (VLoading i) = 5"
| "type_rank (VList xs) = 6"
| "type_rank (VString s t) = 7"
| "type_rank (VMap m) = 8"
| "type_rank (VFunction a args dflts body cl) = 9"
| "type_rank (VDelayed d) = 10"

definition variant_type_to_string :: "variant \<Rightarrow> string option" where
  "variant_type_to_string v =
     (let names = [''null'', ''bool'', ''int'', ''decimal'', ''object'', ''object_loading'', ''list'',
                   ''string'', ''map'', ''function'']
      in if type_rank v < length names then Some (names ! type_rank v) else None)"

definition is_decimal :: "variant \<Rightarrow> bool" where "is_decimal v \<longleftrightarrow> type_rank v = 3"
definition is_string :: "variant \<Rightarrow> bool" where "is_string v \<longleftrightarrow> type_rank v = 7"
definition is_map :: "variant \<Rightarrow> bool" where "is_map v \<longleftrightarrow> type_rank v = 8"
definition is_list :: "variant \<Rightarrow> bool" where "is_list v \<longleftrightarrow> type_rank v = 6"
definition is_bool :: "variant \<Rightarrow> bool" where "is_bool v \<longleftrightarrow> type_rank v = 1"
definition is_null :: "variant \<Rightarrow> bool" where "is_null v \<longleftrightarrow> type_rank v = 0"

lemma variant_tests [simp]:
  "is_decimal v \<longleftrightarrow> (\<exists>d. v = VDecimal d)" "is_string v \<longleftrightarrow> (\<exists>s t. v = VString s t)"
  "is_map v \<longleftrightarrow> (\<exists>m. v = VMap m)" "is_list v \<longleftrightarrow> (\<exists>xs. v = VList xs)"
  "is_bool v \<longleftrightarrow> (\<exists>b. v = VBool b)" "is_null v \<longleftrightarrow> v = VNull"
  by (cases v; simp add: is_decimal_def is_string_def is_map_def is_list_def is_bool_def is_null_def)+

section \<open>Conversions\<close>

definition v_as_int :: "variant \<Rightarrow> int option" where
  "v_as_int v = (case v of
     VNull \<Rightarrow> Some 0
   | VDecimal d \<Rightarrow> Some (wrap32 (d sdiv DECIMAL_PRECISION))
   | VBool b \<Rightarrow> Some (if b then 1 else 0)
   | VInt i \<Rightarrow> Some i
   | _ \<Rightarrow> None)"

definition v_as_decimal :: "variant \<Rightarrow> decimal option" where
  "v_as_decimal v = (case v of
     VNull \<Rightarrow> Some (from_raw_value 0)
   | VInt i \<Rightarrow> Some (from_raw_value (i * DECIMAL_PRECISION))
   | VDecimal d \<Rightarrow> Some (from_raw_value d)
   | _ \<Rightarrow> None)"

definition as_bool_default :: "variant \<Rightarrow> bool \<Rightarrow> bool" where
  "as_bool_default v default_value = (case v of VInt i \<Rightarrow> i \<noteq> 0 | VBool b \<Rightarrow> b | _ \<Rightarrow> default_value)"

definition as_bool :: "variant \<Rightarrow> bool option" where
  "as_bool v = (case v of
     VNull \<Rightarrow> Some False
   | VBool b \<Rightarrow> Some b
   | VInt i \<Rightarrow> Some (i \<noteq> 0)
   | VDecimal d \<Rightarrow> Some (d \<noteq> 0)
   | VLoading i \<Rightarrow> Some True
   | VCallable c \<Rightarrow> Some True
   | VList xs \<Rightarrow> Some (xs \<noteq> [])
   | VMap m \<Rightarrow> Some (m \<noteq> [])
   | VString s t \<Rightarrow> Some (s \<noteq> [])
   | VFunction a args dflts body cl \<Rightarrow> Some True
   | VDelayed d \<Rightarrow> None)"

definition as_list :: "variant \<Rightarrow> variant list" where
  "as_list v = (case v of VList xs \<Rightarrow> xs | VNull \<Rightarrow> [] | _ \<Rightarrow> [v])"

definition as_map :: "variant \<Rightarrow> (variant \<times> variant) list" where
  "as_map v = (case v of VMap m \<Rightarrow> m | _ \<Rightarrow> [])"

definition as_string :: "variant \<Rightarrow> string option" where
  "as_string v = (case v of VString s t \<Rightarrow> Some s | _ \<Rightarrow> None)"

definition as_string_default :: "variant \<Rightarrow> string \<Rightarrow> string option" where
  "as_string_default v default_value = (if is_null v then Some default_value else as_string v)"

text \<open>The conversion of every element; the first failure is the failure of the whole.\<close>

fun all_elements :: "(variant \<Rightarrow> 'a option) \<Rightarrow> variant list \<Rightarrow> 'a list option" where
  "all_elements f [] = Some []"
| "all_elements f (x # xs) = do { y \<leftarrow> f x; ys \<leftarrow> all_elements f xs; Some (y # ys) }"

definition as_list_string :: "variant \<Rightarrow> string list option" where
  "as_list_string v = (case v of VList xs \<Rightarrow> all_elements as_string xs | _ \<Rightarrow> None)"

definition as_list_int :: "variant \<Rightarrow> int list option" where
  "as_list_int v = (case v of VList xs \<Rightarrow> all_elements v_as_int xs | _ \<Rightarrow> None)"

definition as_list_decimal :: "variant \<Rightarrow> decimal list option" where
  "as_list_decimal v = (case v of VList xs \<Rightarrow> all_elements v_as_decimal xs | _ \<Rightarrow> None)"

definition as_list_string_optional :: "variant \<Rightarrow> string list option" where
  "as_list_string_optional v = (if is_null v then Some [] else as_list_string v)"

section \<open>Equality and order\<close>

definition mixed_eq :: "variant \<Rightarrow> variant \<Rightarrow> bool option" where
  "mixed_eq a b = (if is_decimal a \<or> is_decimal b
     then do { x \<leftarrow> v_as_decimal a; y \<leftarrow> v_as_decimal b; Some (x = y) } else Some False)"

definition mixed_le :: "variant \<Rightarrow> variant \<Rightarrow> bool option" where
  "mixed_le a b = (if is_decimal a \<or> is_decimal b
     then do { x \<leftarrow> v_as_decimal a; y \<leftarrow> v_as_decimal b; Some (x \<le> y) } else Some (type_rank a < type_rank b))"

text \<open>Strings are compared as sequences of unsigned characters.\<close>

fun string_le :: "string \<Rightarrow> string \<Rightarrow> bool" where
  "string_le [] ys = True"
| "string_le (x # xs) [] = False"
| "string_le (x # xs) (y # ys) = (char_code x < char_code y \<or> (x = y \<and> string_le xs ys))"

text \<open>\<open>operator==\<close>; a list compares its elements in order up to the first that differs, a map its pairs.\<close>

function variant_eq :: "callables \<Rightarrow> variant \<Rightarrow> variant \<Rightarrow> bool option"
  and elems_eq :: "callables \<Rightarrow> variant list \<Rightarrow> variant list \<Rightarrow> bool option"
  and pairs_eq :: "callables \<Rightarrow> (variant \<times> variant) list \<Rightarrow> (variant \<times> variant) list \<Rightarrow> bool option" where
  "variant_eq E VNull b = (case b of VNull \<Rightarrow> Some True | _ \<Rightarrow> mixed_eq VNull b)"
| "variant_eq E (VBool x) b = (case b of VBool y \<Rightarrow> Some (x = y) | _ \<Rightarrow> mixed_eq (VBool x) b)"
| "variant_eq E (VInt x) b = (case b of VInt y \<Rightarrow> Some (x = y) | _ \<Rightarrow> mixed_eq (VInt x) b)"
| "variant_eq E (VDecimal x) b = (case b of VDecimal y \<Rightarrow> Some (x = y) | _ \<Rightarrow> mixed_eq (VDecimal x) b)"
| "variant_eq E (VCallable x) b = (case b of VCallable y \<Rightarrow> Some (c_equals E x y) | _ \<Rightarrow> mixed_eq (VCallable x) b)"
| "variant_eq E (VLoading x) b = (case b of VLoading y \<Rightarrow> Some False | _ \<Rightarrow> mixed_eq (VLoading x) b)"
| "variant_eq E (VList xs) b = (case b of
      VList ys \<Rightarrow> if length xs \<noteq> length ys then Some False else elems_eq E xs ys
    | _ \<Rightarrow> mixed_eq (VList xs) b)"
| "variant_eq E (VString s u) b = (case b of VString t w \<Rightarrow> Some (s = t) | _ \<Rightarrow> mixed_eq (VString s u) b)"
| "variant_eq E (VMap m) b = (case b of
      VMap n \<Rightarrow> if length m \<noteq> length n then Some False else pairs_eq E m n
    | _ \<Rightarrow> mixed_eq (VMap m) b)"
| "variant_eq E (VFunction a args dflts body cl) b = (case b of
      VFunction a' args' dflts' body' cl' \<Rightarrow> Some (a = a')
    | _ \<Rightarrow> mixed_eq (VFunction a args dflts body cl) b)"
| "variant_eq E (VDelayed x) b = (case b of VDelayed y \<Rightarrow> None | _ \<Rightarrow> mixed_eq (VDelayed x) b)"
| "elems_eq E [] ys = Some True"
| "elems_eq E (x # xs) ys = (case ys of
      [] \<Rightarrow> Some True
    | y # ys' \<Rightarrow> do { e \<leftarrow> variant_eq E x y; if e then elems_eq E xs ys' else Some False })"
| "pairs_eq E [] n = Some True"
| "pairs_eq E ((k, v) # m) n = (case n of
      [] \<Rightarrow> Some True
    | (k', v') # n' \<Rightarrow> do {
          e \<leftarrow> variant_eq E k k';
          if e then do { e' \<leftarrow> variant_eq E v v'; if e' then pairs_eq E m n' else Some False } else Some False })"
  by pat_completeness auto

termination
  by (relation "measure (\<lambda>x. case x of
       Inl (E, a, b) \<Rightarrow> size a
     | Inr (Inl (E, xs, ys)) \<Rightarrow> size_list size xs
     | Inr (Inr (E, m, n)) \<Rightarrow> size_list (size_prod size size) m)")
    auto

text \<open>
  \<open>operator<=\<close>. The other comparisons are defined by it: \<open>a < b\<close> is \<open>!(b <= a)\<close>, \<open>a > b\<close> is \<open>!(a <= b)\<close>.
  Maps are compared as \<open>std::map\<close> does: \<open>m <= n\<close> when \<open>n\<close> is not lexicographically less than \<open>m\<close>, by the
  order of pairs.
\<close>

function (sequential) variant_le :: "callables \<Rightarrow> variant \<Rightarrow> variant \<Rightarrow> bool option"
  and elems_le :: "callables \<Rightarrow> variant list \<Rightarrow> variant list \<Rightarrow> bool option"
  and pairs_less :: "callables \<Rightarrow> (variant \<times> variant) list \<Rightarrow> (variant \<times> variant) list \<Rightarrow> bool option"
  and pair_less :: "callables \<Rightarrow> variant \<times> variant \<Rightarrow> variant \<times> variant \<Rightarrow> bool option" where
  "variant_le E VNull b = (case b of VNull \<Rightarrow> Some True | _ \<Rightarrow> mixed_le VNull b)"
| "variant_le E (VBool x) b = (case b of VBool y \<Rightarrow> Some (x \<le> y) | _ \<Rightarrow> mixed_le (VBool x) b)"
| "variant_le E (VInt x) b = (case b of VInt y \<Rightarrow> Some (x \<le> y) | _ \<Rightarrow> mixed_le (VInt x) b)"
| "variant_le E (VDecimal x) b = (case b of VDecimal y \<Rightarrow> Some (x \<le> y) | _ \<Rightarrow> mixed_le (VDecimal x) b)"
| "variant_le E (VCallable x) b = (case b of VCallable y \<Rightarrow> Some (\<not> c_less E y x) | _ \<Rightarrow> mixed_le (VCallable x) b)"
| "variant_le E (VLoading x) b = (case b of VLoading y \<Rightarrow> Some False | _ \<Rightarrow> mixed_le (VLoading x) b)"
| "variant_le E (VList xs) b = (case b of VList ys \<Rightarrow> elems_le E xs ys | _ \<Rightarrow> mixed_le (VList xs) b)"
| "variant_le E (VString s u) b = (case b of VString t w \<Rightarrow> Some (string_le s t) | _ \<Rightarrow> mixed_le (VString s u) b)"
| "variant_le E (VMap m) b = (case b of
      VMap n \<Rightarrow> do { l \<leftarrow> pairs_less E n m; Some (\<not> l) } | _ \<Rightarrow> mixed_le (VMap m) b)"
| "variant_le E (VFunction a args dflts body cl) b = (case b of
      VFunction a' args' dflts' body' cl' \<Rightarrow> Some (a \<le> a')
    | _ \<Rightarrow> mixed_le (VFunction a args dflts body cl) b)"
| "variant_le E (VDelayed x) b = (case b of VDelayed y \<Rightarrow> None | _ \<Rightarrow> mixed_le (VDelayed x) b)"
| "elems_le E [] ys = Some True"
| "elems_le E (x # xs) [] = Some False"
| "elems_le E (x # xs) (y # ys) = do {
      yx \<leftarrow> variant_le E y x;
      if \<not> yx then Some True
      else do { xy \<leftarrow> variant_le E x y; if \<not> xy then Some False else elems_le E xs ys } }"
| "pairs_less E m [] = Some False"
| "pairs_less E [] (q # n) = Some True"
| "pairs_less E (p # m) (q # n) = do {
      pq \<leftarrow> pair_less E p q;
      if pq then Some True
      else do { qp \<leftarrow> pair_less E q p; if qp then Some False else pairs_less E m n } }"
| "pair_less E (k, v) (k', v') = do {
      le1 \<leftarrow> variant_le E k' k;
      if \<not> le1 then Some True
      else do { le2 \<leftarrow> variant_le E k k';
                if \<not> le2 then Some False else do { le3 \<leftarrow> variant_le E v' v; Some (\<not> le3) } } }"
  by pat_completeness auto

termination
  by (relation "measure (\<lambda>x. case x of
       Inl (Inl (E, a, b)) \<Rightarrow> size a + size b
     | Inl (Inr (E, xs, ys)) \<Rightarrow> size_list size xs + size_list size ys
     | Inr (Inl (E, m, n)) \<Rightarrow> size_list (size_prod size size) m + size_list (size_prod size size) n
     | Inr (Inr (E, p, q)) \<Rightarrow> size_prod size size p + size_prod size size q)")
    auto

definition variant_less :: "callables \<Rightarrow> variant \<Rightarrow> variant \<Rightarrow> bool option" where
  "variant_less E a b = map_option Not (variant_le E b a)"


text \<open>
  \<open>find\<close>, \<open>operator[]\<close> and \<open>erase\<close> of a \<open>std::map\<close> with this order, comparing with the pairs from the first
  on; a tree compares with some of them only, with the same result when the order is a strict weak order.
\<close>

fun map_find :: "callables \<Rightarrow> variant \<Rightarrow> (variant \<times> variant) list \<Rightarrow> variant option option" where
  "map_find E k [] = Some None"
| "map_find E k ((k', v) # m) = do {
     lt \<leftarrow> variant_less E k' k;
     if lt then map_find E k m
     else do { gt \<leftarrow> variant_less E k k'; Some (if gt then None else Some v) } }"

fun map_insert :: "callables \<Rightarrow> variant \<Rightarrow> variant \<Rightarrow> (variant \<times> variant) list \<Rightarrow> (variant \<times> variant) list option" where
  "map_insert E k v [] = Some [(k, v)]"
| "map_insert E k v ((k', v') # m) = do {
     lt \<leftarrow> variant_less E k' k;
     if lt then map_option (Cons (k', v')) (map_insert E k v m)
     else do { gt \<leftarrow> variant_less E k k'; Some (if gt then (k, v) # (k', v') # m else (k', v) # m) } }"

fun map_erase :: "callables \<Rightarrow> variant \<Rightarrow> (variant \<times> variant) list \<Rightarrow> (variant \<times> variant) list option" where
  "map_erase E k [] = Some []"
| "map_erase E k ((k', v') # m) = do {
     lt \<leftarrow> variant_less E k' k;
     if lt then map_option (Cons (k', v')) (map_erase E k m)
     else do { gt \<leftarrow> variant_less E k k'; Some (if gt then (k', v') # m else m) } }"

text \<open>Writing the pairs of \<open>n\<close> into \<open>m\<close>, in order.\<close>

fun map_override :: "callables \<Rightarrow> (variant \<times> variant) list \<Rightarrow> (variant \<times> variant) list \<Rightarrow> (variant \<times> variant) list option" where
  "map_override E m [] = Some m"
| "map_override E m ((k, v) # n) = do { m' \<leftarrow> map_insert E k v m; map_override E m' n }"

section \<open>Elements\<close>

definition nth_element :: "variant \<Rightarrow> int \<Rightarrow> variant option" where
  "nth_element v n = (case v of
     VCallable c \<Rightarrow> if n = 0 then Some v else None
   | VList xs \<Rightarrow> if n < 0 \<or> int (length xs) \<le> n then None else Some (xs ! nat n)
   | _ \<Rightarrow> None)"

definition variant_index :: "callables \<Rightarrow> variant \<Rightarrow> variant \<Rightarrow> variant option" where
  "variant_index E v i = (case v of
     VCallable c \<Rightarrow> do { n \<leftarrow> v_as_int i; if n = 0 then Some v else None }
   | VMap m \<Rightarrow> do { r \<leftarrow> map_find E i m; Some (case r of None \<Rightarrow> VNull | Some x \<Rightarrow> x) }
   | VList xs \<Rightarrow> do { n \<leftarrow> v_as_int i; nth_element v n }
   | _ \<Rightarrow> None)"

definition has_key :: "callables \<Rightarrow> variant \<Rightarrow> variant \<Rightarrow> bool option" where
  "has_key E v key = (case v of
     VMap m \<Rightarrow> do { r \<leftarrow> map_find E key m; Some (case r of None \<Rightarrow> False | Some x \<Rightarrow> \<not> is_null x) }
   | _ \<Rightarrow> Some False)"

definition get_keys :: "variant \<Rightarrow> variant option" where
  "get_keys v = (case v of VMap m \<Rightarrow> Some (VList (map fst m)) | _ \<Rightarrow> None)"

definition get_values :: "variant \<Rightarrow> variant option" where
  "get_values v = (case v of VMap m \<Rightarrow> Some (VList (map snd m)) | _ \<Rightarrow> None)"

definition num_elements :: "variant \<Rightarrow> nat option" where
  "num_elements v = (case v of
     VNull \<Rightarrow> Some 0 | VCallable c \<Rightarrow> Some 1 | VList xs \<Rightarrow> Some (length xs) | VMap m \<Rightarrow> Some (length m)
   | _ \<Rightarrow> None)"

definition get_list_slice :: "variant \<Rightarrow> int \<Rightarrow> int \<Rightarrow> variant option" where
  "get_list_slice v begin' end' =
     (if end' \<le> begin' then Some (VList [])
      else case v of
        VList xs \<Rightarrow>
          if begin' < 0 \<or> end' > int (length xs) then None
          else Some (VList (take (nat (end' - begin')) (drop (nat begin') xs)))
      | _ \<Rightarrow> None)"

definition get_member :: "callables \<Rightarrow> (nat \<Rightarrow> string \<Rightarrow> variant) \<Rightarrow> variant \<Rightarrow> string \<Rightarrow> variant option" where
  "get_member E query_value v str = (case v of
     VCallable c \<Rightarrow> Some (query_value c str)
   | VMap m \<Rightarrow> variant_index E v (vstr str)
   | _ \<Rightarrow> Some (if str = ''self'' then v else VNull))"

definition add_attr :: "callables \<Rightarrow> variant \<Rightarrow> variant \<Rightarrow> variant \<Rightarrow> variant option" where
  "add_attr E v key value = (case v of VMap m \<Rightarrow> map_option VMap (map_insert E key value m) | _ \<Rightarrow> Some VNull)"

definition remove_attr :: "callables \<Rightarrow> variant \<Rightarrow> variant \<Rightarrow> variant option" where
  "remove_attr E v key = (case v of VMap m \<Rightarrow> map_option VMap (map_erase E key m) | _ \<Rightarrow> Some VNull)"

definition get_index_mutable :: "variant \<Rightarrow> int \<Rightarrow> variant option" where
  "get_index_mutable v index = (case v of
     VList xs \<Rightarrow> if index \<ge> 0 \<and> index < int (length xs) then Some (xs ! nat index) else None
   | _ \<Rightarrow> None)"

definition get_attr_mutable :: "callables \<Rightarrow> variant \<Rightarrow> variant \<Rightarrow> variant option option" where
  "get_attr_mutable E v key = (case v of VMap m \<Rightarrow> map_find E key m | _ \<Rightarrow> Some None)"

text \<open>The call of a function: what its formula is run with, the values of the slots from the base slot on.\<close>

definition call_arguments :: "string list \<Rightarrow> variant list \<Rightarrow> variant list \<Rightarrow> variant list option" where
  "call_arguments formal default_args args =
     (let max_args = length formal; min_args = max_args - length default_args
      in if length args < min_args \<or> length args > max_args then None
         else Some (args @ map (\<lambda>n. default_args ! (n - min_args)) [length args..<max_args]))"

section \<open>Text\<close>

fun join_text :: "string \<Rightarrow> string list \<Rightarrow> string" where
  "join_text sep [] = []"
| "join_text sep [s] = s"
| "join_text sep (s # t # ss) = s @ sep @ join_text sep (t # ss)"

definition show_bool :: "bool \<Rightarrow> string" where "show_bool b = (if b then ''true'' else ''false'')"

definition quoted :: "string \<Rightarrow> string" where
  "quoted s =
     (if s = [] then []
      else if hd s = CHR ''~'' \<and> last s = CHR ''~'' then s
      else (let delim = (if CHR 0x27 \<in> set (c_str s) then CHR ''~'' else CHR 0x27) in delim # s @ [delim]))"

function serialize_to_string :: "callables \<Rightarrow> variant \<Rightarrow> string option"
  and serialize_elems :: "callables \<Rightarrow> variant list \<Rightarrow> string list option"
  and serialize_pairs :: "callables \<Rightarrow> (variant \<times> variant) list \<Rightarrow> string list option" where
  "serialize_to_string E VNull = Some ''null''"
| "serialize_to_string E (VBool b) = Some (show_bool b)"
| "serialize_to_string E (VInt i) = Some (show_int i)"
| "serialize_to_string E (VDecimal d) = dec_to_string (from_raw_value d)"
| "serialize_to_string E (VLoading i) = None"
| "serialize_to_string E (VCallable c) =
     (if c_serializable E c then Some (''deserialize('' @ [CHR 0x27] @ c_pointer E c @ [CHR 0x27] @ '')'')
      else c_serialize E c)"
| "serialize_to_string E (VList xs) =
     do { ss \<leftarrow> serialize_elems E xs; Some (''['' @ join_text '','' ss @ '']'') }"
| "serialize_to_string E (VMap m) =
     do { ss \<leftarrow> serialize_pairs E m; Some (''{'' @ join_text '','' ss @ ''}'') }"
| "serialize_to_string E (VString s t) = Some (quoted s)"
| "serialize_to_string E (VFunction a args dflts body cl) = None"
| "serialize_to_string E (VDelayed d) = None"
| "serialize_elems E [] = Some []"
| "serialize_elems E (x # xs) =
     do { s \<leftarrow> serialize_to_string E x; ss \<leftarrow> serialize_elems E xs; Some (s # ss) }"
| "serialize_pairs E [] = Some []"
| "serialize_pairs E ((k, v) # m) =
     do { s \<leftarrow> serialize_to_string E k; t \<leftarrow> serialize_to_string E v; ss \<leftarrow> serialize_pairs E m;
          Some ((s @ '': '' @ t) # ss) }"
  by pat_completeness auto

termination
  by (relation "measure (\<lambda>x. case x of
       Inl (E, a) \<Rightarrow> size a
     | Inr (Inl (E, xs)) \<Rightarrow> size_list size xs
     | Inr (Inr (E, m)) \<Rightarrow> size_list (size_prod size size) m)")
    auto

text \<open>\<open>if(!res.empty()) res += sep\<close> before each element.\<close>

definition append_sep :: "string \<Rightarrow> string \<Rightarrow> string \<Rightarrow> string" where
  "append_sep sep res s = (if res = [] then s else res @ sep @ s)"

function string_cast :: "callables \<Rightarrow> variant \<Rightarrow> string option"
  and cast_elems :: "callables \<Rightarrow> string \<Rightarrow> variant list \<Rightarrow> string option"
  and cast_pairs :: "callables \<Rightarrow> string \<Rightarrow> (variant \<times> variant) list \<Rightarrow> string option" where
  "string_cast E VNull = Some ''null''"
| "string_cast E (VBool b) = Some (show_bool b)"
| "string_cast E (VInt i) = Some (show_int i)"
| "string_cast E (VDecimal d) = dec_to_string (from_raw_value d)"
| "string_cast E (VLoading i) = Some ''(object loading)''"
| "string_cast E (VCallable c) = Some ''(object)''"
| "string_cast E (VList xs) = cast_elems E [] xs"
| "string_cast E (VMap m) = cast_pairs E [] m"
| "string_cast E (VString s t) = Some s"
| "string_cast E (VFunction a args dflts body cl) = None"
| "string_cast E (VDelayed d) = None"
| "cast_elems E res [] = Some res"
| "cast_elems E res (x # xs) = do { s \<leftarrow> string_cast E x; cast_elems E (append_sep '', '' res s) xs }"
| "cast_pairs E res [] = Some res"
| "cast_pairs E res ((k, v) # m) =
     do { s \<leftarrow> string_cast E k; t \<leftarrow> string_cast E v; cast_pairs E (append_sep '','' res (s @ '': '' @ t)) m }"
  by pat_completeness auto

termination
  by (relation "measure (\<lambda>x. case x of
       Inl (E, a) \<Rightarrow> size a
     | Inr (Inl (E, res, xs)) \<Rightarrow> size_list size xs
     | Inr (Inr (E, res, m)) \<Rightarrow> size_list (size_prod size size) m)")
    auto


section \<open>JSON\<close>

definition QUOTE :: char where "QUOTE = CHR 0x22"
definition BACKSLASH :: char where "BACKSLASH = CHR 0x5C"

text \<open>\<open>boost::replace_all(str, "\"", "\\\"")\<close>\<close>

definition escape_quotes :: "string \<Rightarrow> string" where
  "escape_quotes s = concat (map (\<lambda>c. if c = QUOTE then [BACKSLASH, QUOTE] else [c]) s)"

definition escape_json :: "char \<Rightarrow> string \<Rightarrow> string" where
  "escape_json delim s = concat (map (\<lambda>c. if c = BACKSLASH \<or> c = delim then [BACKSLASH, c] else [c]) s)"

definition write_json_string :: "string \<Rightarrow> string \<Rightarrow> string" where
  "write_json_string s translated_from =
     (let str = (if translated_from = [] then s else translated_from);
          delim = (if translated_from = [] then QUOTE else CHR ''~'')
      in if BACKSLASH \<in> set str \<or> delim \<in> set str then delim # escape_json delim str @ [delim]
         else delim # s @ [delim])"

text \<open>The arguments of a function, the last ones with their defaults.\<close>

definition write_json_args :: "callables \<Rightarrow> string list \<Rightarrow> variant list \<Rightarrow> string list option" where
  "write_json_args E args dflts = do {
     ds \<leftarrow> serialize_elems E dflts;
     Some (map (\<lambda>index. if index \<ge> length args - length dflts
                    then args ! index @ ''='' @ ds ! (index - (length args - length dflts))
                    else args ! index) [0..<length args]) }"

definition write_json_function ::
  "callables \<Rightarrow> string list \<Rightarrow> variant list \<Rightarrow> string \<Rightarrow> nat option \<Rightarrow> string option" where
  "write_json_function E args dflts body closure = do {
     as \<leftarrow> write_json_args E args dflts;
     let code = ''def('' @ join_text '','' as @ '') '' @ body;
     text \<leftarrow> (case closure of
        Some c \<Rightarrow>
          if c_serializable E c
          then do { str \<leftarrow> serialize_to_string E (VCallable c);
                    Some (''delay_until_end_of_loading(q(bind_closure('' @ code @ '','' @ str @ '')))'') }
          else Some code
      | None \<Rightarrow> Some code);
     Some ([QUOTE] @ ''@eval '' @ text @ [QUOTE]) }"

function (sequential) write_json :: "callables \<Rightarrow> variant \<Rightarrow> string option"
  and write_json_pretty :: "callables \<Rightarrow> string \<Rightarrow> variant \<Rightarrow> string option"
  and json_key :: "callables \<Rightarrow> variant \<Rightarrow> string option"
  and json_elems :: "callables \<Rightarrow> variant list \<Rightarrow> string list option"
  and json_pairs :: "callables \<Rightarrow> (variant \<times> variant) list \<Rightarrow> string list option"
  and pretty_elems :: "callables \<Rightarrow> string \<Rightarrow> variant list \<Rightarrow> string list option"
  and pretty_pairs :: "callables \<Rightarrow> string \<Rightarrow> (variant \<times> variant) list \<Rightarrow> string list option" where
  "write_json E VNull = Some ''null''"
| "write_json E (VBool b) = Some (show_bool b)"
| "write_json E (VInt i) = Some (show_int i)"
| "write_json E (VDecimal d) = dec_to_string (from_raw_value d)"
| "write_json E (VMap m) = do { ss \<leftarrow> json_pairs E m; Some (''{'' @ join_text '','' ss @ ''}'') }"
| "write_json E (VList xs) = do { ss \<leftarrow> json_elems E xs; Some (''['' @ join_text '','' ss @ '']'') }"
| "write_json E (VString s t) = Some (write_json_string s t)"
| "write_json E (VCallable c) =
     do { str \<leftarrow> serialize_to_string E (VCallable c); Some ([QUOTE] @ ''@eval '' @ str @ [QUOTE]) }"
| "write_json E (VFunction a args dflts body cl) = write_json_function E args dflts body cl"
| "write_json E v = None"
| "write_json_pretty E indent (VMap m) =
     do { ss \<leftarrow> pretty_pairs E (indent @ [CHR 0x09]) m;
          Some (''{'' @ join_text '','' ss @ [NL] @ indent @ ''}'') }"
| "write_json_pretty E indent (VList xs) =
     (if \<not> list_ex (\<lambda>x. is_list x \<or> is_map x) xs then write_json E (VList xs)
      else do { ss \<leftarrow> pretty_elems E (indent @ [CHR 0x09]) xs;
                Some (''['' @ join_text '','' ss @ (if xs \<noteq> [] then [NL] @ indent @ '']'' else '']'')) })"
| "write_json_pretty E indent v = write_json E v"
| "json_key E (VString s t) = Some ([QUOTE] @ s @ [QUOTE] @ '':'')"
| "json_key E k =
     do { str \<leftarrow> write_json_pretty E [] k; Some ([QUOTE] @ ''@eval '' @ escape_quotes str @ [QUOTE] @ '':'') }"
| "json_elems E [] = Some []"
| "json_elems E (x # xs) = do { s \<leftarrow> write_json E x; ss \<leftarrow> json_elems E xs; Some (s # ss) }"
| "json_pairs E [] = Some []"
| "json_pairs E ((k, v) # m) =
     do { s \<leftarrow> json_key E k; t \<leftarrow> write_json E v; ss \<leftarrow> json_pairs E m; Some ((s @ t) # ss) }"
| "pretty_elems E indent [] = Some []"
| "pretty_elems E indent (x # xs) =
     do { s \<leftarrow> write_json_pretty E indent x; ss \<leftarrow> pretty_elems E indent xs; Some (([NL] @ indent @ s) # ss) }"
| "pretty_pairs E indent [] = Some []"
| "pretty_pairs E indent ((k, v) # m) =
     do { s \<leftarrow> json_key E k; t \<leftarrow> write_json_pretty E indent v; ss \<leftarrow> pretty_pairs E indent m;
          Some (([NL] @ indent @ s @ '' '' @ t) # ss) }"
  by pat_completeness auto

termination
  by (relation "measure (\<lambda>x. case x of
       Inl (Inl (E, a)) \<Rightarrow> 2 * size a
     | Inl (Inr (Inl (E, indent, a))) \<Rightarrow> 2 * size a + 1
     | Inl (Inr (Inr (E, a))) \<Rightarrow> 2 * size a + 2
     | Inr (Inl (Inl (E, xs))) \<Rightarrow> 2 * size_list size xs
     | Inr (Inl (Inr (E, m))) \<Rightarrow> 2 * size_list (size_prod size size) m
     | Inr (Inr (Inl (E, indent, xs))) \<Rightarrow> 2 * size_list size xs + 1
     | Inr (Inr (Inr (E, indent, m))) \<Rightarrow> 2 * size_list (size_prod size size) m + 1)")
    auto


section \<open>Arithmetic\<close>

definition of_decimal :: "decimal option \<Rightarrow> variant option" where
  "of_decimal d = map_option (\<lambda>d. VDecimal (dvalue d)) d"

definition int_op :: "(int \<Rightarrow> int \<Rightarrow> int) \<Rightarrow> variant \<Rightarrow> variant \<Rightarrow> variant option" where
  "int_op f a b = do { x \<leftarrow> v_as_int a; y \<leftarrow> v_as_int b; map_option VInt (chk32 (f x y)) }"

definition decimal_op :: "(decimal \<Rightarrow> decimal \<Rightarrow> decimal option) \<Rightarrow> variant \<Rightarrow> variant \<Rightarrow> variant option" where
  "decimal_op f a b = do { x \<leftarrow> v_as_decimal a; y \<leftarrow> v_as_decimal b; of_decimal (f x y) }"

definition variant_add :: "callables \<Rightarrow> variant \<Rightarrow> variant \<Rightarrow> variant option" where
  "variant_add E a b =
     (case (a, b) of
        (VInt x, VInt y) \<Rightarrow> map_option VInt (chk32 (x + y))
      | _ \<Rightarrow>
        if is_string a
        then do { x \<leftarrow> as_string a;
                  if is_map b \<or> is_string b then do { y \<leftarrow> as_string b; Some (vstr (x @ y)) }
                  else do { s \<leftarrow> serialize_to_string E b; Some (vstr (x @ s)) } }
        else if is_string b
        then do { s \<leftarrow> serialize_to_string E a; y \<leftarrow> as_string b; Some (vstr (s @ y)) }
        else if is_decimal a \<or> is_decimal b then decimal_op dec_plus a b
        else (case a of
            VInt x \<Rightarrow> int_op (+) a b
          | VBool x \<Rightarrow> int_op (+) a b
          | VNull \<Rightarrow> Some b
          | _ \<Rightarrow>
            if is_null b then Some a
            else (case (a, b) of
                (VList xs, VList ys) \<Rightarrow> Some (VList (xs @ ys))
              | (VMap m, VMap n) \<Rightarrow> map_option VMap (map_override E m n)
              | _ \<Rightarrow> int_op (+) a b)))"

definition variant_minus :: "variant \<Rightarrow> variant \<Rightarrow> variant option" where
  "variant_minus a b = (if is_decimal a \<or> is_decimal b then decimal_op dec_minus a b else int_op (-) a b)"

definition variant_times :: "variant \<Rightarrow> variant \<Rightarrow> variant option" where
  "variant_times a b =
     (if is_decimal a \<or> is_decimal b then decimal_op dec_times a b
      else case a of
          VList xs \<Rightarrow> do { n \<leftarrow> v_as_int b;
                            ncopies \<leftarrow> (if n < 0 then chk32 (- n) else Some n);
                            Some (VList (concat (replicate (nat ncopies) xs))) }
        | _ \<Rightarrow> int_op (*) a b)"

definition variant_divide :: "variant \<Rightarrow> variant \<Rightarrow> variant option" where
  "variant_divide a b =
     (if is_decimal a \<or> is_decimal b
      then do { y \<leftarrow> v_as_decimal b; if dvalue y = 0 then None else decimal_op dec_div a b }
      else do { x \<leftarrow> v_as_int a; y \<leftarrow> v_as_int b;
                if y = 0 then None else map_option VInt (chk32 (x sdiv y)) })"

definition variant_modulo :: "variant \<Rightarrow> variant \<Rightarrow> variant option" where
  "variant_modulo a b = do { x \<leftarrow> v_as_int a; y \<leftarrow> v_as_int b;
     if y = 0 then None else do { q \<leftarrow> chk32 (x sdiv y); Some (VInt (x smod y)) } }"

definition variant_uminus :: "variant \<Rightarrow> variant option" where
  "variant_uminus a = (case a of
     VDecimal d \<Rightarrow> map_option VDecimal (chk64 (- d))
   | _ \<Rightarrow> do { x \<leftarrow> v_as_int a; map_option VInt (chk32 (- x)) })"

text \<open>Adding an object to a text is a type error, although the code has a branch for it.\<close>

lemma string_plus_map: "variant_add E (VString s t) (VMap m) = None"
  by (simp add: variant_add_def as_string_def)

section \<open>The order\<close>

text \<open>Decimals are compared with whole numbers and null by value, all others by kind: the comparisons go
  round in a circle, so that a map with such keys has no order.\<close>

lemma variant_order_cycle:
  "variant_less E VNull (VInt (- 2)) = Some True"
  "variant_less E (VInt (- 2)) (VDecimal (- 1000000)) = Some True"
  "variant_less E (VDecimal (- 1000000)) VNull = Some True"
  by (simp_all add: variant_less_def mixed_le_def v_as_decimal_def less_eq_decimal_def decimal_le_def)

text \<open>The values without decimals, objects and functions.\<close>

fun plain :: "variant \<Rightarrow> bool" where
  "plain VNull = True"
| "plain (VBool b) = True"
| "plain (VInt i) = True"
| "plain (VString s t) = True"
| "plain (VList xs) = (\<forall>x \<in> set xs. plain x)"
| "plain (VMap m) = (\<forall>p \<in> set m. plain (fst p) \<and> plain (snd p))"
| "plain v = False"

text \<open>Their order is the lexicographic one of their codes, in which no code is the start of another.\<close>

fun key_code :: "variant \<Rightarrow> int list" where
  "key_code VNull = [0]"
| "key_code (VBool b) = [1, of_bool b]"
| "key_code (VInt i) = [2, i]"
| "key_code (VString s t) = 7 # concat (map (\<lambda>c. [1, int (char_code c)]) s) @ [0]"
| "key_code (VList xs) = 6 # concat (map (\<lambda>x. 1 # key_code x) xs) @ [0]"
| "key_code (VMap m) = 8 # concat (map (\<lambda>(k, v). 1 # key_code k @ key_code v) m) @ [0]"
| "key_code v = []"


definition code_list :: "variant list \<Rightarrow> int list" where
  "code_list xs = concat (map (\<lambda>x. 1 # key_code x) xs) @ [0]"

definition code_pairs :: "(variant \<times> variant) list \<Rightarrow> int list" where
  "code_pairs m = concat (map (\<lambda>(k, v). 1 # key_code k @ key_code v) m) @ [0]"

lemma code_list_simps [simp]:
  "code_list [] = [0]" "code_list (x # xs) = 1 # key_code x @ code_list xs"
  "code_pairs [] = [0]" "code_pairs ((k, v) # m) = 1 # key_code k @ key_code v @ code_pairs m"
  by (simp_all add: code_list_def code_pairs_def)

lemma code_containers [simp]:
  "key_code (VList xs) = 6 # code_list xs" "key_code (VMap m) = 8 # code_pairs m"
  by (simp_all add: code_list_def code_pairs_def)

declare key_code.simps(5,6) [simp del]

definition unprefixed :: "int list \<Rightarrow> int list \<Rightarrow> bool" where
  "unprefixed x y \<longleftrightarrow> (\<forall>u v. x @ u = y @ v \<longrightarrow> x = y)"

lemma unprefixed_Cons [simp]: "unprefixed (a # x) (b # y) \<longleftrightarrow> a \<noteq> b \<or> unprefixed x y"
  by (auto simp: unprefixed_def)

lemma unprefixed_Nil [simp]: "unprefixed [] []"
  by (simp add: unprefixed_def)

lemma unprefixed_append:
  assumes "unprefixed x y" and "x = y \<Longrightarrow> unprefixed x' y'"
  shows "unprefixed (x @ x') (y @ y')"
  unfolding unprefixed_def
proof (intro allI impI)
  fix u v assume eq: "(x @ x') @ u = (y @ y') @ v"
  then have "x = y" using assms(1) by (auto simp: unprefixed_def)
  with eq show "x @ x' = y @ y'" using assms(2) by (auto simp: unprefixed_def)
qed

lemma unprefixed_string:
  "unprefixed (concat (map (\<lambda>c. [1, int (char_code c)]) s) @ [0]) (concat (map (\<lambda>c. [1, int (char_code c)]) t) @ [0])"
proof (induction s arbitrary: t)
  case Nil
  then show ?case by (cases t) (auto simp: unprefixed_def)
next
  case (Cons c s)
  then show ?case by (cases t) auto
qed

lemma unprefixed_list:
  assumes "\<And>x y. x \<in> set xs \<Longrightarrow> y \<in> set ys \<Longrightarrow> unprefixed (key_code x) (key_code y)"
  shows "unprefixed (code_list xs) (code_list ys)"
  using assms
proof (induction xs arbitrary: ys)
  case Nil
  then show ?case by (cases ys) (auto simp: unprefixed_def)
next
  case (Cons x xs)
  then show ?case by (cases ys) (auto intro!: unprefixed_append)
qed

lemma unprefixed_pairs:
  assumes "\<And>p q. p \<in> set m \<Longrightarrow> q \<in> set n \<Longrightarrow>
      unprefixed (key_code (fst p)) (key_code (fst q)) \<and> unprefixed (key_code (snd p)) (key_code (snd q))"
  shows "unprefixed (code_pairs m) (code_pairs n)"
  using assms
proof (induction m arbitrary: n)
  case Nil
  then show ?case by (cases n) (auto simp: unprefixed_def)
next
  case (Cons p m)
  then show ?case
    by (cases p; cases n) (fastforce intro!: unprefixed_append)+
qed

lemma unprefixed_code: "plain a \<Longrightarrow> plain b \<Longrightarrow> unprefixed (key_code a) (key_code b)"
proof (induction a arbitrary: b rule: plain.induct)
  case 1
  then show ?case by (cases b) auto
next
  case (2 x)
  then show ?case by (cases b) auto
next
  case (3 i)
  then show ?case by (cases b) auto
next
  case (4 s t)
  then show ?case using unprefixed_string by (cases b) auto
next
  case (5 xs)
  show ?case
  proof (cases b)
    case (VList ys)
    then show ?thesis using 5 by (auto intro!: unprefixed_list)
  qed (use 5 in auto)
next
  case (6 m)
  show ?case
  proof (cases b)
    case (VMap n)
    then show ?thesis using 6 by (auto intro!: unprefixed_pairs)
  qed (use 6 in auto)
qed simp_all

lemma lex_append:
  assumes "unprefixed x y"
  shows "x @ u \<le> y @ v \<longleftrightarrow> x < y \<or> (x = y \<and> u \<le> v)"
    and "x @ u < y @ v \<longleftrightarrow> x < y \<or> (x = y \<and> u < v)"
  using assms
  by (induction x y rule: list_induct2') (auto simp: unprefixed_def)

lemma string_le_code:
  "string_le s t \<longleftrightarrow> concat (map (\<lambda>c. [1, int (char_code c)]) s) @ [0]
      \<le> concat (map (\<lambda>c. [1, int (char_code c)]) t) @ [0 :: int]"
proof (induction s t rule: string_le.induct)
  case (1 ys)
  then show ?case by (cases ys) auto
qed (auto simp: char_code_def)


lemma append_le_same [simp]: "x @ u \<le> x @ v \<longleftrightarrow> u \<le> (v :: int list)"
  by (induction x) auto

lemma lex_code:
  assumes "plain a" "plain b"
  shows "key_code a @ u \<le> key_code b @ v \<longleftrightarrow> key_code a < key_code b \<or> (key_code a = key_code b \<and> u \<le> v)"
    and "key_code a @ u < key_code b @ v \<longleftrightarrow> key_code a < key_code b \<or> (key_code a = key_code b \<and> u < v)"
  by (rule lex_append[OF unprefixed_code[OF assms]])+

lemma code_append_eq:
  assumes "plain a" "plain b"
  shows "key_code a @ u = key_code b @ v \<longleftrightarrow> key_code a = key_code b \<and> u = v"
  using unprefixed_code[OF assms] by (auto simp: unprefixed_def)

lemma le_code:
  shows "plain a \<Longrightarrow> plain b \<Longrightarrow> variant_le E a b = Some (key_code a \<le> key_code b)"
    and "\<forall>x \<in> set xs. plain x \<Longrightarrow> \<forall>y \<in> set ys. plain y \<Longrightarrow>
      elems_le E xs ys = Some (code_list xs \<le> code_list ys)"
    and "\<forall>p \<in> set m. plain (fst p) \<and> plain (snd p) \<Longrightarrow> \<forall>q \<in> set n. plain (fst q) \<and> plain (snd q) \<Longrightarrow>
      pairs_less E m n = Some (code_pairs m < code_pairs n)"
    and "plain (fst p) \<Longrightarrow> plain (snd p) \<Longrightarrow> plain (fst q) \<Longrightarrow> plain (snd q) \<Longrightarrow>
      pair_less E p q = Some (key_code (fst p) @ key_code (snd p) < key_code (fst q) @ key_code (snd q))"
proof (induction E a b and E xs ys and E m n and E p q
    rule: variant_le_elems_le_pairs_less_pair_less.induct)
  case (1 E b)
  then show ?case by (cases b) (auto simp: mixed_le_def)
next
  case (2 E x b)
  then show ?case by (cases b) (auto simp: mixed_le_def)
next
  case (3 E x b)
  then show ?case by (cases b) (auto simp: mixed_le_def)
next
  case (7 E xs b)
  then show ?case by (cases b) (auto simp: mixed_le_def)
next
  case (8 E s u b)
  then show ?case by (cases b) (auto simp: mixed_le_def string_le_code)
next
  case (9 E m b)
  then show ?case by (cases b) (auto simp: mixed_le_def not_less)
next
  case (12 E ys)
  then show ?case by (cases ys) auto
next
  case (14 E x xs y ys)
  have yx: "variant_le E y x = Some (key_code y \<le> key_code x)" using 14 by auto
  show ?case
  proof (cases "key_code y \<le> key_code x")
    case False
    then show ?thesis using yx 14(4,5) by (auto simp: lex_code)
  next
    case True
    then have xy: "variant_le E x y = Some (key_code x \<le> key_code y)" using 14 yx by auto
    show ?thesis
    proof (cases "key_code x = key_code y")
      case eq: True
      then have "elems_le E xs ys = Some (code_list xs \<le> code_list ys)" using 14 yx xy by auto
      then show ?thesis using yx xy eq by simp
    next
      case False
      then show ?thesis using True yx xy 14(4,5) by (auto simp: lex_code)
    qed
  qed
next
  case (16 E q n)
  then show ?case by (cases q) auto
next
  case (15 E m)
  then show ?case by (cases m) auto
next
  case (17 E p m q n)
  obtain k v k' v' where p: "p = (k, v)" "q = (k', v')" by (cases p, cases q)
  let ?x = "key_code k @ key_code v" and ?y = "key_code k' @ key_code v'"
  have xy: "pair_less E p q = Some (?x < ?y)" using 17 p by auto
  have lex: "code_pairs (p # m) < code_pairs (q # n) \<longleftrightarrow> ?x < ?y \<or> (?x = ?y \<and> code_pairs m < code_pairs n)"
    using 17(4,5) p by (auto simp: lex_code code_append_eq)
  show ?case
  proof (cases "?x < ?y")
    case True
    then show ?thesis using xy lex by simp
  next
    case False
    then have yx: "pair_less E q p = Some (?y < ?x)" using 17 p xy by auto
    show ?thesis
    proof (cases "?x = ?y")
      case eq: True
      then have "pairs_less E m n = Some (code_pairs m < code_pairs n)" using 17 p xy yx by auto
      then show ?thesis using yx xy eq lex by simp
    next
      case False
      then show ?thesis using xy yx lex by auto
    qed
  qed
next
  case (18 E k v k' v')
  have yx: "variant_le E k' k = Some (key_code k' \<le> key_code k)" using 18 by auto
  have lex: "key_code k @ key_code v < key_code k' @ key_code v' \<longleftrightarrow> key_code k < key_code k' \<or> (key_code k = key_code k' \<and> key_code v < key_code v')"
    using 18(4-7) by (simp add: lex_code)
  show ?case
  proof (cases "key_code k' \<le> key_code k")
    case False
    then show ?thesis using yx lex by auto
  next
    case True
    then have xy: "variant_le E k k' = Some (key_code k \<le> key_code k')" using 18 yx by auto
    show ?thesis
    proof (cases "key_code k = key_code k'")
      case eq: True
      then have "variant_le E v' v = Some (key_code v' \<le> key_code v)" using 18 yx xy by auto
      then show ?thesis using yx xy eq lex by (auto simp: not_le)
    next
      case False
      then show ?thesis using True yx xy lex by auto
    qed
  qed
qed auto


lemma code_list_length:
  "\<forall>x \<in> set xs. plain x \<Longrightarrow> \<forall>y \<in> set ys. plain y \<Longrightarrow> code_list xs = code_list ys \<Longrightarrow> length xs = length ys"
  by (induction xs ys rule: list_induct2') (auto simp: code_append_eq)

lemma code_pairs_length:
  "\<forall>p \<in> set m. plain (fst p) \<and> plain (snd p) \<Longrightarrow> \<forall>q \<in> set n. plain (fst q) \<and> plain (snd q) \<Longrightarrow>
    code_pairs m = code_pairs n \<Longrightarrow> length m = length n"
  by (induction m n rule: list_induct2') (auto simp: code_append_eq)

lemma code_string_eq:
  "concat (map (\<lambda>c. [1, int (char_code c)]) s) = concat (map (\<lambda>c. [1, int (char_code c)]) t)
    \<longleftrightarrow> s = t"
  by (induction s t rule: list_induct2') (auto simp: char_code_def)

lemma eq_code:
  shows "plain a \<Longrightarrow> plain b \<Longrightarrow> variant_eq E a b = Some (key_code a = key_code b)"
    and "\<forall>x \<in> set xs. plain x \<Longrightarrow> \<forall>y \<in> set ys. plain y \<Longrightarrow> length xs = length ys \<Longrightarrow>
      elems_eq E xs ys = Some (code_list xs = code_list ys)"
    and "\<forall>p \<in> set m. plain (fst p) \<and> plain (snd p) \<Longrightarrow> \<forall>q \<in> set n. plain (fst q) \<and> plain (snd q) \<Longrightarrow>
      length m = length n \<Longrightarrow> pairs_eq E m n = Some (code_pairs m = code_pairs n)"
proof (induction E a b and E xs ys and E m n rule: variant_eq_elems_eq_pairs_eq.induct)
  case (1 E b)
  then show ?case by (cases b) (auto simp: mixed_eq_def)
next
  case (2 E x b)
  then show ?case by (cases b) (auto simp: mixed_eq_def)
next
  case (3 E x b)
  then show ?case by (cases b) (auto simp: mixed_eq_def)
next
  case (7 E xs b)
  then show ?case by (cases b) (auto simp: mixed_eq_def dest: code_list_length)
next
  case (8 E s u b)
  then show ?case by (cases b) (auto simp: mixed_eq_def code_string_eq)
next
  case (9 E m b)
  then show ?case by (cases b) (auto simp: mixed_eq_def dest: code_pairs_length)
next
  case (13 E x xs ys)
  then obtain y ys' where ys: "ys = y # ys'" by (cases ys) auto
  have xy: "variant_eq E x y = Some (key_code x = key_code y)" using 13 ys by auto
  then have "elems_eq E xs ys' = Some (code_list xs = code_list ys')" if "key_code x = key_code y"
    using 13 ys that by auto
  then show ?case using xy 13(3,4) ys by (auto simp: code_append_eq)
next
  case (15 E k v m n)
  then obtain k' v' n' where n: "n = (k', v') # n'" by (cases n) auto
  have k: "variant_eq E k k' = Some (key_code k = key_code k')" using 15 n by auto
  then have v: "variant_eq E v v' = Some (key_code v = key_code v')" if "key_code k = key_code k'" using 15 n that by auto
  then have "pairs_eq E m n' = Some (code_pairs m = code_pairs n')" if "key_code k = key_code k'" "key_code v = key_code v'"
    using 15 n k that by auto
  then show ?case using k v 15(4,5) n by (auto simp: code_append_eq)
qed auto

section \<open>Properties\<close>

text \<open>C16: Values made of null, truth values, whole numbers, texts, lists and maps are totally ordered by
  \<open><=\<close>, \<open>==\<close> is the equality of that order, and no comparison fails: a \<open>std::map\<close> or \<open>std::set\<close> of such keys
  is well defined.\<close>

theorem plain_order:
  assumes "plain a" and "plain b" and "plain c"
  shows "(variant_le E a b = Some True \<or> variant_le E b a = Some True)
    \<and> (\<exists>le ge. variant_le E a b = Some le \<and> variant_le E b a = Some ge \<and> variant_eq E a b = Some (le \<and> ge)
          \<and> variant_less E a b = Some (le \<and> \<not> ge))
    \<and> (variant_le E a b = Some True \<and> variant_le E b c = Some True \<longrightarrow> variant_le E a c = Some True)"
proof (intro conjI)
  show "variant_le E a b = Some True \<or> variant_le E b a = Some True"
    using assms by (auto simp: le_code)
  show "\<exists>le ge. variant_le E a b = Some le \<and> variant_le E b a = Some ge \<and> variant_eq E a b = Some (le \<and> ge)
          \<and> variant_less E a b = Some (le \<and> \<not> ge)"
    using assms by (auto simp: le_code eq_code variant_less_def)
  show "variant_le E a b = Some True \<and> variant_le E b c = Some True \<longrightarrow> variant_le E a c = Some True"
    using assms by (auto simp: le_code)
qed

lemma plain_order_witness:
  "\<forall>E. variant_le E (VList [VInt 1, VNull]) (VList [VInt 1, vstr ''a'']) = Some True
    \<or> variant_le E (VList [VInt 1, vstr ''a'']) (VList [VInt 1, VNull]) = Some True"
  using plain_order[of "VList [VInt 1, VNull]" "VList [VInt 1, vstr ''a'']" VNull] by simp


end
