(* ===== verification/CT_Solid_Map.thy ===== *)
theory CT_Solid_Map
  imports CT_Geometry CT_Variant
begin

text \<open>
  \<open>src/solid_map.hpp\<close> and \<open>src/solid_map.cpp\<close>: which pixels of an object are solid, and the points on its sides.
  A \<open>std::vector<bool>\<close> is a list; reading outside of it, a failed assertion, a division by zero, an overflow in
  \<open>apply_offsets\<close> and a value of the wrong kind in a node are \<open>None\<close>. A texture (\<open>src/texture.hpp\<close>) is its width and
  its map of transparent pixels; the textures by their names are a parameter.
\<close>

section \<open>Textures\<close>

record texture =
  t_width :: int
  alpha_map :: "bool list"

text \<open>The index is computed in \<open>unsigned int\<close>.\<close>

definition is_alpha :: "texture \<Rightarrow> int \<Rightarrow> int \<Rightarrow> bool option" where
  "is_alpha t x y = (let i = nat ((y * t_width t + x) mod 4294967296)
     in if i < length (alpha_map t) then Some (alpha_map t ! i) else None)"

section \<open>Solid maps\<close>

record solid_map =
  map_id :: string
  area :: rect
  solid :: "bool list"
  left :: "point list"
  right :: "point list"
  top :: "point list"
  bottom :: "point list"
  all :: "point list"

definition new_solid_map :: solid_map where
  "new_solid_map = \<lparr>map_id = [], area = mk_rect 0 0 0 0, solid = [], left = [], right = [], top = [], bottom = [], all = []\<rparr>"

datatype MOVE_DIRECTION = MOVE_LEFT | MOVE_RIGHT | MOVE_UP | MOVE_DOWN | MOVE_NONE

definition solid_at :: "solid_map \<Rightarrow> int \<Rightarrow> int \<Rightarrow> bool" where
  "solid_at m x y =
     (if x < 0 \<or> y < 0 \<or> x \<ge> rw (area m) \<or> y \<ge> rh (area m) then False
      else solid m ! nat (y * rw (area m) + x))"

fun dir :: "solid_map \<Rightarrow> MOVE_DIRECTION \<Rightarrow> point list" where
  "dir m MOVE_LEFT = left m"
| "dir m MOVE_RIGHT = right m"
| "dir m MOVE_UP = top m"
| "dir m MOVE_DOWN = bottom m"
| "dir m MOVE_NONE = all m"

definition set_solid :: "int \<Rightarrow> int \<Rightarrow> bool \<Rightarrow> solid_map \<Rightarrow> solid_map option" where
  "set_solid x y value m =
     (if int (length (solid m)) \<noteq> rw (area m) * rh (area m) then None
      else if x < 0 \<or> y < 0 \<or> x \<ge> rw (area m) \<or> y \<ge> rh (area m) then Some m
      else Some (m\<lparr>solid := (solid m)[nat (y * rw (area m) + x) := value]\<rparr>))"

text \<open>A loop whose body may fail.\<close>

fun for_each :: "('a \<Rightarrow> 's \<Rightarrow> 's option) \<Rightarrow> 'a list \<Rightarrow> 's \<Rightarrow> 's option" where
  "for_each f [] s = Some s"
| "for_each f (x # xs) s = do { s \<leftarrow> f x s; for_each f xs s }"

text \<open>The positions row by row: the order in which the nested loops visit them.\<close>

definition positions :: "int \<Rightarrow> int \<Rightarrow> (int \<times> int) list" where
  "positions w h = concat (map (\<lambda>y. map (\<lambda>x. (x, y)) [0..w - 1]) [0..h - 1])"

text \<open>\<open>index\<close> counts the positions.\<close>

definition calculate_side :: "solid_map \<Rightarrow> int \<Rightarrow> int \<Rightarrow> point list" where
  "calculate_side m xdir ydir =
     map (\<lambda>(index, x, y). Point (rx (area m) + x) (ry (area m) + y))
       (filter (\<lambda>(index, x, y). solid m ! index \<and> \<not> solid_at m (x + xdir) (y + ydir))
         (enumerate 0 (positions (rw (area m)) (rh (area m)))))"

text \<open>The column \<open>x\<close> loses its first \<open>offset\<close> pixels.\<close>

definition column_offset :: "int \<Rightarrow> int list \<Rightarrow> int \<Rightarrow> int option" where
  "column_offset seg_width offsets x = do {
     pos \<leftarrow> chk32 (x * 1024);
     if seg_width = 0 then None
     else do {
       let segment = pos sdiv seg_width;
       if segment < 0 \<or> segment \<ge> int (length offsets) - 1 then None
       else do {
         let part = pos smod seg_width;
         a \<leftarrow> chk32 (part * offsets ! nat (segment + 1) * 2);
         b \<leftarrow> chk32 ((seg_width - part) * offsets ! nat segment * 2);
         c \<leftarrow> chk32 (a + b);
         Some (c sdiv seg_width) } } }"

definition apply_offsets :: "int list \<Rightarrow> solid_map \<Rightarrow> solid_map option" where
  "apply_offsets offsets m =
     (if length offsets \<le> 1 then Some m
      else do {
        wide \<leftarrow> chk32 (rw (area m) * 1024);
        let seg_width = wide div (int (length offsets) - 1);
        for_each (\<lambda>x m. do {
            offset \<leftarrow> column_offset seg_width offsets x;
            for_each (\<lambda>y. set_solid x y False) [0..offset - 1] m })
          [0..rw (area m) - 1] m })"

section \<open>Maps from textures\<close>

text \<open>Whether one of the pixels is not transparent; the search ends at the first one.\<close>

fun any_opaque :: "texture \<Rightarrow> (int \<times> int) list \<Rightarrow> bool option" where
  "any_opaque t [] = Some False"
| "any_opaque t ((x, y) # ps) = do { a \<leftarrow> is_alpha t x y; if a then any_opaque t ps else Some True }"

text \<open>The four loops that cut transparent rows and columns off the area.\<close>

datatype edge = Bottom_Edge | Top_Edge | Left_Edge | Right_Edge

fun edge_pixels :: "edge \<Rightarrow> rect \<Rightarrow> (int \<times> int) list" where
  "edge_pixels Bottom_Edge a = map (\<lambda>x. (rx a + x, ry a + rh a - 1)) [0..rw a - 1]"
| "edge_pixels Top_Edge a = map (\<lambda>x. (rx a + x, ry a)) [0..rw a - 1]"
| "edge_pixels Left_Edge a = map (\<lambda>y. (rx a, ry a + y)) [0..rh a - 1]"
| "edge_pixels Right_Edge a = map (\<lambda>y. (rx a + rw a - 1, ry a + y)) [0..rh a - 1]"

fun without_edge :: "edge \<Rightarrow> rect \<Rightarrow> rect" where
  "without_edge Bottom_Edge a = mk_rect (rx a) (ry a) (rw a) (rh a - 1)"
| "without_edge Top_Edge a = mk_rect (rx a) (ry a + 1) (rw a) (rh a - 1)"
| "without_edge Left_Edge a = mk_rect (rx a + 1) (ry a) (rw a - 1) (rh a)"
| "without_edge Right_Edge a = mk_rect (rx a) (ry a) (rw a - 1) (rh a)"

definition extent :: "edge \<Rightarrow> rect \<Rightarrow> int" where
  "extent e a = (if e = Bottom_Edge \<or> e = Top_Edge then rh a else rw a)"

lemma extent_without_edge: "0 < extent e a \<Longrightarrow> extent e (without_edge e a) = extent e a - 1"
  by (cases e) (auto simp: extent_def rw_eq)

function crop :: "texture \<Rightarrow> edge \<Rightarrow> rect \<Rightarrow> rect option" where
  "crop t e a =
     (if extent e a > 0
      then do { found \<leftarrow> any_opaque t (edge_pixels e a); if found then Some a else crop t e (without_edge e a) }
      else Some a)"
  by pat_completeness auto
termination
  by (relation "measure (\<lambda>(t, e, a). nat (extent e a))") (auto simp: extent_without_edge)

declare crop.simps [simp del]

text \<open>A pixel of the map at twice the size: the lower half of a transparent pixel is filled in corners.\<close>

definition scaled_solid :: "texture \<Rightarrow> rect \<Rightarrow> rect \<Rightarrow> int \<Rightarrow> int \<Rightarrow> bool option" where
  "scaled_solid t a scaled x y = do {
     transparent \<leftarrow> is_alpha t (rx a + x div 2) (ry a + y div 2);
     if transparent \<and> odd y \<and> y < rh scaled - 1
     then do {
       below \<leftarrow> is_alpha t (rx a + x div 2) (ry a + y div 2 + 1);
       if below then Some False
       else if odd x
       then (if x < rw scaled - 1 then map_option Not (is_alpha t (rx a + x div 2 + 1) (ry a + y div 2)) else Some False)
       else (if x > 0 then map_option Not (is_alpha t (rx a + x div 2 - 1) (ry a + y div 2)) else Some False) }
     else Some (\<not> transparent) }"

definition create_from_texture :: "texture \<Rightarrow> rect \<Rightarrow> solid_map option" where
  "create_from_texture t area_rect = do {
     a \<leftarrow> crop t Bottom_Edge area_rect;
     a \<leftarrow> crop t Top_Edge a;
     a \<leftarrow> crop t Left_Edge a;
     a \<leftarrow> crop t Right_Edge a;
     let scaled = mk_rect (rx a * 2) (ry a * 2) (rw a * 2) (rh a * 2);
     for_each (\<lambda>(x, y) m. do { s \<leftarrow> scaled_solid t a scaled x y; if s then set_solid x y True m else Some m })
       (positions (rw scaled) (rh scaled))
       (new_solid_map\<lparr>area := scaled, solid := replicate (nat (rw scaled * rh scaled)) False\<rparr>) }"

section \<open>Maps of objects\<close>

definition node_at :: "callables \<Rightarrow> variant \<Rightarrow> string \<Rightarrow> variant option" where
  "node_at E node key = variant_index E node (vstr key)"

definition rect_of_variant :: "variant \<Rightarrow> rect option" where
  "rect_of_variant v = map_option rect_of_list (as_list_int v)"

definition create_object_solid_map_from_solid_node :: "callables \<Rightarrow> (string \<Rightarrow> texture option) \<Rightarrow> variant \<Rightarrow> solid_map option" where
  "create_object_solid_map_from_solid_node E texture_get node = do {
     image \<leftarrow> node_at E node ''image'' \<bind> as_string;
     t \<leftarrow> texture_get image;
     a \<leftarrow> node_at E node ''area'' \<bind> rect_of_variant;
     m \<leftarrow> create_from_texture t a;
     i \<leftarrow> node_at E node ''id'' \<bind> as_string;
     Some (m\<lparr>map_id := i\<rparr>) }"

text \<open>The body: a box, its top cut by the offsets.\<close>

definition body_map :: "rect \<Rightarrow> int \<Rightarrow> int list option \<Rightarrow> solid_map option" where
  "body_map a legs_height offsets = do {
     let body = mk_rect (rx a) (ry a) (rw a) (rh a - legs_height);
     let m = new_solid_map\<lparr>map_id := ''body'', area := body, solid := replicate (nat (rw body * rh body)) True\<rparr>;
     m \<leftarrow> (case offsets of None \<Rightarrow> Some m | Some os \<Rightarrow> apply_offsets os m);
     let m = m\<lparr>top := calculate_side m 0 (- 1), left := calculate_side m (- 1) 0,
       right := calculate_side m 1 0, all := calculate_side m (- 100000) 0\<rparr>;
     Some (if legs_height = 0 then m\<lparr>bottom := calculate_side m 0 1\<rparr> else m) }"

text \<open>The legs: rows that become narrower by a pixel on each side, down to the feet.\<close>

definition legs_positions :: "int \<Rightarrow> int \<Rightarrow> (int \<times> int) list" where
  "legs_positions w h = concat (map (\<lambda>y. map (\<lambda>x. (x, y)) [y..w - y - 1]) [0..h - 2])"

definition legs_map :: "rect \<Rightarrow> int \<Rightarrow> solid_map option" where
  "legs_map a legs_height = do {
     let legs = mk_rect (rx a) (ry2 a - legs_height) (rw a) legs_height;
     m \<leftarrow> for_each (\<lambda>(x, y). set_solid x y True) (legs_positions (rw legs) (rh legs))
       (new_solid_map\<lparr>map_id := ''legs'', area := legs, solid := replicate (nat (rw legs * rh legs)) False\<rparr>);
     let m = (if rh a \<le> legs_height then m\<lparr>top := calculate_side m 0 (- 1)\<rparr> else m);
     Some (m\<lparr>bottom := calculate_side m 0 1, left := calculate_side m (- 1) 0, right := calculate_side m 1 0,
       all := calculate_side m (- 10000) 0\<rparr>) }"

definition object_maps :: "rect \<Rightarrow> int \<Rightarrow> int list option \<Rightarrow> solid_map list option" where
  "object_maps a legs_height offsets = do {
     body \<leftarrow> (if legs_height < rh a then map_option (\<lambda>m. [m]) (body_map a legs_height offsets) else Some []);
     let legs_height = (if legs_height < rh a then legs_height else rh a);
     legs \<leftarrow> (if legs_height \<noteq> 0 then map_option (\<lambda>m. [m]) (legs_map a legs_height) else Some []);
     Some (body @ legs) }"

definition create_object_solid_maps :: "callables \<Rightarrow> (string \<Rightarrow> texture option) \<Rightarrow> variant \<Rightarrow> solid_map list option" where
  "create_object_solid_maps E texture_get node = do {
     nodes \<leftarrow> node_at E node ''solid'';
     images \<leftarrow> all_elements (create_object_solid_map_from_solid_node E texture_get) (as_list nodes);
     has_area \<leftarrow> has_key E node (vstr ''solid_area'');
     if \<not> has_area then Some images
     else do {
       a \<leftarrow> node_at E node ''solid_area'' \<bind> rect_of_variant;
       let a = mk_rect (rx a * 2) (ry a * 2) (rw a * 2) (rh a * 2);
       feet_width \<leftarrow> node_at E node ''feet_width'' \<bind> v_as_int;
       has_feet \<leftarrow> node_at E node ''has_feet'';
       has_offsets \<leftarrow> has_key E node (vstr ''solid_offsets'');
       shape \<leftarrow> node_at E node ''solid_shape'' \<bind> (\<lambda>v. as_string_default v []);
       let legs_height = rw a sdiv 2 + 1 - feet_width;
       let legs_height = (if as_bool_default has_feet True = False \<or> has_offsets \<or> shape = ''rect'' \<or> legs_height < 0
                          then 0 else legs_height);
       let (legs_height, a) = (if shape = ''flat'' then (0, mk_rect (rx a) (ry a + rh a - 1) (rw a) 1) else (legs_height, a));
       offsets \<leftarrow> (if has_offsets \<and> legs_height < rh a
                   then map_option Some (node_at E node ''solid_offsets'' \<bind> as_list_int) else Some None);
       maps \<leftarrow> object_maps a legs_height offsets;
       Some (images @ maps) } }"

definition create_object_platform_maps :: "rect \<Rightarrow> solid_map" where
  "create_object_platform_maps area_ref =
     (let a = mk_rect (rx area_ref * 2) (ry area_ref * 2) (rw area_ref * 2) 1;
          m = new_solid_map\<lparr>map_id := ''platform'', area := a, solid := replicate (nat (rw a * rh a)) True\<rparr>
      in m\<lparr>top := calculate_side m 0 (- 1), bottom := calculate_side m 0 1, left := calculate_side m (- 1) 0,
           right := calculate_side m 1 0, all := calculate_side m (- 100000) 0\<rparr>)"

section \<open>Solid information\<close>

record solid_info =
  info_solid :: "solid_map list"
  info_area :: rect

text \<open>The null pointer is \<open>None\<close>.\<close>

definition create_from_solid_maps :: "solid_map list \<Rightarrow> solid_info option" where
  "create_from_solid_maps maps = (case maps of
     [] \<Rightarrow> None
   | m # _ \<Rightarrow>
       (let (x1, y1, x2, y2) = foldl (\<lambda>(x1, y1, x2, y2) s.
              (if rx (area s) < x1 then rx (area s) else x1, if ry (area s) < y1 then ry (area s) else y1,
               if rx2 (area s) > x2 then rx2 (area s) else x2, if ry2 (area s) > y2 then ry2 (area s) else y2))
            (rx (area m), ry (area m), rx2 (area m), ry2 (area m)) maps
        in Some \<lparr>info_solid = maps, info_area = from_coordinates x1 y1 (x2 - 1) (y2 - 1)\<rparr>))"

definition create :: "callables \<Rightarrow> (string \<Rightarrow> texture option) \<Rightarrow> variant \<Rightarrow> solid_info option option" where
  "create E texture_get node = map_option create_from_solid_maps (create_object_solid_maps E texture_get node)"

definition create_platform :: "callables \<Rightarrow> variant \<Rightarrow> solid_info option option" where
  "create_platform E node = do {
     has_area \<leftarrow> has_key E node (vstr ''platform_area'');
     if \<not> has_area then Some None
     else do {
       a \<leftarrow> node_at E node ''platform_area'' \<bind> rect_of_variant;
       Some (create_from_solid_maps [create_object_platform_maps a]) } }"

definition create_platform_of_area :: "rect \<Rightarrow> solid_info option" where
  "create_platform_of_area a = create_from_solid_maps [create_object_platform_maps a]"

definition create_info_from_texture :: "texture \<Rightarrow> rect \<Rightarrow> solid_info option option" where
  "create_info_from_texture t a = map_option (\<lambda>m. create_from_solid_maps [m]) (create_from_texture t a)"

text \<open>The name of the first map that is solid there.\<close>

fun info_solid_at :: "solid_map list \<Rightarrow> int \<Rightarrow> int \<Rightarrow> string option" where
  "info_solid_at [] x y = None"
| "info_solid_at (s # ss) x y =
     (if solid_at s (x - rx (area s)) (y - ry (area s)) then Some (map_id s) else info_solid_at ss x y)"

section \<open>Loops that set pixels\<close>

definition in_area :: "rect \<Rightarrow> int \<Rightarrow> int \<Rightarrow> bool" where
  "in_area a x y \<longleftrightarrow> 0 \<le> x \<and> x < rw a \<and> 0 \<le> y \<and> y < rh a"

lemma solid_at_iff: "solid_at m x y \<longleftrightarrow> in_area (area m) x y \<and> solid m ! nat (y * rw (area m) + x)"
  by (auto simp: solid_at_def in_area_def)

definition wf_map :: "solid_map \<Rightarrow> bool" where
  "wf_map m \<longleftrightarrow> wf_rect (area m) \<and> int (length (solid m)) = rw (area m) * rh (area m)"

text \<open>A map that differs only in its pixels.\<close>

definition only_solid :: "solid_map \<Rightarrow> solid_map \<Rightarrow> bool" where
  "only_solid m m' \<longleftrightarrow> (\<exists>s. m' = m\<lparr>solid := s\<rparr>)"

lemma only_solid_refl [simp]: "only_solid m m"
  unfolding only_solid_def by (rule exI[of _ "solid m"]) simp

lemma only_solid_update [simp]: "only_solid m (m\<lparr>solid := s\<rparr>)"
  by (auto simp: only_solid_def)

lemma only_solid_trans: "only_solid m m1 \<Longrightarrow> only_solid m1 m2 \<Longrightarrow> only_solid m m2"
  by (auto simp: only_solid_def)

lemma only_solidD:
  "only_solid m m' \<Longrightarrow> area m' = area m" "only_solid m m' \<Longrightarrow> map_id m' = map_id m" "only_solid m m' \<Longrightarrow> bottom m' = bottom m"
  "only_solid m m' \<Longrightarrow> top m' = top m"
  by (auto simp: only_solid_def)

text \<open>
  \<open>marks v a f R\<close>: on every well-formed map with the area \<open>a\<close> the operation \<open>f\<close> succeeds, gives the pixels of
  \<open>R\<close> in the area the value \<open>v\<close>, and changes nothing else.
\<close>

definition marks :: "bool \<Rightarrow> rect \<Rightarrow> (solid_map \<Rightarrow> solid_map option) \<Rightarrow> (int \<times> int) set \<Rightarrow> bool" where
  "marks v a f R \<longleftrightarrow> (\<forall>m. wf_map m \<and> area m = a \<longrightarrow> (\<exists>m'. f m = Some m' \<and> wf_map m' \<and> only_solid m m'
     \<and> (\<forall>x y. solid_at m' x y = (if in_area a x y \<and> (x, y) \<in> R then v else solid_at m x y))))"

lemma marks_run:
  assumes "marks v a f R" and "wf_map m" and "area m = a"
  shows "\<exists>m'. f m = Some m' \<and> wf_map m' \<and> only_solid m m' \<and> area m' = a
    \<and> (\<forall>x y. solid_at m' x y = (if in_area a x y \<and> (x, y) \<in> R then v else solid_at m x y))"
proof -
  from assms obtain m' where m: "f m = Some m'" "wf_map m'" "only_solid m m'"
    "\<forall>x y. solid_at m' x y = (if in_area a x y \<and> (x, y) \<in> R then v else solid_at m x y)"
    unfolding marks_def by blast
  then show ?thesis using only_solidD(1)[OF m(3)] assms(3) by auto
qed

lemma marks_id: "marks v a Some {}"
  by (auto simp: marks_def)

lemma marks_comp:
  assumes "marks v a f R" and "marks v a g S"
  shows "marks v a (\<lambda>m. f m \<bind> g) (R \<union> S)"
  unfolding marks_def
proof (intro allI impI)
  fix m assume "wf_map m \<and> area m = a"
  then have m: "wf_map m" "area m = a" by simp_all
  obtain m1 where 1: "f m = Some m1" "wf_map m1" "only_solid m m1" "area m1 = a"
    "\<forall>x y. solid_at m1 x y = (if in_area a x y \<and> (x, y) \<in> R then v else solid_at m x y)"
    using marks_run[OF assms(1) m] by blast
  obtain m2 where 2: "g m1 = Some m2" "wf_map m2" "only_solid m1 m2"
    "\<forall>x y. solid_at m2 x y = (if in_area a x y \<and> (x, y) \<in> S then v else solid_at m1 x y)"
    using marks_run[OF assms(2) 1(2,4)] by blast
  have m2: "only_solid m m2" by (rule only_solid_trans[OF 1(3) 2(3)])
  then show "\<exists>m'. f m \<bind> g = Some m' \<and> wf_map m' \<and> only_solid m m'
     \<and> (\<forall>x y. solid_at m' x y = (if in_area a x y \<and> (x, y) \<in> R \<union> S then v else solid_at m x y))"
  proof (intro exI[of _ m2] conjI allI)
    show "f m \<bind> g = Some m2" using 1(1) 2(1) by simp
    show "solid_at m2 x y = (if in_area a x y \<and> (x, y) \<in> R \<union> S then v else solid_at m x y)" for x y
      using 2(4) 1(5) by auto
    show "wf_map m2" by (rule 2(2))
    show "only_solid m m2" by (rule m2)
  qed
qed

lemma marks_for_each:
  "(\<And>p. p \<in> set ps \<Longrightarrow> marks v a (f p) (R p)) \<Longrightarrow> marks v a (for_each f ps) (\<Union>p \<in> set ps. R p)"
proof (induction ps)
  case Nil
  then show ?case using marks_id by (simp add: fun_eq_iff[symmetric] marks_def)
next
  case (Cons p ps)
  have "marks v a (\<lambda>m. f p m \<bind> for_each f ps) (R p \<union> (\<Union>p \<in> set ps. R p))"
    by (rule marks_comp) (use Cons in auto)
  moreover have "for_each f (p # ps) = (\<lambda>m. f p m \<bind> for_each f ps)" by (simp add: fun_eq_iff)
  ultimately show ?case by simp
qed

lemma index_inj:
  fixes w :: int
  assumes "0 \<le> x" "x < w" "0 \<le> x'" "x' < w" "y * w + x = y' * w + x'"
  shows "x = x' \<and> y = y'"
proof -
  have "(y * w + x) div w = y" "(y' * w + x') div w = y'" using assms(1-4) by auto
  then show ?thesis using assms(5) by auto
qed

lemma index_bounds:
  fixes w :: int
  assumes "0 \<le> x" "x < w" "0 \<le> y" "y < h"
  shows "0 \<le> y * w + x" "y * w + x < w * h"
proof -
  have "0 \<le> y * w" using assms by simp
  then show "0 \<le> y * w + x" using assms(1) by simp
  have "(y + 1) * w \<le> h * w" using assms by (intro mult_right_mono) auto
  then show "y * w + x < w * h" using assms(2) by (simp add: algebra_simps)
qed

lemma marks_set_solid: "marks v a (set_solid x y v) {(x, y)}"
  unfolding marks_def
proof (intro allI impI)
  fix m assume m: "wf_map m \<and> area m = a"
  show "\<exists>m'. set_solid x y v m = Some m' \<and> wf_map m' \<and> only_solid m m'
     \<and> (\<forall>x' y'. solid_at m' x' y' = (if in_area a x' y' \<and> (x', y') \<in> {(x, y)} then v else solid_at m x' y'))"
  proof (cases "in_area a x y")
    case False
    then show ?thesis using m by (intro exI[of _ m]) (auto simp: set_solid_def wf_map_def in_area_def)
  next
    case True
    let ?i = "\<lambda>x y. nat (y * rw a + x)"
    let ?m = "m\<lparr>solid := (solid m)[?i x y := v]\<rparr>"
    have len: "?i x y < length (solid m)" if "in_area a x y" for x y
      proof -
      have "0 \<le> y * rw a + x" "y * rw a + x < int (length (solid m))"
        using that m index_bounds[of x "rw a" y "rh a"] by (auto simp: wf_map_def in_area_def)
      then show ?thesis by linarith
    qed
    have inj: "?i x' y' = ?i x y \<longleftrightarrow> x' = x \<and> y' = y" if "in_area a x' y'" for x' y'
    proof -
      have "0 \<le> y * rw a + x" "0 \<le> y' * rw a + x'"
        using that True index_bounds(1)[of x "rw a" y "rh a"] index_bounds(1)[of x' "rw a" y' "rh a"] by (simp_all add: in_area_def)
      then have "?i x' y' = ?i x y \<longleftrightarrow> y * rw a + x = y' * rw a + x'" by auto
      then show ?thesis using that True index_inj[of x "rw a" x' y y'] by (auto simp: in_area_def)
    qed
    have "solid_at ?m x' y' = (if in_area a x' y' \<and> (x', y') = (x, y) then v else solid_at m x' y')" for x' y'
    proof (cases "in_area a x' y'")
      case True
      then have "solid_at ?m x' y' = (solid m)[?i x y := v] ! ?i x' y'" "solid_at m x' y' = solid m ! ?i x' y'"
        using m by (simp_all add: solid_at_def in_area_def)
      then show ?thesis using True inj[OF True] len[OF \<open>in_area a x y\<close>] by (simp add: nth_list_update_if eq_commute)
    next
      case False
      then show ?thesis using m by (auto simp: solid_at_def in_area_def)
    qed
    moreover have "set_solid x y v m = Some ?m" using True m by (auto simp: set_solid_def wf_map_def in_area_def)
    ultimately show ?thesis using m by (intro exI[of _ ?m]) (auto simp: wf_map_def)
  qed
qed

text \<open>A map whose pixels are all the same.\<close>

lemma wf_uniform: "wf_rect a \<Longrightarrow> wf_map (new_solid_map\<lparr>map_id := i, area := a, solid := replicate (nat (rw a * rh a)) v\<rparr>)"
  by (simp add: wf_map_def wf_rect_def rw_eq)

lemma solid_at_uniform:
  assumes "wf_rect a"
  shows "solid_at (new_solid_map\<lparr>map_id := i, area := a, solid := replicate (nat (rw a * rh a)) v\<rparr>) x y
    \<longleftrightarrow> in_area a x y \<and> v"
proof (cases "in_area a x y")
  case True
  then have "nat (y * rw a + x) < nat (rw a * rh a)"
    using index_bounds[of x "rw a" y "rh a"] by (auto simp: in_area_def)
  then show ?thesis using True by (simp add: solid_at_def in_area_def)
qed (auto simp: solid_at_def in_area_def)

lemma marks_uniform:
  assumes "marks v a f R" and "wf_rect a"
  shows "\<exists>m. f (new_solid_map\<lparr>map_id := i, area := a, solid := replicate (nat (rw a * rh a)) b\<rparr>) = Some m
    \<and> wf_map m \<and> area m = a \<and> (\<forall>x y. solid_at m x y \<longleftrightarrow> in_area a x y \<and> (if (x, y) \<in> R then v else b))"
proof -
  let ?m = "new_solid_map\<lparr>map_id := i, area := a, solid := replicate (nat (rw a * rh a)) b\<rparr>"
  have "area ?m = a" by simp
  then obtain m where "f ?m = Some m" "wf_map m" "area m = a"
    "\<forall>x y. solid_at m x y = (if in_area a x y \<and> (x, y) \<in> R then v else solid_at ?m x y)"
    using marks_run[OF assms(1) wf_uniform[OF assms(2)]] by blast
  moreover have "solid_at m x y \<longrightarrow> in_area (area m) x y" for x y by (simp add: solid_at_iff)
  ultimately show ?thesis using solid_at_uniform[OF assms(2)] by (intro exI[of _ m]) (auto split: if_splits)
qed

section \<open>Sides\<close>

lemma positions_Suc: "positions w (1 + int n) = positions w (int n) @ map (\<lambda>x. (x, int n)) [0..w - 1]"
proof -
  have "[0..1 + int n - 1] = [0..int n - 1] @ [int n]" using upto_rec2[of 0 "int n"] by simp
  then show ?thesis by (simp add: positions_def)
qed

lemma length_positions: "length (positions w (int n)) = nat w * n"
  by (induction n) (simp_all add: positions_Suc, simp add: positions_def add.commute)

lemma enumerate_positions:
  "(i, x, y) \<in> set (enumerate 0 (positions w (int n))) \<longleftrightarrow> 0 \<le> x \<and> x < w \<and> 0 \<le> y \<and> y < int n \<and> i = nat (y * w + x)"
proof (induction n)
  case 0
  then show ?case by (simp add: positions_def)
next
  case (Suc n)
  have row: "(i, x, y) \<in> set (enumerate k (map (\<lambda>x. (x, int n)) [0..w - 1])) \<longleftrightarrow> 0 \<le> x \<and> x < w \<and> y = int n \<and> i = k + nat x" for k
  proof -
    have "(i, x, y) \<in> set (enumerate k (map (\<lambda>x. (x, int n)) [0..w - 1]))
        \<longleftrightarrow> k \<le> i \<and> i - k < nat w \<and> int (i - k) = x \<and> y = int n"
      by (auto simp: in_set_enumerate_eq nth_upto)
    also have "\<dots> \<longleftrightarrow> 0 \<le> x \<and> x < w \<and> y = int n \<and> i = k + nat x" by auto
    finally show ?thesis .
  qed
  have "nat (int n * w + x) = nat w * n + nat x" if "0 \<le> x" "x < w"
    using that by (simp add: nat_add_distrib nat_mult_distrib mult.commute)
  moreover have "(i, x, y) \<in> set (enumerate 0 (positions w (int (Suc n)))) \<longleftrightarrow>
      (i, x, y) \<in> set (enumerate 0 (positions w (int n)))
      \<or> (i, x, y) \<in> set (enumerate (nat w * n) (map (\<lambda>x. (x, int n)) [0..w - 1]))"
    by (simp add: positions_Suc enumerate_append_eq length_positions)
  ultimately have "(i, x, y) \<in> set (enumerate 0 (positions w (int (Suc n)))) \<longleftrightarrow>
      0 \<le> x \<and> x < w \<and> (0 \<le> y \<and> y < int n \<and> i = nat (y * w + x) \<or> y = int n \<and> i = nat (y * w + x))"
    unfolding Suc row by (auto simp del: of_nat_Suc)
  then show ?case by auto
qed

definition in_map :: "solid_map \<Rightarrow> int \<Rightarrow> int \<Rightarrow> point" where
  "in_map m x y = Point (rx (area m) + x) (ry (area m) + y)"

text \<open>The points that are solid and whose neighbour in a direction is not.\<close>

definition side :: "solid_map \<Rightarrow> int \<Rightarrow> int \<Rightarrow> point set" where
  "side m xdir ydir = {in_map m x y | x y. solid_at m x y \<and> \<not> solid_at m (x + xdir) (y + ydir)}"

lemma calculate_side_set:
  assumes "wf_map m"
  shows "set (calculate_side m xdir ydir) = side m xdir ydir"
proof -
  have h: "rh (area m) = int (nat (rh (area m)))" using assms by (simp add: wf_map_def wf_rect_def rw_eq)
  have pos: "(i, x, y) \<in> set (enumerate 0 (positions (rw (area m)) (rh (area m)))) \<longleftrightarrow> in_area (area m) x y \<and> i = nat (y * rw (area m) + x)"
    for i x y
    by (subst h, subst enumerate_positions) (use h in \<open>auto simp: in_area_def\<close>)
  have "set (calculate_side m xdir ydir)
      = {in_map m x y | x y. (in_area (area m) x y \<and> solid m ! nat (y * rw (area m) + x)) \<and> \<not> solid_at m (x + xdir) (y + ydir)}"
    (is "_ = ?points")
  proof (intro equalityI subsetI)
    fix p assume "p \<in> set (calculate_side m xdir ydir)"
    then obtain i x y where "(i, x, y) \<in> set (enumerate 0 (positions (rw (area m)) (rh (area m))))" "solid m ! i"
      "\<not> solid_at m (x + xdir) (y + ydir)" "p = in_map m x y"
      unfolding calculate_side_def in_map_def by auto
    then show "p \<in> ?points" using pos by auto
  next
    fix p assume "p \<in> ?points"
    then obtain x y where x: "p = in_map m x y" "in_area (area m) x y" "solid m ! nat (y * rw (area m) + x)"
      "\<not> solid_at m (x + xdir) (y + ydir)" by blast
    then have "(nat (y * rw (area m) + x), x, y) \<in> set (enumerate 0 (positions (rw (area m)) (rh (area m))))" using pos by simp
    then show "p \<in> set (calculate_side m xdir ydir)"
      unfolding calculate_side_def using x by (intro image_eqI[where x = "(nat (y * rw (area m) + x), x, y)", THEN set_map[THEN equalityD2, THEN subsetD]]) (auto simp: in_map_def)
  qed
  then show ?thesis unfolding side_def solid_at_iff[symmetric] .
qed

lemma calculate_side_distinct:
  assumes "wf_map m"
  shows "distinct (calculate_side m xdir ydir)"
proof -
  let ?all = "enumerate 0 (positions (rw (area m)) (int (nat (rh (area m)))))"
  have h: "int (nat (rh (area m))) = rh (area m)" using assms by (simp add: wf_map_def wf_rect_def rw_eq)
  have "inj_on (\<lambda>(index, x, y). Point (rx (area m) + x) (ry (area m) + y)) (set ?all)"
    unfolding inj_on_def by (clarify, simp only: enumerate_positions) simp
  then show ?thesis
    unfolding calculate_side_def h by (auto simp: distinct_map intro: inj_on_subset)
qed

section \<open>Textures: the area that is left\<close>

text \<open>The rectangle lies in the texture.\<close>

definition inside :: "texture \<Rightarrow> rect \<Rightarrow> bool" where
  "inside t a \<longleftrightarrow> wf_rect a \<and> 0 \<le> rx a \<and> rx2 a \<le> t_width t \<and> 0 \<le> ry a
     \<and> ry2 a * t_width t \<le> int (length (alpha_map t)) \<and> length (alpha_map t) < 4294967296"

definition opaque :: "texture \<Rightarrow> int \<Rightarrow> int \<Rightarrow> bool" where
  "opaque t x y \<longleftrightarrow> is_alpha t x y = Some False"

definition in_rect :: "rect \<Rightarrow> int \<Rightarrow> int \<Rightarrow> bool" where
  "in_rect a x y \<longleftrightarrow> point_in_rect (Point x y) a"

lemma in_rect_iff: "in_rect a x y \<longleftrightarrow> rx a \<le> x \<and> x < rx2 a \<and> ry a \<le> y \<and> y < ry2 a"
  by (auto simp: in_rect_def point_in_rect_def)

lemma is_alpha_inside:
  assumes "inside t a" and "in_rect a x y"
  shows "is_alpha t x y = Some (\<not> opaque t x y)"
proof -
  have b: "0 \<le> x" "x < t_width t" "0 \<le> y" "y < ry2 a" using assms by (auto simp: inside_def in_rect_iff)
  have "0 \<le> y * t_width t + x" "y * t_width t + x < t_width t * ry2 a" using index_bounds[OF b] by auto
  moreover have "t_width t * ry2 a \<le> int (length (alpha_map t))" "length (alpha_map t) < 4294967296"
    using assms(1) by (auto simp: inside_def mult.commute)
  ultimately have "nat ((y * t_width t + x) mod 4294967296) < length (alpha_map t)" by simp
  then show ?thesis by (auto simp: opaque_def is_alpha_def Let_def)
qed

lemma any_opaque_inside:
  "inside t a \<Longrightarrow> (\<And>x y. (x, y) \<in> set ps \<Longrightarrow> in_rect a x y) \<Longrightarrow> any_opaque t ps = Some (\<exists>(x, y) \<in> set ps. opaque t x y)"
proof (induction ps)
  case (Cons p ps)
  obtain x y where p: "p = (x, y)" by fastforce
  have "in_rect a x y" using Cons.prems(2)[of x y] p by simp
  moreover have "any_opaque t ps = Some (\<exists>(x, y) \<in> set ps. opaque t x y)"
    using Cons.prems(2) by (intro Cons.IH[OF Cons.prems(1)]) simp
  ultimately show ?case using is_alpha_inside[OF Cons.prems(1)] p by auto
qed simp

definition on_edge :: "edge \<Rightarrow> rect \<Rightarrow> int \<Rightarrow> int \<Rightarrow> bool" where
  "on_edge e a x y \<longleftrightarrow> in_rect a x y \<and> (case e of Bottom_Edge \<Rightarrow> y = ry2 a - 1 | Top_Edge \<Rightarrow> y = ry a
     | Left_Edge \<Rightarrow> x = rx a | Right_Edge \<Rightarrow> x = rx2 a - 1)"

lemma shift_image: "(\<exists>i \<in> {0..w - 1}. x = c + i) \<longleftrightarrow> c \<le> x \<and> x < c + (w :: int)"
  by (auto intro!: bexI[of _ "x - c"])

lemma edge_pixels_iff:
  assumes "wf_rect a" and "0 < extent e a"
  shows "(x, y) \<in> set (edge_pixels e a) \<longleftrightarrow> on_edge e a x y"
proof -
  have "(x, y) \<in> set (edge_pixels Bottom_Edge a) \<longleftrightarrow> (\<exists>i \<in> {0..rw a - 1}. x = rx a + i) \<and> y = ry2 a - 1"
    "(x, y) \<in> set (edge_pixels Top_Edge a) \<longleftrightarrow> (\<exists>i \<in> {0..rw a - 1}. x = rx a + i) \<and> y = ry a"
    "(x, y) \<in> set (edge_pixels Left_Edge a) \<longleftrightarrow> x = rx a \<and> (\<exists>i \<in> {0..rh a - 1}. y = ry a + i)"
    "(x, y) \<in> set (edge_pixels Right_Edge a) \<longleftrightarrow> x = rx2 a - 1 \<and> (\<exists>i \<in> {0..rh a - 1}. y = ry a + i)"
    by (auto simp: image_iff)
  then show ?thesis
    using assms unfolding shift_image by (cases e) (auto simp: on_edge_def extent_def in_rect_iff rw_eq)
qed

lemma without_edge_iff:
  assumes "wf_rect a" and "0 < extent e a"
  shows "in_rect (without_edge e a) x y \<longleftrightarrow> in_rect a x y \<and> \<not> on_edge e a x y" "wf_rect (without_edge e a)"
proof -
  show "in_rect (without_edge e a) x y \<longleftrightarrow> in_rect a x y \<and> \<not> on_edge e a x y"
    using assms by (cases e) (auto simp: on_edge_def extent_def in_rect_iff wf_rect_def rw_eq)
  show "wf_rect (without_edge e a)" by (cases e) auto
qed

lemma edge_pixels_inside:
  assumes "wf_rect a" and "0 < extent e a"
  shows "(x, y) \<in> set (edge_pixels e a) \<Longrightarrow> in_rect a x y"
    and "in_rect a x y \<Longrightarrow> (x, y) \<in> set (edge_pixels e a) \<or> in_rect (without_edge e a) x y"
    and "in_rect (without_edge e a) x y \<Longrightarrow> in_rect a x y"
  using edge_pixels_iff[OF assms] without_edge_iff(1)[OF assms] by (auto simp: on_edge_def)

lemma inside_without_edge:
  assumes "inside t a" and "0 < extent e a"
  shows "inside t (without_edge e a)"
proof -
  have "rx a \<le> rx (without_edge e a)" "rx2 (without_edge e a) \<le> rx2 a" "ry a \<le> ry (without_edge e a)"
    "ry2 (without_edge e a) \<le> ry2 a" "wf_rect (without_edge e a)"
    using assms by (cases e; auto simp: inside_def extent_def wf_rect_def rw_eq)+
  moreover have "ry2 (without_edge e a) * t_width t \<le> ry2 a * t_width t"
    using assms calculation by (intro mult_right_mono) (auto simp: inside_def wf_rect_def)
  ultimately show ?thesis using assms(1) by (auto simp: inside_def)
qed

text \<open>What is cut off is transparent.\<close>

lemma crop_inside:
  "inside t a \<Longrightarrow> \<exists>a'. crop t e a = Some a' \<and> inside t a' \<and> (\<forall>x y. in_rect a' x y \<longrightarrow> in_rect a x y)
    \<and> (\<forall>x y. in_rect a x y \<and> opaque t x y \<longrightarrow> in_rect a' x y)"
proof (induction t e a rule: crop.induct)
  case (1 t e a)
  show ?case
  proof (cases "extent e a > 0")
    case False
    then show ?thesis using 1(2) by (simp add: crop.simps[of t e a])
  next
    case True
    have wf: "wf_rect a" using 1(2) by (simp add: inside_def)
    note edge = edge_pixels_inside[OF wf True]
    let ?found = "\<exists>(x, y) \<in> set (edge_pixels e a). opaque t x y"
    have found: "any_opaque t (edge_pixels e a) = Some ?found"
      by (rule any_opaque_inside[OF 1(2)]) (rule edge(1))
    show ?thesis
    proof (cases ?found)
      case f: True
      have "crop t e a = Some a" unfolding crop.simps[of t e a] found using True f by (simp add: case_prod_beta)
      then show ?thesis using 1(2) by simp
    next
      case f: False
      have c: "crop t e a = crop t e (without_edge e a)" unfolding crop.simps[of t e a] found using True f by (simp add: case_prod_beta)
      obtain a' where a': "crop t e (without_edge e a) = Some a'" "inside t a'" "\<forall>x y. in_rect a' x y \<longrightarrow> in_rect (without_edge e a) x y"
        "\<forall>x y. in_rect (without_edge e a) x y \<and> opaque t x y \<longrightarrow> in_rect a' x y"
        using 1(1)[OF True found _ inside_without_edge[OF 1(2) True]] f by blast
      have "in_rect a' x y" if "in_rect a x y" "opaque t x y" for x y
        using a'(4) edge(2)[OF that(1)] that(2) f by blast
      then show ?thesis using c a' edge(3) by auto
    qed
  qed
qed

section \<open>Textures: the pixels at twice the size\<close>

definition opaque_in :: "texture \<Rightarrow> rect \<Rightarrow> int \<Rightarrow> int \<Rightarrow> bool" where
  "opaque_in t a x y \<longleftrightarrow> in_rect a x y \<and> opaque t x y"

text \<open>
  A pixel at twice the size is solid when the pixel of the texture is opaque, or when it is in the lower half of a
  transparent one, next to an opaque one, above an opaque one.
\<close>

definition solid_pixel :: "texture \<Rightarrow> rect \<Rightarrow> int \<Rightarrow> int \<Rightarrow> bool" where
  "solid_pixel t a x y \<longleftrightarrow> opaque_in t a (x div 2) (y div 2)
     \<or> odd y \<and> opaque_in t a (x div 2) (y div 2 + 1) \<and> opaque_in t a (x div 2 + (if odd x then 1 else - 1)) (y div 2)"

lemma mk_rect_dims: "0 \<le> w \<Longrightarrow> 0 \<le> h \<Longrightarrow> rw (mk_rect x y w h) = w \<and> rh (mk_rect x y w h) = h"
  by (simp add: rw_eq)

lemma double_div: "(2 * a + x) div 2 = a + x div (2 :: int)"
  by simp

lemma scaled_solid_eq:
  assumes "inside t a" and "in_area s x y" and "rw s = 2 * rw a" and "rh s = 2 * rh a"
  shows "scaled_solid t a s x y = Some (solid_pixel t a (2 * rx a + x) (2 * ry a + y))"
proof -
  have b: "0 \<le> x" "x < 2 * rw a" "0 \<le> y" "y < 2 * rh a" using assms(2-4) by (auto simp: in_area_def)
  have alpha: "is_alpha t u v = Some (\<not> opaque_in t a u v)" if "in_rect a u v" for u v
    using is_alpha_inside[OF assms(1) that] that by (simp add: opaque_in_def)
  have pixel: "in_rect a (rx a + x div 2) (ry a + y div 2)" using b by (auto simp: in_rect_iff rw_eq)
  have below: "in_rect a (rx a + x div 2) (ry a + y div 2 + 1) \<longleftrightarrow> y < rh s - 1" if "odd y"
    using that b assms(4) by (auto simp: in_rect_iff rw_eq elim!: oddE)
  have after: "in_rect a (rx a + x div 2 + 1) (ry a + y div 2) \<longleftrightarrow> x < rw s - 1" if "odd x"
    using that b assms(3) by (auto simp: in_rect_iff rw_eq elim!: oddE)
  have prior: "in_rect a (rx a + x div 2 - 1) (ry a + y div 2) \<longleftrightarrow> x > 0" if "even x"
    using that b by (auto simp: in_rect_iff rw_eq elim!: evenE)
  have no: "\<not> in_rect a u v \<Longrightarrow> \<not> opaque_in t a u v" for u v by (simp add: opaque_in_def)
  show ?thesis
  proof (cases "odd y \<and> y < rh s - 1")
    case False
    then show ?thesis using alpha[OF pixel] below no by (auto simp: scaled_solid_def solid_pixel_def add.assoc)
  next
    case y: True
    note low = alpha[OF below[THEN iffD2]]
    show ?thesis
    proof (cases "odd x")
      case True
      then show ?thesis using y alpha[OF pixel] low after[OF True] alpha[of "rx a + x div 2 + 1" "ry a + y div 2"] no
        by (auto simp: scaled_solid_def solid_pixel_def add.assoc)
    next
      case False
      then show ?thesis using y alpha[OF pixel] low prior alpha[of "rx a + x div 2 - 1" "ry a + y div 2"] no
        by (auto simp: scaled_solid_def solid_pixel_def add.assoc)
    qed
  qed
qed

lemma solid_pixel_in_area:
  assumes "solid_pixel t a x y" and "rw s = 2 * rw a" and "rh s = 2 * rh a"
  shows "in_area s (x - 2 * rx a) (y - 2 * ry a)"
proof -
  have "rx a \<le> x div 2 \<and> x div 2 < rx2 a \<and> ry a \<le> y div 2 \<and> y div 2 < ry2 a"
    using assms(1) by (auto simp: solid_pixel_def opaque_in_def in_rect_iff)
  then show ?thesis using assms(2,3) by (auto simp: in_area_def rw_eq)
qed

lemma set_positions: "(x, y) \<in> set (positions w h) \<longleftrightarrow> 0 \<le> x \<and> x < w \<and> 0 \<le> y \<and> y < h"
  by (auto simp: positions_def intro!: bexI[of _ y] image_eqI[of _ _ x])

lemma marks_if: "(b \<Longrightarrow> marks v a f R) \<Longrightarrow> marks v a (\<lambda>m. if b then f m else Some m) (if b then R else {})"
  by (cases b) (auto simp: marks_def)

lemma scaled_map:
  assumes t: "inside t a"
  defines "s \<equiv> mk_rect (rx a * 2) (ry a * 2) (rw a * 2) (rh a * 2)"
  shows "\<exists>m. for_each (\<lambda>(x, y) m. do { b \<leftarrow> scaled_solid t a s x y; if b then set_solid x y True m else Some m })
      (positions (rw s) (rh s)) (new_solid_map\<lparr>area := s, solid := replicate (nat (rw s * rh s)) False\<rparr>) = Some m
    \<and> wf_map m \<and> (\<forall>x y. solid_at m (x - rx (area m)) (y - ry (area m)) \<longleftrightarrow> solid_pixel t a x y)"
proof -
  have wf: "wf_rect a" using t by (simp add: inside_def)
  have dims: "rw s = 2 * rw a" "rh s = 2 * rh a" "rx s = 2 * rx a" "ry s = 2 * ry a" "wf_rect s"
    using wf by (simp_all add: s_def rw_eq wf_rect_def)
  let ?f = "\<lambda>(x, y) m. do { b \<leftarrow> scaled_solid t a s x y; if b then set_solid x y True m else Some m }"
  let ?R = "\<lambda>p. if solid_pixel t a (2 * rx a + fst p) (2 * ry a + snd p) then {p} else {}"
  have "marks True s (?f p) (?R p)" if "p \<in> set (positions (rw s) (rh s))" for p
  proof -
    obtain x y where p: "p = (x, y)" by fastforce
    have "in_area s x y" using that p set_positions by (simp add: in_area_def)
    note eq = scaled_solid_eq[OF t this dims(1,2)]
    have "marks True s (\<lambda>m. if solid_pixel t a (2 * rx a + x) (2 * ry a + y) then set_solid x y True m else Some m) (?R p)"
      unfolding p fst_conv snd_conv by (rule marks_if) (rule marks_set_solid)
    then show ?thesis using eq p by simp
  qed
  from marks_for_each[of "positions (rw s) (rh s)" True s ?f ?R, OF this]
  have marks: "marks True s (for_each ?f (positions (rw s) (rh s))) (\<Union>p \<in> set (positions (rw s) (rh s)). ?R p)" by blast
  let ?m = "new_solid_map\<lparr>map_id := [], area := s, solid := replicate (nat (rw s * rh s)) False\<rparr>"
  obtain m where m: "for_each ?f (positions (rw s) (rh s)) ?m = Some m" "wf_map m" "area m = s"
    "\<forall>x y. solid_at m x y \<longleftrightarrow> in_area s x y \<and> (if (x, y) \<in> (\<Union>p \<in> set (positions (rw s) (rh s)). ?R p) then True else False)"
    using marks_uniform[OF marks dims(5)] by blast
  have "solid_at m x y \<longleftrightarrow> in_area s x y \<and> solid_pixel t a (2 * rx a + x) (2 * ry a + y)" for x y
    using m(4) set_positions[of x y] by (auto simp: in_area_def split: if_splits)
  moreover have "2 * rx a + (x - 2 * rx a) = x" "2 * ry a + (y - 2 * ry a) = y" for x y by simp_all
  ultimately have "solid_at m (x - rx (area m)) (y - ry (area m)) \<longleftrightarrow> solid_pixel t a x y" for x y
    using solid_pixel_in_area[of t a _ _ s] dims m(3) by auto
  moreover have "?m = new_solid_map\<lparr>area := s, solid := replicate (nat (rw s * rh s)) False\<rparr>" by (simp add: new_solid_map_def)
  ultimately show ?thesis by (intro exI[of _ m] conjI allI) (use m(1,2) in simp_all)
qed

lemma crop_opaque:
  assumes "inside t a"
  shows "\<exists>a'. crop t e a = Some a' \<and> inside t a' \<and> (\<forall>x y. opaque_in t a' x y \<longleftrightarrow> opaque_in t a x y)"
proof -
  obtain a' where "crop t e a = Some a'" "inside t a'" "\<forall>x y. in_rect a' x y \<longrightarrow> in_rect a x y"
    "\<forall>x y. in_rect a x y \<and> opaque t x y \<longrightarrow> in_rect a' x y"
    using crop_inside[OF assms] by blast
  then show ?thesis unfolding opaque_in_def by blast
qed

text \<open>C13: The solid map of an image has exactly the pixels of the image at twice the size, whatever transparent margin the
  four loops cut off: those of opaque pixels, and in a transparent one its lower quarter in the corner between an
  opaque pixel beside it and one below the quarter. No pixel outside of the image is read.\<close>

theorem texture_map_exact:
  assumes "inside t a"
  shows "\<exists>m. create_from_texture t a = Some m \<and> wf_map m
    \<and> (\<forall>x y. solid_at m (x - rx (area m)) (y - ry (area m)) \<longleftrightarrow> solid_pixel t a x y)"
proof -
  obtain a1 where 1: "crop t Bottom_Edge a = Some a1" "inside t a1" "\<forall>x y. opaque_in t a1 x y \<longleftrightarrow> opaque_in t a x y"
    using crop_opaque[OF assms] by blast
  obtain a2 where 2: "crop t Top_Edge a1 = Some a2" "inside t a2" "\<forall>x y. opaque_in t a2 x y \<longleftrightarrow> opaque_in t a1 x y"
    using crop_opaque[OF 1(2)] by blast
  obtain a3 where 3: "crop t Left_Edge a2 = Some a3" "inside t a3" "\<forall>x y. opaque_in t a3 x y \<longleftrightarrow> opaque_in t a2 x y"
    using crop_opaque[OF 2(2)] by blast
  obtain a4 where 4: "crop t Right_Edge a3 = Some a4" "inside t a4" "\<forall>x y. opaque_in t a4 x y \<longleftrightarrow> opaque_in t a3 x y"
    using crop_opaque[OF 3(2)] by blast
  have "solid_pixel t a4 x y \<longleftrightarrow> solid_pixel t a x y" for x y using 1(3) 2(3) 3(3) 4(3) by (simp add: solid_pixel_def)
  then show ?thesis using scaled_map[OF 4(2)] 1(1) 2(1) 3(1) 4(1) by (simp add: create_from_texture_def Let_def)
qed

lemma texture_map_exact_witness:
  "\<exists>m. create_from_texture \<lparr>t_width = 2, alpha_map = [True, False, False, False]\<rparr> (mk_rect 0 0 2 2) = Some m
    \<and> wf_map m \<and> solid_at m (1 - rx (area m)) (1 - ry (area m)) \<and> \<not> solid_at m (1 - rx (area m)) (0 - ry (area m))"
proof -
  let ?t = "\<lparr>t_width = 2, alpha_map = [True, False, False, False]\<rparr>"
  have "inside ?t (mk_rect 0 0 2 2)" by (simp add: inside_def)
  then obtain m where "create_from_texture ?t (mk_rect 0 0 2 2) = Some m" "wf_map m"
    "\<forall>x y. solid_at m (x - rx (area m)) (y - ry (area m)) \<longleftrightarrow> solid_pixel ?t (mk_rect 0 0 2 2) x y"
    using texture_map_exact by blast
  moreover have "solid_pixel ?t (mk_rect 0 0 2 2) 1 1" "\<not> solid_pixel ?t (mk_rect 0 0 2 2) 1 0"
    by (simp_all add: solid_pixel_def opaque_in_def in_rect_iff opaque_def is_alpha_def)
  ultimately show ?thesis by blast
qed

text \<open>The map of an image has no points on its sides: the code never computes them.\<close>

lemma texture_map_without_sides:
  "map_option (\<lambda>m. (length (solid m), left m, right m, top m, bottom m, all m))
     (create_from_texture \<lparr>t_width = 1, alpha_map = [False]\<rparr> (mk_rect 0 0 1 1)) = Some (4, [], [], [], [], [])"
  by code_simp

section \<open>Objects\<close>

lemma solid_at_sides [simp]:
  "solid_at (m\<lparr>top := ps\<rparr>) = solid_at m" "solid_at (m\<lparr>bottom := ps\<rparr>) = solid_at m" "solid_at (m\<lparr>left := ps\<rparr>) = solid_at m"
  "solid_at (m\<lparr>right := ps\<rparr>) = solid_at m" "solid_at (m\<lparr>all := ps\<rparr>) = solid_at m"
  by (simp_all add: solid_at_def fun_eq_iff)

lemma side_sides [simp]:
  "side (m\<lparr>top := ps\<rparr>) = side m" "side (m\<lparr>bottom := ps\<rparr>) = side m" "side (m\<lparr>left := ps\<rparr>) = side m"
  "side (m\<lparr>right := ps\<rparr>) = side m" "side (m\<lparr>all := ps\<rparr>) = side m"
  by (simp_all add: side_def in_map_def fun_eq_iff)

lemma wf_map_sides [simp]:
  "wf_map (m\<lparr>top := ps\<rparr>) = wf_map m" "wf_map (m\<lparr>bottom := ps\<rparr>) = wf_map m" "wf_map (m\<lparr>left := ps\<rparr>) = wf_map m"
  "wf_map (m\<lparr>right := ps\<rparr>) = wf_map m" "wf_map (m\<lparr>all := ps\<rparr>) = wf_map m"
  by (simp_all add: wf_map_def)

text \<open>A loop that only sets pixels.\<close>

definition keeps :: "(solid_map \<Rightarrow> solid_map option) \<Rightarrow> bool" where
  "keeps f \<longleftrightarrow> (\<forall>m m'. wf_map m \<and> f m = Some m' \<longrightarrow> wf_map m' \<and> only_solid m m')"

lemma keepsD: "keeps f \<Longrightarrow> wf_map m \<Longrightarrow> f m = Some m' \<Longrightarrow> wf_map m' \<and> only_solid m m'"
  by (simp add: keeps_def)

lemma keeps_for_each: "(\<And>p. keeps (f p)) \<Longrightarrow> keeps (for_each f ps)"
proof (induction ps)
  case (Cons p ps)
  note f = Cons.prems[of p] and fs = Cons.IH[OF Cons.prems]
  show ?case unfolding keeps_def
  proof (intro allI impI)
    fix m m' assume m: "wf_map m \<and> for_each f (p # ps) m = Some m'"
    then obtain m1 where 1: "f p m = Some m1" "for_each f ps m1 = Some m'" by (auto simp: bind_eq_Some_conv)
    have 2: "wf_map m1 \<and> only_solid m m1" using keepsD[OF f _ 1(1)] m by simp
    then have "wf_map m' \<and> only_solid m1 m'" using keepsD[OF fs _ 1(2)] by simp
    then show "wf_map m' \<and> only_solid m m'" using 2 only_solid_trans by blast
  qed
qed (simp add: keeps_def)

lemma keeps_bind: "(\<And>x. keeps (g x)) \<Longrightarrow> keeps (\<lambda>m. r \<bind> (\<lambda>x. g x m))"
  unfolding keeps_def by (cases r) (simp, simp, blast)

lemma keeps_set_solid: "keeps (set_solid x y v)"
  by (auto simp: keeps_def set_solid_def wf_map_def split: if_splits)

lemma keeps_apply_offsets: "keeps (apply_offsets os)"
proof -
  have "keeps (for_each (\<lambda>x m. column_offset w os x \<bind> (\<lambda>offset. for_each (\<lambda>y. set_solid x y False) [0..offset - 1] m)) ps)" for w ps
    by (intro keeps_for_each keeps_bind keeps_set_solid)
  then have "keeps (\<lambda>m. chk32 (rw a * 1024) \<bind> (\<lambda>w. for_each (\<lambda>x m. column_offset (w div (int (length os) - 1)) os x
      \<bind> (\<lambda>offset. for_each (\<lambda>y. set_solid x y False) [0..offset - 1] m)) [0..rw a - 1] m))" for a
    by (rule keeps_bind)
  then show ?thesis unfolding keeps_def apply_offsets_def Let_def by auto
qed

text \<open>The points of a map.\<close>

definition map_points :: "solid_map \<Rightarrow> point set" where
  "map_points m = {in_map m x y | x y. solid_at m x y}"

lemma side_far:
  assumes "rw (area m) \<le> d"
  shows "side m (- d) 0 = map_points m"
proof -
  have "\<not> solid_at m (x - d) y" if "solid_at m x y" for x y
    using that assms by (auto simp: solid_at_iff in_area_def)
  then show ?thesis unfolding side_def map_points_def by auto
qed

text \<open>The sides of a map are the points at the border of its solid part, each of them once.\<close>

definition sides_ok :: "solid_map \<Rightarrow> bool" where
  "sides_ok m \<longleftrightarrow> wf_map m \<and> set (left m) = side m (- 1) 0 \<and> set (right m) = side m 1 0 \<and> set (all m) = map_points m
     \<and> set (top m) \<subseteq> side m 0 (- 1) \<and> set (bottom m) \<subseteq> side m 0 1
     \<and> distinct (left m) \<and> distinct (right m) \<and> distinct (top m) \<and> distinct (bottom m) \<and> distinct (all m)"

lemma body_map_sides:
  assumes "body_map a legs_height offsets = Some m" and "rw a \<le> 100000" and "wf_rect a" and "0 \<le> legs_height" and "legs_height < rh a"
  shows "sides_ok m" "set (top m) = side m 0 (- 1)" "legs_height = 0 \<Longrightarrow> set (bottom m) = side m 0 1" "legs_height \<noteq> 0 \<Longrightarrow> bottom m = []"
proof -
  let ?body = "mk_rect (rx a) (ry a) (rw a) (rh a - legs_height)"
  have w: "rw ?body \<le> 100000" using assms(2,3) by (simp add: rw_eq wf_rect_def)
  let ?m = "new_solid_map\<lparr>map_id := ''body'', area := ?body, solid := replicate (nat (rw ?body * rh ?body)) True\<rparr>"
  obtain m0 where m0: "(case offsets of None \<Rightarrow> Some ?m | Some os \<Rightarrow> apply_offsets os ?m) = Some m0"
    and m: "m = (let m = m0\<lparr>top := calculate_side m0 0 (- 1), left := calculate_side m0 (- 1) 0,
       right := calculate_side m0 1 0, all := calculate_side m0 (- 100000) 0\<rparr>
     in if legs_height = 0 then m\<lparr>bottom := calculate_side m0 0 1\<rparr> else m)"
    using assms(1) unfolding body_map_def Let_def
    by (auto simp: bind_eq_Some_conv calculate_side_def split: if_splits)
  have wf: "wf_map ?m" using wf_uniform[OF wf_mk_rect] .
  have "wf_map m0 \<and> only_solid ?m m0"
    using m0 keeps_apply_offsets wf unfolding keeps_def by (cases offsets) auto
  then have 0: "wf_map m0" "area m0 = ?body" "bottom m0 = []" using only_solidD[of ?m m0] by (auto simp: new_solid_map_def)
  note side = calculate_side_set[OF 0(1)] calculate_side_distinct[OF 0(1)]
  have "side m0 (- 100000) 0 = map_points m0" using side_far[of m0 100000] w 0(2) by simp
  then show "sides_ok m" "set (top m) = side m 0 (- 1)" "legs_height = 0 \<Longrightarrow> set (bottom m) = side m 0 1" "legs_height \<noteq> 0 \<Longrightarrow> bottom m = []"
    using side 0 by (auto simp: m Let_def sides_ok_def map_points_def in_map_def)
qed

lemma legs_map_sides:
  assumes "legs_map a legs_height = Some m" and "rw a \<le> 10000" and "wf_rect a"
  shows "sides_ok m" "set (bottom m) = side m 0 1" "rh a \<le> legs_height \<Longrightarrow> set (top m) = side m 0 (- 1)" "rh a > legs_height \<Longrightarrow> top m = []"
proof -
  let ?legs = "mk_rect (rx a) (ry2 a - legs_height) (rw a) legs_height"
  have w: "rw ?legs \<le> 10000" using assms(2,3) by (simp add: rw_eq wf_rect_def)
  let ?m = "new_solid_map\<lparr>map_id := ''legs'', area := ?legs, solid := replicate (nat (rw ?legs * rh ?legs)) False\<rparr>"
  obtain m0 where m0: "for_each (\<lambda>(x, y). set_solid x y True) (legs_positions (rw ?legs) (rh ?legs)) ?m = Some m0"
    and m: "m = (let m = (if rh a \<le> legs_height then m0\<lparr>top := calculate_side m0 0 (- 1)\<rparr> else m0)
      in m\<lparr>bottom := calculate_side m0 0 1, left := calculate_side m0 (- 1) 0, right := calculate_side m0 1 0,
           all := calculate_side m0 (- 10000) 0\<rparr>)"
    using assms(1) unfolding legs_map_def Let_def by (auto simp: bind_eq_Some_conv calculate_side_def split: if_splits)
  have wf: "wf_map ?m" using wf_uniform[OF wf_mk_rect] .
  have "keeps (for_each (\<lambda>(x, y). set_solid x y True) (legs_positions (rw ?legs) (rh ?legs)))"
    by (rule keeps_for_each) (simp add: keeps_set_solid split: prod.split)
  then have "wf_map m0 \<and> only_solid ?m m0" using m0 wf unfolding keeps_def by blast
  then have 0: "wf_map m0" "area m0 = ?legs" "top m0 = []" using only_solidD[of ?m m0] by (auto simp: new_solid_map_def)
  note side = calculate_side_set[OF 0(1)] calculate_side_distinct[OF 0(1)]
  have "side m0 (- 10000) 0 = map_points m0" using side_far[of m0 10000] w 0(2) by simp
  then show "sides_ok m" "set (bottom m) = side m 0 1" "rh a \<le> legs_height \<Longrightarrow> set (top m) = side m 0 (- 1)" "rh a > legs_height \<Longrightarrow> top m = []"
    using side 0 by (auto simp: m Let_def sides_ok_def map_points_def in_map_def)
qed

text \<open>C23: The maps of an object have on their sides exactly the points where their solid part ends, each once, and all
  its points in \<open>all\<close>; the top is computed for the highest map only and the bottom for the lowest one.\<close>

theorem object_sides:
  assumes "object_maps a legs_height offsets = Some maps" and "wf_rect a" and "rw a \<le> 10000" and "0 \<le> legs_height" and "0 < rh a"
  shows "maps \<noteq> [] \<and> length maps \<le> 2 \<and> (\<forall>m \<in> set maps. sides_ok m)
    \<and> set (top (hd maps)) = side (hd maps) 0 (- 1) \<and> (\<forall>m \<in> set (tl maps). top m = [])
    \<and> set (bottom (last maps)) = side (last maps) 0 1 \<and> (\<forall>m \<in> set (butlast maps). bottom m = [])"
proof (cases "legs_height < rh a")
  case True
  obtain m where m: "body_map a legs_height offsets = Some m"
    using assms(1) True by (auto simp: object_maps_def bind_eq_Some_conv split: if_splits)
  note body = body_map_sides[OF m _ assms(2,4) True]
  show ?thesis
  proof (cases "legs_height = 0")
    case True
    then have "maps = [m]" using assms(1,5) m by (simp add: object_maps_def)
    then show ?thesis using body assms(3) True by simp
  next
    case False
    obtain l where l: "legs_map a legs_height = Some l" "maps = [m, l]"
      using assms(1) True False m by (cases "legs_map a legs_height") (auto simp: object_maps_def)
    show ?thesis using body legs_map_sides[OF l(1) assms(3,2)] l(2) assms(3) True False by simp
  qed
next
  case False
  obtain l where l: "legs_map a (rh a) = Some l" "maps = [l]"
    using assms(1,5) False by (auto simp: object_maps_def)
  show ?thesis using legs_map_sides[OF l(1) assms(3,2)] l(2) by simp
qed

lemma object_sides_witness:
  "\<exists>maps. object_maps (mk_rect 4 4 6 6) 2 None = Some maps \<and> maps \<noteq> [] \<and> (\<forall>m \<in> set maps. sides_ok m)"
proof -
  have "object_maps (mk_rect 4 4 6 6) 2 None \<noteq> None" by code_simp
  then obtain maps where "object_maps (mk_rect 4 4 6 6) 2 None = Some maps" by blast
  then show ?thesis using object_sides[of "mk_rect 4 4 6 6" 2 None maps] by (auto simp: rw_eq)
qed

section \<open>The shape of objects\<close>

text \<open>The area above the legs, and below it rows that are narrower by a pixel on each side; the last row is empty.\<close>

definition object_pixel :: "rect \<Rightarrow> int \<Rightarrow> int \<Rightarrow> int \<Rightarrow> bool" where
  "object_pixel a legs x y \<longleftrightarrow> in_rect a x y
     \<and> (let k = y - (ry2 a - legs) in k < 0 \<or> k < legs - 1 \<and> rx a + k \<le> x \<and> x < rx2 a - k)"

lemma body_shape:
  assumes "wf_rect a" and "0 \<le> L" and "L < rh a"
  shows "\<exists>m. body_map a L None = Some m \<and> area m = mk_rect (rx a) (ry a) (rw a) (rh a - L)
    \<and> (\<forall>x y. solid_at m (x - rx (area m)) (y - ry (area m)) \<longleftrightarrow> in_rect a x y \<and> y < ry2 a - L)"
proof -
  let ?a = "mk_rect (rx a) (ry a) (rw a) (rh a - L)"
  have "in_area ?a (x - rx ?a) (y - ry ?a) \<longleftrightarrow> in_rect a x y \<and> y < ry2 a - L" for x y
    using assms by (auto simp: in_area_def in_rect_iff rw_eq wf_rect_def)
  moreover have "\<exists>m. body_map a L None = Some m \<and> area m = ?a \<and> (\<forall>x y. solid_at m x y \<longleftrightarrow> in_area ?a x y)"
    using solid_at_uniform[OF wf_mk_rect, of "rx a" "ry a" "rw a" "rh a - L", where i = "''body''" and v = True]
    by (cases "L = 0") (simp_all add: body_map_def Let_def del: mk_rect_sel)
  ultimately show ?thesis by auto
qed

lemma set_legs_positions: "(x, y) \<in> set (legs_positions w h) \<longleftrightarrow> 0 \<le> y \<and> y \<le> h - 2 \<and> y \<le> x \<and> x \<le> w - y - 1"
  by (auto simp: legs_positions_def intro!: bexI[of _ y] image_eqI[of _ _ x])

lemma legs_shape:
  assumes "wf_rect a" and "0 < L" and "L \<le> rh a"
  shows "\<exists>m. legs_map a L = Some m \<and> area m = mk_rect (rx a) (ry2 a - L) (rw a) L
    \<and> (\<forall>x y. solid_at m (x - rx (area m)) (y - ry (area m)) \<longleftrightarrow>
        in_rect a x y \<and> 0 \<le> y - (ry2 a - L) \<and> y - (ry2 a - L) < L - 1 \<and> rx a + (y - (ry2 a - L)) \<le> x \<and> x < rx2 a - (y - (ry2 a - L)))"
proof -
  let ?a = "mk_rect (rx a) (ry2 a - L) (rw a) L"
  let ?ps = "legs_positions (rw ?a) (rh ?a)"
  let ?m = "new_solid_map\<lparr>map_id := ''legs'', area := ?a, solid := replicate (nat (rw ?a * rh ?a)) False\<rparr>"
  have dims: "rw ?a = rw a" "rh ?a = L" "rx ?a = rx a" "ry ?a = ry2 a - L" using assms by (simp_all add: rw_eq wf_rect_def)
  have "marks True ?a (for_each (\<lambda>p. case p of (x, y) \<Rightarrow> set_solid x y True) ?ps) (\<Union>p \<in> set ?ps. {p})"
    by (rule marks_for_each) (simp add: marks_set_solid split: prod.split)
  then have marks: "marks True ?a (for_each (\<lambda>p. case p of (x, y) \<Rightarrow> set_solid x y True) ?ps) (set ?ps)" by simp
  obtain m where m: "for_each (\<lambda>p. case p of (x, y) \<Rightarrow> set_solid x y True) ?ps ?m = Some m" "area m = ?a"
    "\<forall>x y. solid_at m x y \<longleftrightarrow> in_area ?a x y \<and> (if (x, y) \<in> set ?ps then True else False)"
    using marks_uniform[OF marks wf_mk_rect] by blast
  have "solid_at m (x - rx a) (y - (ry2 a - L)) \<longleftrightarrow>
      in_rect a x y \<and> 0 \<le> y - (ry2 a - L) \<and> y - (ry2 a - L) < L - 1 \<and> rx a + (y - (ry2 a - L)) \<le> x \<and> x < rx2 a - (y - (ry2 a - L))" for x y
    using m(3) set_legs_positions[of "x - rx a" "y - (ry2 a - L)" "rw ?a" "rh ?a"] dims assms
    by (auto simp: in_area_def in_rect_iff rw_eq)
  then show ?thesis unfolding legs_map_def Let_def using m(1,2) dims(3,4) by simp
qed

lemma info_solid_at_iff: "info_solid_at ms x y \<noteq> None \<longleftrightarrow> (\<exists>m \<in> set ms. solid_at m (x - rx (area m)) (y - ry (area m)))"
  by (induction ms) auto

text \<open>The area of the information is the least rectangle around the areas of the maps.\<close>

definition hull_step :: "int \<times> int \<times> int \<times> int \<Rightarrow> rect \<Rightarrow> int \<times> int \<times> int \<times> int" where
  "hull_step b r = (case b of (x1, y1, x2, y2) \<Rightarrow> (min x1 (rx r), min y1 (ry r), max x2 (rx2 r), max y2 (ry2 r)))"

lemma create_hull:
  "create_from_solid_maps (m # ms) = (case foldl hull_step (rx (area m), ry (area m), rx2 (area m), ry2 (area m)) (map area ms)
     of (x1, y1, x2, y2) \<Rightarrow> Some \<lparr>info_solid = m # ms, info_area = from_coordinates x1 y1 (x2 - 1) (y2 - 1)\<rparr>)"
proof -
  have "foldl (\<lambda>(x1, y1, x2, y2) s.
              (if rx (area s) < x1 then rx (area s) else x1, if ry (area s) < y1 then ry (area s) else y1,
               if rx2 (area s) > x2 then rx2 (area s) else x2, if ry2 (area s) > y2 then ry2 (area s) else y2)) b ms
      = foldl hull_step b (map area ms)" for b :: "int \<times> int \<times> int \<times> int" and ms :: "solid_map list"
    by (induction ms arbitrary: b) (auto simp: hull_step_def min_def max_def split: prod.split)
  then show ?thesis by (simp add: create_from_solid_maps_def hull_step_def)
qed

text \<open>C15: The pixels of an object are those of its area above the legs, and below it rows that lose a pixel on each side
  with every row down to the feet; the legs are at most as high as the area, and the area of the whole is that of the
  object.\<close>

theorem object_shape:
  assumes "wf_rect a" and "0 < rh a" and "0 \<le> legs_height"
  shows "\<exists>maps. object_maps a legs_height None = Some maps
    \<and> (\<forall>x y. info_solid_at maps x y \<noteq> None \<longleftrightarrow> object_pixel a (min legs_height (rh a)) x y)
    \<and> create_from_solid_maps maps = Some \<lparr>info_solid = maps, info_area = a\<rparr>"
proof -
  have area: "from_coordinates (rx a) (ry a) (rx2 a - 1) (ry2 a - 1) = a" by (rule from_coordinates_of_rect[OF assms(1)])
  have w: "rx a \<le> rx2 a" "rx a + rw a = rx2 a" using assms(1) by (simp_all add: wf_rect_def)
  show ?thesis
  proof (cases "legs_height < rh a")
    case False
    then have L: "min legs_height (rh a) = rh a" by simp
    obtain m where m: "legs_map a (rh a) = Some m" "area m = mk_rect (rx a) (ry2 a - rh a) (rw a) (rh a)"
      "\<forall>x y. solid_at m (x - rx (area m)) (y - ry (area m)) \<longleftrightarrow> in_rect a x y \<and> 0 \<le> y - (ry2 a - rh a) \<and> y - (ry2 a - rh a) < rh a - 1
        \<and> rx a + (y - (ry2 a - rh a)) \<le> x \<and> x < rx2 a - (y - (ry2 a - rh a))"
      using legs_shape[OF assms(1,2)] by auto
    have "info_solid_at [m] x y \<noteq> None \<longleftrightarrow> object_pixel a (rh a) x y" for x y
      unfolding info_solid_at_iff using m(3) by (auto simp: object_pixel_def Let_def in_rect_iff rw_eq)
    moreover have "area m = a" unfolding m(2) by (rule rect_eqI) (use assms(2) w in \<open>auto simp: rw_eq\<close>)
    ultimately show ?thesis using False m(1) assms(2) area L by (simp add: object_maps_def create_hull)
  next
    case True
    then have L: "min legs_height (rh a) = legs_height" by simp
    obtain b where b: "body_map a legs_height None = Some b" "area b = mk_rect (rx a) (ry a) (rw a) (rh a - legs_height)"
      "\<forall>x y. solid_at b (x - rx (area b)) (y - ry (area b)) \<longleftrightarrow> in_rect a x y \<and> y < ry2 a - legs_height"
      using body_shape[OF assms(1,3) True] by blast
    show ?thesis
    proof (cases "legs_height = 0")
      case zero: True
      have "info_solid_at [b] x y \<noteq> None \<longleftrightarrow> object_pixel a 0 x y" for x y
        unfolding info_solid_at_iff using b(3) zero by (auto simp: object_pixel_def Let_def in_rect_iff)
      moreover have "area b = a" unfolding b(2) zero by (rule rect_eqI) (use assms(2) w in \<open>auto simp: rw_eq\<close>)
      ultimately show ?thesis using True zero b(1) area by (simp add: object_maps_def create_hull)
    next
      case False
      then have pos: "0 < legs_height" using assms(3) by simp
      obtain m where m: "legs_map a legs_height = Some m" "area m = mk_rect (rx a) (ry2 a - legs_height) (rw a) legs_height"
        "\<forall>x y. solid_at m (x - rx (area m)) (y - ry (area m)) \<longleftrightarrow> in_rect a x y \<and> 0 \<le> y - (ry2 a - legs_height)
          \<and> y - (ry2 a - legs_height) < legs_height - 1 \<and> rx a + (y - (ry2 a - legs_height)) \<le> x \<and> x < rx2 a - (y - (ry2 a - legs_height))"
        using legs_shape[OF assms(1) pos] True by auto
      have "info_solid_at [b, m] x y \<noteq> None \<longleftrightarrow> object_pixel a legs_height x y" for x y
        unfolding info_solid_at_iff using b(3) m(3) by (auto simp: object_pixel_def Let_def)
      moreover have "create_from_solid_maps [b, m] = Some \<lparr>info_solid = [b, m], info_area = a\<rparr>"
        using area w assms(2) True pos by (simp add: create_hull hull_step_def b(2) m(2) rw_eq min_def max_def)
      moreover have "object_maps a legs_height None = Some [b, m]" using True False b(1) m(1) by (simp add: object_maps_def)
      ultimately show ?thesis unfolding L by blast
    qed
  qed
qed

lemma object_shape_witness:
  "\<exists>maps. object_maps (mk_rect 10 20 6 8) 3 None = Some maps \<and> info_solid_at maps 10 25 \<noteq> None \<and> info_solid_at maps 10 26 = None"
proof -
  obtain maps where "object_maps (mk_rect 10 20 6 8) 3 None = Some maps"
    "\<forall>x y. info_solid_at maps x y \<noteq> None \<longleftrightarrow> object_pixel (mk_rect 10 20 6 8) (min 3 (rh (mk_rect 10 20 6 8))) x y"
    using object_shape[of "mk_rect 10 20 6 8" 3] by (auto simp: rw_eq)
  moreover have "object_pixel (mk_rect 10 20 6 8) (min 3 (rh (mk_rect 10 20 6 8))) 10 25"
    "\<not> object_pixel (mk_rect 10 20 6 8) (min 3 (rh (mk_rect 10 20 6 8))) 10 26"
    by (simp_all add: object_pixel_def in_rect_iff rw_eq)
  ultimately show ?thesis by blast
qed

section \<open>Offsets\<close>

lemma div_bounds:
  fixes s :: int
  assumes "0 < s"
  shows "s * lo \<le> v \<Longrightarrow> lo \<le> v div s" and "v \<le> s * hi \<Longrightarrow> v div s \<le> hi" and "v < s * hi \<Longrightarrow> v div s < hi" and "v < s * (v div s + 1)" and "s * (v div s) \<le> v"
proof -
  have v: "v = s * (v div s) + v mod s" "0 \<le> v mod s" "v mod s < s" using assms by simp_all
  show less: "v < s * (v div s + 1)" using v unfolding distrib_left mult_1_right by linarith
  show "s * (v div s) \<le> v" using v by linarith
  show "lo \<le> v div s" if "s * lo \<le> v"
  proof -
    have "s * lo < s * (v div s + 1)" using less that by linarith
    then show ?thesis using assms by simp
  qed
  show "v div s \<le> hi" if "v \<le> s * hi"
  proof -
    have "s * (v div s) \<le> s * hi" using v that by linarith
    then show ?thesis using assms by simp
  qed
  show "v div s < hi" if "v < s * hi"
  proof -
    have "s * (v div s) < s * hi" using v that by linarith
    then show ?thesis using assms by simp
  qed
qed

lemma sdiv_between:
  fixes s :: int
  assumes "0 < s" and "s * lo \<le> v" and "v \<le> s * hi"
  shows "lo \<le> v sdiv s \<and> v sdiv s \<le> hi"
proof (cases "0 \<le> v")
  case True
  then show ?thesis using assms div_bounds(1,2)[OF assms(1)] by (simp add: sdiv_nonneg)
next
  case False
  have "v sdiv s = - ((- v) div s)" using False assms(1) sdiv_uminus_left[of "- v" s] sdiv_nonneg[of "- v" s] by simp
  moreover have "- hi \<le> (- v) div s" "(- v) div s \<le> - lo" using assms by (auto intro: div_bounds(1,2)[OF assms(1)])
  ultimately show ?thesis by simp
qed

text \<open>The offset of a column lies between twice the given offsets around it.\<close>

lemma mix_between:
  fixes s :: int
  assumes "0 \<le> p" and "p \<le> s"
  shows "s * (2 * min a b) \<le> p * b * 2 + (s - p) * a * 2" and "p * b * 2 + (s - p) * a * 2 \<le> s * (2 * max a b)"
proof -
  have "p * min a b \<le> p * b" "(s - p) * min a b \<le> (s - p) * a" "p * b \<le> p * max a b" "(s - p) * a \<le> (s - p) * max a b"
    using assms by (auto intro: mult_left_mono)
  then show "s * (2 * min a b) \<le> p * b * 2 + (s - p) * a * 2" "p * b * 2 + (s - p) * a * 2 \<le> s * (2 * max a b)"
    by (simp_all add: algebra_simps)
qed

lemma column_offset_between:
  assumes w: "0 < w" "w * 1024 \<le> 2147483647" and n: "2 \<le> length os" "length os \<le> 1025"
    and os: "\<forall>z \<in> set os. \<bar>z\<bar> * (w * 2048) \<le> 2147483647" and x: "0 \<le> x" "x < w"
  defines "seg \<equiv> (w * 1024) div (int (length os) - 1)"
  defines "k \<equiv> nat ((x * 1024) div seg)"
  shows "\<exists>c. column_offset seg os x = Some c \<and> Suc k < length os
    \<and> 2 * min (os ! k) (os ! Suc k) \<le> c \<and> c \<le> 2 * max (os ! k) (os ! Suc k)"
proof -
  let ?n = "int (length os) - 1"
  have nn: "0 < ?n" "?n \<le> 1024" using n by auto
  have s: "0 < seg" using div_bounds(1)[OF nn(1), of 1 "w * 1024"] w nn(2) by (simp add: seg_def)
  have "seg * 1 \<le> seg * ?n" using nn(1) s by (intro mult_left_mono) auto
  also have "\<dots> \<le> w * 1024" using div_bounds(5)[OF nn(1), of "w * 1024"] unfolding seg_def by (simp only: mult.commute)
  finally have sw: "seg \<le> w * 1024" by simp
  have "w * 1024 < ?n * (seg + 1)" unfolding seg_def by (rule div_bounds(4)[OF nn(1)])
  then have "x * 1024 < seg * ?n" using x(2) nn(2) by (simp add: algebra_simps)
  then have kn: "(x * 1024) div seg < ?n" by (rule div_bounds(3)[OF s])
  have k0: "0 \<le> (x * 1024) div seg" using x(1) s by (intro div_bounds(1)[OF s]) simp
  have pos: "chk32 (x * 1024) = Some (x * 1024)" using x w by (simp add: i32_def)
  let ?p = "(x * 1024) mod seg"
  have p: "0 \<le> ?p" "?p \<le> seg" using s by (auto simp: less_imp_le)
  have kk: "Suc k < length os" "nat ((x * 1024) div seg + 1) = Suc k" using kn k0 by (auto simp: k_def)
  have small: "\<bar>q * z * 2\<bar> \<le> 2147483647" if "z \<in> set os" "0 \<le> q" "q \<le> seg" for q z
  proof -
    have "\<bar>z\<bar> * (q * 2) \<le> \<bar>z\<bar> * (w * 2048)" using that sw by (intro mult_left_mono) auto
    also have "\<dots> \<le> 2147483647" using os that(1) by blast
    finally show ?thesis using that(2) by (simp add: abs_mult mult.commute mult.left_commute)
  qed
  let ?a = "os ! k" and ?b = "os ! Suc k"
  have mem: "?a \<in> set os" "?b \<in> set os" using kk(1) by auto
  have ab: "chk32 (?p * ?b * 2) = Some (?p * ?b * 2)" "chk32 ((seg - ?p) * ?a * 2) = Some ((seg - ?p) * ?a * 2)"
    using small[OF mem(2), of ?p] small[OF mem(1), of "seg - ?p"] p unfolding chk32_eq_Some i32_def by linarith+
  note mix = mix_between[OF p, where a = "?a" and b = "?b"]
  have "- 2147483647 \<le> seg * (2 * z) \<and> seg * (2 * z) \<le> 2147483647" if "z \<in> set os" for z
    using small[OF that, of seg] s by (simp add: abs_le_iff)
  moreover have "min ?a ?b \<in> set os" "max ?a ?b \<in> set os" using mem by (simp_all add: min_def max_def)
  ultimately have "- 2147483647 \<le> seg * (2 * min ?a ?b)" "seg * (2 * max ?a ?b) \<le> 2147483647" by blast+
  then have c: "chk32 (?p * ?b * 2 + (seg - ?p) * ?a * 2) = Some (?p * ?b * 2 + (seg - ?p) * ?a * 2)"
    using mix by (auto simp: i32_def)
  have "column_offset seg os x = Some ((?p * ?b * 2 + (seg - ?p) * ?a * 2) sdiv seg)"
    unfolding column_offset_def pos using x(1) s kn k0 kk ab c
    by (simp add: Let_def sdiv_nonneg smod_nonneg k_def[symmetric] del: chk32_eq_Some)
  then show ?thesis using sdiv_between[OF s mix] kk(1) by blast
qed



end
