(* ===== verification/CT_Controls.thy ===== *)
theory CT_Controls
  imports CT_CLib
begin

text \<open>
  \<open>src/controls.hpp\<close> and \<open>src/controls.cpp\<close>: the input history of every player and the
  packets by which networked peers exchange it. The file-scope variables are the fields of one
  state record; an array indexed by player is a function on player numbers (only the first
  \<open>MAX_PLAYERS = 8\<close> exist, see \<open>wf_controls\<close>). The keyboard, the touch screen and the joystick,
  polled by the code, are an argument.
\<close>

unbundle bit_operations_syntax

section \<open>State\<close>

datatype sdlkey = SDLK_UP | SDLK_DOWN | SDLK_LEFT | SDLK_RIGHT | SDLK_a | SDLK_d | SDLK_s
  | SDLK_LCTRL | SDLK_RCTRL | SDLK_LALT | SDLK_RALT | SDLK_UNKNOWN | SDLK_OTHER nat

text \<open>\<open>enum CONTROL_ITEM\<close>: up, down, left, right, attack, jump, tongue.\<close>

abbreviation NUM_CONTROLS :: nat where "NUM_CONTROLS \<equiv> 7"

type_synonym byte = "8 word"

record controls_state =
  controls :: "nat \<Rightarrow> byte list"
  highest_confirmed :: "nat \<Rightarrow> int"
  remote_highest_confirmed :: "nat \<Rightarrow> int"
  our_checksums :: "int \<Rightarrow> int option"
  starting_cycles :: int
  nplayers :: int
  local_player :: int
  delay :: int
  first_invalid_cycle_var :: int
  npackets_received :: int
  ngood_packets :: int
  last_packet_size_var :: int
  local_control_locks :: "byte list" \<comment> \<open>top of the stack first\<close>
  key_ignore :: "nat \<Rightarrow> bool"
  sdlk :: "nat \<Rightarrow> sdlkey"

record input_state =
  key_down :: "sdlkey \<Rightarrow> bool"
  touch_enabled :: bool \<comment> \<open>\<open>!no_iphone_controls() && allow_touch_controls()\<close>\<close>
  touch :: "nat \<Rightarrow> bool"
  joy :: "nat \<Rightarrow> bool"

definition control_keys :: "sdlkey list" where
  "control_keys = [SDLK_LCTRL, SDLK_RCTRL, SDLK_LALT, SDLK_RALT]"

definition default_sdlk :: "nat \<Rightarrow> sdlkey" where
  "default_sdlk n = (if n < NUM_CONTROLS
     then [SDLK_UP, SDLK_DOWN, SDLK_LEFT, SDLK_RIGHT, SDLK_d, SDLK_a, SDLK_s] ! n else SDLK_UNKNOWN)"

definition local_valid :: "controls_state \<Rightarrow> bool" where
  "local_valid s \<longleftrightarrow> \<not> (local_player s < 0 \<or> local_player s \<ge> nplayers s)"

abbreviation lp :: "controls_state \<Rightarrow> nat" where "lp s \<equiv> nat (local_player s)"

text \<open>An \<open>int\<close> compared with a \<open>size_t\<close> is converted to 64 unsigned bits.\<close>

definition as_size :: "int \<Rightarrow> int" where
  "as_size x = x mod 18446744073709551616"

section \<open>Confirmed cycles\<close>

text \<open>The running minimum of the loops, where -1 stands for no value yet.\<close>

definition min_step :: "int \<Rightarrow> int \<Rightarrow> int" where
  "min_step x res = (if res = -1 \<or> x < res then x else res)"

definition our_highest_confirmed :: "controls_state \<Rightarrow> int" where
  "our_highest_confirmed s = fold (\<lambda>n. min_step (highest_confirmed s n)) [0..<nat (nplayers s)] (-1)"

definition their_highest_confirmed :: "controls_state \<Rightarrow> int" where
  "their_highest_confirmed s =
     fold (\<lambda>n res. if int n = local_player s then res
                   else min_step (remote_highest_confirmed s n) res) [0..<nat (nplayers s)] (-1)"

definition cycles_behind :: "controls_state \<Rightarrow> int" where
  "cycles_behind s =
     (if local_valid s then highest_confirmed s (lp s) - our_highest_confirmed s else 0)"

section \<open>Levels, backups and locks\<close>

definition new_level :: "int \<Rightarrow> int \<Rightarrow> int \<Rightarrow> controls_state \<Rightarrow> controls_state" where
  "new_level level_starting_cycles level_nplayers level_local_player s =
     s\<lparr>starting_cycles := level_starting_cycles, nplayers := level_nplayers,
       local_player := level_local_player, controls := (\<lambda>_. []),
       highest_confirmed := (\<lambda>_. 0), remote_highest_confirmed := (\<lambda>_. 0)\<rparr>"

record control_backup =
  b_controls :: "nat \<Rightarrow> byte list"
  b_highest_confirmed :: "nat \<Rightarrow> int"
  b_starting_cycles :: int

definition control_backup_scope :: "controls_state \<Rightarrow> control_backup" where
  "control_backup_scope s = \<lparr>b_controls = controls s, b_highest_confirmed = highest_confirmed s,
     b_starting_cycles = starting_cycles s\<rparr>"

definition end_backup_scope :: "control_backup \<Rightarrow> controls_state \<Rightarrow> controls_state" where
  "end_backup_scope b s = s\<lparr>starting_cycles := b_starting_cycles b, controls := b_controls b,
     highest_confirmed := b_highest_confirmed b\<rparr>"

definition ignore_current_keypresses :: "input_state \<Rightarrow> controls_state \<Rightarrow> controls_state" where
  "ignore_current_keypresses inp s =
     s\<lparr>key_ignore := (\<lambda>n. if n < NUM_CONTROLS then key_down inp (sdlk s n) else key_ignore s n)\<rparr>"

definition lock_controls :: "byte \<Rightarrow> controls_state \<Rightarrow> controls_state" where
  "lock_controls state s = s\<lparr>local_control_locks := state # local_control_locks s\<rparr>"

definition unlock_controls :: "input_state \<Rightarrow> controls_state \<Rightarrow> controls_state" where
  "unlock_controls inp s =
     (let s' = s\<lparr>local_control_locks := tl (local_control_locks s)\<rparr>
      in if local_control_locks s' = [] then ignore_current_keypresses inp s' else s')"

section \<open>Recording the local player\<close>

definition set_control :: "nat \<Rightarrow> byte \<Rightarrow> byte" where
  "set_control n state = state OR push_bit n 1"

text \<open>One iteration over the keyboard: the control bits so far and the ignored keys.\<close>

definition poll_key :: "input_state \<Rightarrow> (nat \<Rightarrow> sdlkey) \<Rightarrow> bool \<Rightarrow> nat \<Rightarrow>
    byte \<times> (nat \<Rightarrow> bool) \<Rightarrow> byte \<times> (nat \<Rightarrow> bool)" where
  "poll_key inp keys ignore_keypresses n acc = (case acc of (state, ign) \<Rightarrow>
     if key_down inp (keys n) \<and> \<not> ignore_keypresses
     then (if ign n then (state, ign) else (set_control n state, ign))
     else (state, ign(n := False)))"

definition poll_device :: "(nat \<Rightarrow> bool) \<Rightarrow> byte \<Rightarrow> byte" where
  "poll_device pressed state =
     fold (\<lambda>n st. if pressed n then set_control n st else st) [0..<NUM_CONTROLS] state"

definition read_devices :: "input_state \<Rightarrow> controls_state \<Rightarrow> byte \<times> (nat \<Rightarrow> bool)" where
  "read_devices inp s =
     (if local_control_locks s = []
      then (let ignore_keypresses = list_ex (key_down inp) control_keys
            in case fold (poll_key inp (sdlk s) ignore_keypresses) [0..<NUM_CONTROLS] (0, key_ignore s) of
                 (st0, ign) \<Rightarrow>
                   let st1 = (if touch_enabled inp then poll_device (touch inp) st0 else st0)
                   in (poll_device (joy inp) st1, ign))
      else (hd (local_control_locks s), key_ignore s))"

text \<open>\<open>while(v.size() < n) v.push_back(v.empty() ? 0 : v.back());\<close>\<close>

function repeat_last :: "nat \<Rightarrow> byte list \<Rightarrow> byte list" where
  "repeat_last n xs =
     (if length xs < n then repeat_last n (xs @ [if xs = [] then 0 else last xs]) else xs)"
  by pat_completeness auto
termination
  by (relation "measure (\<lambda>(n, xs). n - length xs)") auto

declare repeat_last.simps [simp del]

definition extend_others :: "nat \<Rightarrow> nat \<Rightarrow> (nat \<Rightarrow> byte list) \<Rightarrow> (nat \<Rightarrow> byte list)" where
  "extend_others players me ctl =
     fold (\<lambda>n c. if n \<noteq> me then c(n := repeat_last (length (c me)) (c n)) else c) [0..<players] ctl"

definition read_local_controls :: "input_state \<Rightarrow> controls_state \<Rightarrow> controls_state" where
  "read_local_controls inp s =
     (if \<not> local_valid s then s
      else case read_devices inp s of (state, ign) \<Rightarrow>
        let me = lp s;
            ctl = (controls s)(me := controls s me @ [state])
        in s\<lparr>key_ignore := ign,
             controls := extend_others (nat (nplayers s)) me ctl,
             highest_confirmed := (highest_confirmed s)(me := highest_confirmed s me + 1)\<rparr>)"

definition unread_local_controls :: "controls_state \<Rightarrow> controls_state" where
  "unread_local_controls s =
     (if \<not> local_valid s \<or> controls s (lp s) = [] then s
      else s\<lparr>controls := (controls s)(lp s := butlast (controls s (lp s))),
             highest_confirmed := (highest_confirmed s)(lp s := highest_confirmed s (lp s) - 1)\<rparr>)"

definition local_controls_end :: "controls_state \<Rightarrow> int" where
  "local_controls_end s = (if local_valid s then int (length (controls s (lp s))) else 0)"

definition set_sdlkey :: "nat \<Rightarrow> sdlkey \<Rightarrow> controls_state \<Rightarrow> controls_state" where
  "set_sdlkey item key s = (if item < NUM_CONTROLS then s\<lparr>sdlk := (sdlk s)(item := key)\<rparr> else s)"

definition get_sdlkey :: "nat \<Rightarrow> controls_state \<Rightarrow> sdlkey" where
  "get_sdlkey item s = (if item < NUM_CONTROLS then sdlk s item else SDLK_UNKNOWN)"

definition set_checksum :: "int \<Rightarrow> int \<Rightarrow> controls_state \<Rightarrow> controls_state" where
  "set_checksum cycle checksum s = s\<lparr>our_checksums := (our_checksums s)(cycle \<mapsto> checksum)\<rparr>"

definition mark_valid :: "controls_state \<Rightarrow> controls_state" where
  "mark_valid s = s\<lparr>first_invalid_cycle_var := -1\<rparr>"

definition set_delay :: "int \<Rightarrow> controls_state \<Rightarrow> controls_state" where
  "set_delay value s = s\<lparr>delay := value\<rparr>"

definition num_errors :: "controls_state \<Rightarrow> int" where
  "num_errors s = npackets_received s - ngood_packets s"

lemma extend_others_me [simp]: "extend_others players me ctl me = ctl me"
proof -
  have "fold (\<lambda>n c. if n \<noteq> me then c(n := repeat_last (length (c me)) (c n)) else c) ns ctl me = ctl me" for ns
    by (induction ns arbitrary: ctl) auto
  then show ?thesis by (simp add: extend_others_def)
qed

text \<open>\<open>read_until\<close> polls the devices again for every cycle it records: \<open>poll k\<close> is the input
  seen by the \<open>k\<close>-th of them.\<close>

function read_up_to :: "(nat \<Rightarrow> input_state) \<Rightarrow> nat \<Rightarrow> int \<Rightarrow> controls_state \<Rightarrow> controls_state" where
  "read_up_to poll k ncycle s =
     (if local_valid s \<and> int (length (controls s (lp s))) \<le> as_size ncycle
      then read_up_to poll (k + 1) ncycle (read_local_controls (poll k) s) else s)"
  by pat_completeness auto
termination
  by (relation "measure (\<lambda>(poll, k, ncycle, s). nat (as_size ncycle + 1 - int (length (controls s (lp s)))))")
     (auto simp: read_local_controls_def Let_def split: prod.splits)

function unread_down_to :: "int \<Rightarrow> controls_state \<Rightarrow> controls_state" where
  "unread_down_to ncycle s =
     (if local_valid s \<and> int (length (controls s (lp s))) > as_size (ncycle + 1)
      then unread_down_to ncycle (unread_local_controls s) else s)"
  by pat_completeness auto
termination
  by (relation "measure (\<lambda>(ncycle, s). length (controls s (lp s)))")
     (auto simp: unread_local_controls_def as_size_def split: if_splits)

declare read_up_to.simps [simp del] unread_down_to.simps [simp del]

definition read_until :: "(nat \<Rightarrow> input_state) \<Rightarrow> int \<Rightarrow> controls_state \<Rightarrow> controls_state" where
  "read_until poll ncycle s =
     (if \<not> local_valid s then s else unread_down_to ncycle (read_up_to poll 0 ncycle s))"

section \<open>Reading the controls of a cycle\<close>

datatype control_error = Remote_Timed_Out | Assert_Index

text \<open>
  \<open>wait\<close> is what \<open>multiplayer::receive()\<close>, called for up to a second, makes of the state. The
  result is the new state with the seven flags, or \<open>None\<close> for them when the array passed in is
  left as it was.
\<close>

definition get_control_status :: "(controls_state \<Rightarrow> controls_state) \<Rightarrow> int \<Rightarrow> int \<Rightarrow> controls_state \<Rightarrow>
    control_error + (controls_state \<times> bool list option)" where
  "get_control_status wait cycle0 player s0 =
     (let cycle = cycle0 - 1 - starting_cycles s0 - delay s0 in
      if cycle < 0 then Inr (s0, None)
      else
        let s = (if player \<noteq> local_player s0 \<and> cycle > highest_confirmed s0 (nat player)
                 then wait s0 else s0) in
        if player \<noteq> local_player s0 \<and> cycle > highest_confirmed s (nat player)
        then Inl Remote_Timed_Out
        else if cycle \<ge> int (length (controls s (nat player))) then Inl Assert_Index
        else (let state = controls s (nat player) ! nat cycle
              in Inr (s, Some (map (\<lambda>n. state AND push_bit n 1 \<noteq> 0) [0..<NUM_CONTROLS]))))"

section \<open>Packets\<close>

text \<open>\<open>htonl\<close> and \<open>ntohl\<close> around a \<open>memcpy\<close> of four bytes: big-endian two's complement.\<close>

definition be32 :: "int \<Rightarrow> byte list" where
  "be32 x = [word_of_int (x div 16777216), word_of_int (x div 65536),
             word_of_int (x div 256), word_of_int x]"

definition of_be32 :: "byte list \<Rightarrow> int" where
  "of_be32 bs = wrap32 (uint (bs ! 0) * 16777216 + uint (bs ! 1) * 65536
                        + uint (bs ! 2) * 256 + uint (bs ! 3))"

text \<open>\<open>our_checksums[i]\<close> inserts a zero for a missing key.\<close>

definition checksum_at :: "int \<Rightarrow> controls_state \<Rightarrow> int \<times> controls_state" where
  "checksum_at i s = (case our_checksums s i of
     Some v \<Rightarrow> (v, s)
   | None \<Rightarrow> (0, s\<lparr>our_checksums := (our_checksums s)(i \<mapsto> 0)\<rparr>))"

text \<open>
  How a packet is disposed of. \<open>Undefined\<close>: the code reads past the end of the buffer or overflows
  an \<open>int\<close>; \<open>Assert_Failed\<close>: the final assertion does not hold.
\<close>

datatype packet_outcome = Too_Short | Bad_Slot | Own_Slot | Out_Of_Order | Bad_Length
  | Accepted | Assert_Failed | Undefined

text \<open>
  The loop over the cycles of a packet: the controls of the sender, the first cycle to be
  recalculated and the bytes left. A byte of the buffer is a signed \<open>char\<close>, the recorded controls
  are \<open>unsigned char\<close>: the comparison is between their \<open>int\<close> values.
\<close>

function apply_cycles :: "int \<Rightarrow> int \<Rightarrow> byte list \<Rightarrow> byte list \<Rightarrow> int \<Rightarrow> (byte list \<times> int \<times> byte list) option" where
  "apply_cycles cycle current_cycle buf ctl first_invalid =
     (if cycle \<le> current_cycle
      then (case buf of
              [] \<Rightarrow> None
            | b # buf' \<Rightarrow>
                (if as_size cycle < int (length ctl)
                 then (if uint (ctl ! nat cycle) \<noteq> sint b
                       then apply_cycles (cycle + 1) current_cycle buf' (ctl[nat cycle := b])
                              (if first_invalid = -1 \<or> first_invalid > cycle then cycle else first_invalid)
                       else apply_cycles (cycle + 1) current_cycle buf' ctl first_invalid)
                 else apply_cycles (cycle + 1) current_cycle buf'
                        (grow (nat (as_size cycle) + 1) b ctl) first_invalid))
      else Some (ctl, first_invalid, buf))"
  by pat_completeness auto
termination
  by (relation "measure (\<lambda>(cycle, current_cycle, buf, ctl, fi). nat (current_cycle + 1 - cycle))") auto

declare apply_cycles.simps [simp del]

text \<open>\<open>for(n = current_cycle + 1; n < size; ++n) v[n] = v[current_cycle];\<close>\<close>

definition extend_last :: "int \<Rightarrow> byte list \<Rightarrow> byte list" where
  "extend_last current_cycle ctl =
     (if current_cycle < int (length ctl) - 1
      then fold (\<lambda>n xs. xs[n := xs ! nat current_cycle]) [nat (current_cycle + 1)..<length ctl] ctl
      else ctl)"

text \<open>The part of \<open>read_control_packet\<close> after the four header words have been read.\<close>

definition accept_cycles :: "nat \<Rightarrow> int \<Rightarrow> int \<Rightarrow> byte list \<Rightarrow> controls_state \<Rightarrow> controls_state \<times> packet_outcome" where
  "accept_cycles slot current_cycle ncycles buf s =
     (if int (length buf) \<noteq> ncycles then (s, Bad_Length)
      else if \<not> i32 (1 + current_cycle) then (s, Undefined)
      else
        let start_cycle = 1 + current_cycle - ncycles;
            diff = highest_confirmed s slot - start_cycle;
            (start', buf') = (if start_cycle < highest_confirmed s slot
                              then (highest_confirmed s slot, drop (nat diff) buf)
                              else (start_cycle, buf))
        in case apply_cycles start' current_cycle buf' (controls s slot) (first_invalid_cycle_var s) of
             None \<Rightarrow> (s, Undefined)
           | Some (ctl, first_invalid, rest) \<Rightarrow>
               let s' = s\<lparr>controls := (controls s)(slot := extend_last current_cycle ctl),
                          first_invalid_cycle_var := first_invalid,
                          highest_confirmed := (highest_confirmed s)(slot := current_cycle)\<rparr>
               in if rest \<noteq> [] then (s', Assert_Failed)
                  else (s'\<lparr>ngood_packets := ngood_packets s' + 1\<rparr>, Accepted))"

definition read_control_packet :: "byte list \<Rightarrow> controls_state \<Rightarrow> controls_state \<times> packet_outcome" where
  "read_control_packet buf s0 =
     (let s = s0\<lparr>npackets_received := npackets_received s0 + 1\<rparr> in
      if length buf < 13 then (s, Too_Short)
      else
        let slot = sint (buf ! 0) in
        if slot < 0 \<or> slot \<ge> nplayers s then (s, Bad_Slot)
        else if slot = local_player s then (s, Own_Slot)
        else
          let current_cycle = of_be32 (take 4 (drop 1 buf)) in
          if current_cycle < highest_confirmed s (nat slot) then (s, Out_Of_Order)
          else
            let checksum = of_be32 (take 4 (drop 5 buf));
                s1 = (if checksum \<noteq> 0 then snd (checksum_at (current_cycle - 1) s) else s);
                highest_cycle = of_be32 (take 4 (drop 9 buf));
                s2 = (if highest_cycle > remote_highest_confirmed s1 (nat slot)
                      then s1\<lparr>remote_highest_confirmed :=
                                (remote_highest_confirmed s1)(nat slot := highest_cycle)\<rparr>
                      else s1)
            in if length buf < 17 then (s2, Undefined)
               else accept_cycles (nat slot) current_cycle (of_be32 (take 4 (drop 13 buf))) (drop 17 buf) s2)"

definition write_control_packet :: "byte list \<Rightarrow> controls_state \<Rightarrow> byte list \<times> controls_state" where
  "write_control_packet v s =
     (if \<not> local_valid s then (v, s)
      else
        let ctl = controls s (lp s);
            current_cycle = wrap32 (int (length ctl) - 1);
            v1 = v @ [word_of_int (local_player s)] @ be32 current_cycle;
            (checksum, s1) = checksum_at (current_cycle - 1) s;
            v2 = v1 @ be32 checksum @ be32 (our_highest_confirmed s1);
            ncycles = 1 + current_cycle - their_highest_confirmed s1;
            s2 = s1\<lparr>last_packet_size_var := ncycles\<rparr>;
            ncycles' = (if as_size ncycles > int (length ctl) then int (length ctl) else ncycles)
        in (v2 @ be32 ncycles' @ drop (length ctl - nat ncycles') ctl, s2))"

section \<open>Helper lemmas\<close>

lemma as_size_id [simp]: "0 \<le> x \<Longrightarrow> x < 18446744073709551616 \<Longrightarrow> as_size x = x"
  by (simp add: as_size_def)

lemma be32_mod:
  fixes x :: int
  shows "x div 16777216 mod 256 * 16777216 + x div 65536 mod 256 * 65536 + x div 256 mod 256 * 256
           + x mod 256 = x mod 4294967296"
proof -
  have a: "x mod 4294967296 = 256 * (x div 256 mod 16777216) + x mod 256"
    using zmod_zmult2_eq[of 16777216 x 256] by simp
  have b: "x div 256 mod 16777216 = 256 * (x div 65536 mod 65536) + x div 256 mod 256"
    using zmod_zmult2_eq[of 65536 "x div 256" 256] by (simp flip: zdiv_zmult2_eq)
  have c: "x div 65536 mod 65536 = 256 * (x div 16777216 mod 256) + x div 65536 mod 256"
    using zmod_zmult2_eq[of 256 "x div 65536" 256] by (simp flip: zdiv_zmult2_eq)
  show ?thesis unfolding a b c by simp
qed

lemma uint_byte: "uint (word_of_int x :: byte) = x mod 256"
  by (simp add: uint_word_of_int)

lemma length_be32 [simp]: "length (be32 x) = 4"
  by (simp add: be32_def)

lemma of_be32_be32 [simp]: "i32 x \<Longrightarrow> of_be32 (be32 x) = x"
proof -
  assume "i32 x"
  have i: "be32 x ! 0 = word_of_int (x div 16777216)" "be32 x ! 1 = word_of_int (x div 65536)"
    "be32 x ! 2 = word_of_int (x div 256)" "be32 x ! 3 = word_of_int x"
    by (simp_all add: be32_def)
  have "of_be32 (be32 x) = wrap32 (x div 16777216 mod 256 * 16777216 + x div 65536 mod 256 * 65536
      + x div 256 mod 256 * 256 + x mod 256)"
    unfolding of_be32_def i uint_byte ..
  also have "\<dots> = wrap32 (x mod 4294967296)" by (simp only: be32_mod)
  also have "\<dots> = wrap32 x" by (simp add: wrap32_def mod_simps)
  finally show ?thesis using \<open>i32 x\<close> by simp
qed

lemma byte_eq_from_int: "uint (a :: byte) = sint b \<Longrightarrow> a = b"
proof -
  assume e: "uint a = sint b"
  have "a = of_int (uint a)" by simp
  also have "\<dots> = b" unfolding e by simp
  finally show ?thesis .
qed

lemma fold_min_step:
  assumes "\<forall>x \<in> set xs. 0 \<le> x" and "-1 \<le> r"
  shows "fold min_step xs r = (if xs = [] \<and> r = -1 then -1
           else Min (set (if r = -1 then xs else r # xs)))"
  using assms
proof (induction xs arbitrary: r)
  case Nil
  then show ?case by simp
next
  case (Cons x xs)
  have m: "min_step x r = (if r = -1 then x else min x r)"
    using Cons.prems by (auto simp: min_step_def)
  then have "0 \<le> min_step x r \<or> min_step x r = r" "-1 \<le> min_step x r" "min_step x r \<noteq> -1"
    using Cons.prems by (auto split: if_splits)
  then show ?case using Cons m by (cases "xs = []") (auto simp: min.commute min.left_commute)
qed

lemma their_highest_fold:
  "their_highest_confirmed s = fold min_step
     (map (remote_highest_confirmed s) (filter (\<lambda>n. int n \<noteq> local_player s) [0..<nat (nplayers s)])) (-1)"
proof -
  have "fold (\<lambda>n res. if int n = local_player s then res else min_step (remote_highest_confirmed s n) res) ns r
      = fold min_step (map (remote_highest_confirmed s) (filter (\<lambda>n. int n \<noteq> local_player s) ns)) r" for ns r
    by (induction ns arbitrary: r) auto
  then show ?thesis by (simp add: their_highest_confirmed_def)
qed

lemma our_highest_fold:
  "our_highest_confirmed s = fold min_step (map (highest_confirmed s) [0..<nat (nplayers s)]) (-1)"
  by (simp add: our_highest_confirmed_def fold_map comp_def)

text \<open>With no negative entry the loops compute the minimum, or -1 over no player.\<close>

lemma our_highest_Min:
  assumes "\<forall>n<nat (nplayers s). 0 \<le> highest_confirmed s n" and "0 < nplayers s"
  shows "our_highest_confirmed s = Min (highest_confirmed s ` {..<nat (nplayers s)})"
  using fold_min_step[of "map (highest_confirmed s) [0..<nat (nplayers s)]" "-1"] assms
  by (auto simp: our_highest_fold atLeast0LessThan)

lemma our_highest_le:
  assumes "\<forall>n<nat (nplayers s). 0 \<le> highest_confirmed s n" and "n < nat (nplayers s)"
  shows "our_highest_confirmed s \<le> highest_confirmed s n" and "0 \<le> our_highest_confirmed s"
proof -
  have m: "our_highest_confirmed s = Min (highest_confirmed s ` {..<nat (nplayers s)})"
    using our_highest_Min[OF assms(1)] assms(2) by simp
  show "our_highest_confirmed s \<le> highest_confirmed s n" using m assms(2) by (auto intro: Min_le)
  have "Min (highest_confirmed s ` {..<nat (nplayers s)}) \<in> highest_confirmed s ` {..<nat (nplayers s)}"
    using assms(2) by (intro Min_in) auto
  then show "0 \<le> our_highest_confirmed s" using m assms(1) by auto
qed

lemma their_highest_cases:
  assumes "\<forall>n<nat (nplayers s). int n \<noteq> local_player s \<longrightarrow> 0 \<le> remote_highest_confirmed s n"
  shows "their_highest_confirmed s = -1 \<and> (\<forall>n<nat (nplayers s). int n = local_player s)
    \<or> (0 \<le> their_highest_confirmed s
        \<and> (\<forall>n<nat (nplayers s). int n \<noteq> local_player s \<longrightarrow> their_highest_confirmed s \<le> remote_highest_confirmed s n)
        \<and> (\<exists>n<nat (nplayers s). int n \<noteq> local_player s \<and> their_highest_confirmed s = remote_highest_confirmed s n))"
proof -
  let ?ns = "filter (\<lambda>n. int n \<noteq> local_player s) [0..<nat (nplayers s)]"
  let ?xs = "map (remote_highest_confirmed s) ?ns"
  have f: "their_highest_confirmed s = (if ?xs = [] then -1 else Min (set ?xs))"
    using fold_min_step[of ?xs "-1"] assms unfolding their_highest_fold by auto
  show ?thesis
  proof (cases "?ns = []")
    case True
    then show ?thesis using f by (auto simp: filter_empty_conv)
  next
    case False
    then have t: "their_highest_confirmed s = Min (set ?xs)" using f by auto
    have "Min (set ?xs) \<in> set ?xs" using False by (intro Min_in) (auto simp: filter_empty_conv)
    then have i: "their_highest_confirmed s \<in> set ?xs" unfolding t .
    have "\<forall>x \<in> set ?xs. their_highest_confirmed s \<le> x" unfolding t by (auto intro: Min_le)
    then have "\<forall>n<nat (nplayers s). int n \<noteq> local_player s \<longrightarrow>
        their_highest_confirmed s \<le> remote_highest_confirmed s n" by auto
    moreover obtain n where "n < nat (nplayers s)" "int n \<noteq> local_player s"
        "their_highest_confirmed s = remote_highest_confirmed s n" using i by auto
    ultimately show ?thesis using assms by metis
  qed
qed


section \<open>What the loops compute\<close>

text \<open>The packet's cycles replace the recorded ones; a gap before them is filled with the first.\<close>

definition spliced :: "nat \<Rightarrow> byte list \<Rightarrow> byte list \<Rightarrow> byte list" where
  "spliced c buf ctl = (if buf = [] then ctl
     else take c (grow c (hd buf) ctl) @ buf @ drop (c + length buf) ctl)"

lemma length_spliced [simp]:
  "length (spliced c buf ctl) = (if buf = [] then length ctl else max (length ctl) (c + length buf))"
  by (auto simp: spliced_def)

lemma nth_spliced:
  assumes "k < length (spliced c buf ctl)"
  shows "spliced c buf ctl ! k = (if c \<le> k \<and> k < c + length buf then buf ! (k - c)
           else if k < length ctl then ctl ! k else hd buf)"
  using assms
  by (auto simp: spliced_def nth_append nth_grow)

lemma spliced_step:
  "spliced (Suc c) buf (take c (grow c b ctl) @ b # drop (Suc c) ctl) = spliced c (b # buf) ctl"
  by (rule nth_equalityI) (auto simp: nth_spliced nth_append nth_Cons' nth_grow spliced_def)

lemma apply_cycles_spec:
  assumes "0 \<le> c" and "cur < 9223372036854775807" and "int (length buf) = cur + 1 - c"
  shows "\<exists>fi'. apply_cycles c cur buf ctl fi = Some (spliced (nat c) buf ctl, fi', [])"
  using assms
proof (induction buf arbitrary: c ctl fi)
  case Nil
  then show ?case by (subst apply_cycles.simps) (simp add: spliced_def)
next
  case (Cons b buf)
  have c: "0 \<le> c + 1" "int (length buf) = cur + 1 - (c + 1)" "c \<le> cur" "as_size c = c"
    "nat (c + 1) = Suc (nat c)"
    using Cons.prems by auto
  note ih = Cons.IH[OF c(1) Cons.prems(2) c(2)]
  have "\<exists>fi'. apply_cycles c cur (b # buf) ctl fi
      = apply_cycles (c + 1) cur buf (take (nat c) (grow (nat c) b ctl) @ b # drop (Suc (nat c)) ctl) fi'"
  proof (cases "c < int (length ctl)")
    case True
    then have l: "nat c < length ctl" using Cons.prems(1) by simp
    have upd: "take (nat c) (grow (nat c) b ctl) @ b # drop (Suc (nat c)) ctl = ctl[nat c := b]"
      using l by (simp add: upd_conv_take_nth_drop)
    have same: "uint (ctl ! nat c) = sint b \<Longrightarrow> ctl[nat c := b] = ctl"
      using byte_eq_from_int[of "ctl ! nat c" b] by (metis list_update_id)
    show ?thesis unfolding upd using c True
      by (subst apply_cycles.simps) (auto simp: same)
  next
    case False
    then have upd: "take (nat c) (grow (nat c) b ctl) @ b # drop (Suc (nat c)) ctl = grow (nat c + 1) b ctl"
      using Cons.prems(1) by (auto simp: grow_def Suc_diff_le simp flip: replicate_append_same)
    show ?thesis unfolding upd using c False
      by (subst apply_cycles.simps) auto
  qed
  then show ?case using ih unfolding c(5) by (metis spliced_step)
qed

lemma fold_copy:
  assumes "c < m" and "n \<le> length ctl"
  shows "fold (\<lambda>k xs. xs[k := xs ! c]) [m..<n] ctl
       = take m ctl @ replicate (n - m) (ctl ! c) @ drop (max m n) ctl"
  using assms(2)
proof (induction n)
  case 0
  then show ?case by simp
next
  case (Suc n)
  show ?case
  proof (cases "m \<le> n")
    case False
    then show ?thesis by simp
  next
    case True
    let ?ys = "take m ctl @ replicate (n - m) (ctl ! c) @ drop (max m n) ctl"
    have ih: "fold (\<lambda>k xs. xs[k := xs ! c]) [m..<n] ctl = ?ys" using Suc by simp
    have c: "?ys ! c = ctl ! c" using assms(1) Suc.prems True by (simp add: nth_append)
    show ?thesis
      by (rule nth_equalityI)
         (use True Suc.prems assms(1) in \<open>auto simp: ih c nth_append nth_list_update not_less max_def\<close>)
  qed
qed

lemma extend_last_eq:
  assumes "0 \<le> cur"
  shows "extend_last cur ctl = take (nat cur + 1) ctl @ replicate (length ctl - (nat cur + 1)) (ctl ! nat cur)"
  using assms fold_copy[of "nat cur" "nat cur + 1" "length ctl" ctl]
  by (auto simp: extend_last_def nat_add_distrib max_def)

lemma length_extend_last [simp]: "0 \<le> cur \<Longrightarrow> length (extend_last cur ctl) = length ctl"
  by (simp add: extend_last_eq)

lemma nth_extend_last: "0 \<le> cur \<Longrightarrow> k < length ctl \<Longrightarrow>
    extend_last cur ctl ! k = (if k \<le> nat cur then ctl ! k else ctl ! nat cur)"
  by (auto simp: extend_last_eq nth_append)

lemma repeat_last_eq:
  "repeat_last n xs = grow n (if xs = [] then 0 else last xs) xs"
proof (induction n xs rule: repeat_last.induct)
  case (1 n xs)
  show ?case
  proof (cases "length xs < n")
    case True
    let ?b = "if xs = [] then 0 else last xs"
    have "repeat_last n xs = grow n ?b (xs @ [?b])"
      using 1 True by (subst repeat_last.simps) simp
    then show ?thesis using True by (simp add: grow_def flip: replicate_Suc replicate_append_same)
  next
    case False
    then show ?thesis by (subst repeat_last.simps) simp
  qed
qed

lemma extend_others_other:
  assumes "q \<noteq> me"
  shows "extend_others players me ctl q =
    (if q < players then repeat_last (length (ctl me)) (ctl q) else ctl q)"
  unfolding extend_others_def
proof (induction players)
  case 0
  then show ?case by simp
next
  case (Suc n)
  have "fold (\<lambda>n c. if n \<noteq> me then c(n := repeat_last (length (c me)) (c n)) else c) [0..<n] ctl me = ctl me"
    using extend_others_me[of n me ctl] by (simp add: extend_others_def)
  then show ?case using Suc assms by auto
qed


section \<open>What a packet does\<close>

definition received :: "int \<Rightarrow> int \<Rightarrow> byte list \<Rightarrow> byte list \<Rightarrow> byte list" where
  "received h cur buf ctl =
     (let start = cur + 1 - int (length buf); c = max start h
      in extend_last cur (spliced (nat c) (drop (nat (c - start)) buf) ctl))"

lemma accept_cycles_eq:
  assumes "0 \<le> highest_confirmed s slot" and "highest_confirmed s slot \<le> cur" and "cur < 2147483647"
    and "int (length buf) = ncycles"
  shows "\<exists>fi'. accept_cycles slot cur ncycles buf s =
    (s\<lparr>controls := (controls s)(slot := received (highest_confirmed s slot) cur buf (controls s slot)),
       first_invalid_cycle_var := fi', highest_confirmed := (highest_confirmed s)(slot := cur),
       ngood_packets := ngood_packets s + 1\<rparr>, Accepted)"
proof -
  let ?h = "highest_confirmed s slot"
  let ?start = "1 + cur - ncycles"
  let ?c = "max ?start ?h"
  let ?buf = "drop (nat (?c - ?start)) buf"
  have p: "(if ?start < ?h then (?h, drop (nat (?h - ?start)) buf) else (?start, buf)) = (?c, ?buf)"
    by (simp add: max_def)
  have len: "int (length ?buf) = cur + 1 - ?c" using assms by (auto simp: max_def)
  obtain fi' where fi: "apply_cycles ?c cur ?buf (controls s slot) (first_invalid_cycle_var s)
      = Some (spliced (nat ?c) ?buf (controls s slot), fi', [])"
    using apply_cycles_spec[OF _ _ len] assms by fastforce
  have r: "received ?h cur buf (controls s slot) = extend_last cur (spliced (nat ?c) ?buf (controls s slot))"
    using assms(4) by (simp add: received_def Let_def algebra_simps)
  have i: "i32 (1 + cur)" using assms by (simp add: i32_def)
  show ?thesis unfolding accept_cycles_def Let_def p r using assms(4) i fi by auto
qed

lemma received_parts:
  assumes "0 \<le> h" and "h \<le> cur" and "buf \<noteq> []"
  obtains c b where "received h cur buf ctl = extend_last cur (spliced c b ctl)" "b \<noteq> []"
    "c + length b = nat cur + 1" "h \<le> int c" "length b \<le> length buf" "b = drop (length buf - length b) buf"
    "int c = max (cur + 1 - int (length buf)) h"
proof -
  let ?start = "cur + 1 - int (length buf)"
  let ?c = "max ?start h"
  let ?b = "drop (nat (?c - ?start)) buf"
  have l: "0 < int (length buf)" using assms(3) by simp
  have n: "int (nat (?c - ?start)) = ?c - ?start" by simp
  have lb: "int (length ?b) = cur + 1 - ?c"
    using assms n l by (cases "?start \<le> h") (simp_all add: max_def)
  show thesis
  proof (rule that[of "nat ?c" ?b])
    show "received h cur buf ctl = extend_last cur (spliced (nat ?c) ?b ctl)"
      by (simp add: received_def Let_def)
    show "?b \<noteq> []" using lb assms l by (cases "?start \<le> h") (simp_all add: max_def)
    show "nat ?c + length ?b = nat cur + 1" using lb assms by linarith
    show "h \<le> int (nat ?c)" using assms(1) by linarith
    show "length ?b \<le> length buf" by simp
    show "?b = drop (length buf - length ?b) buf"
      by (cases "nat (?c - ?start) \<le> length buf") simp_all
    show "int (nat ?c) = ?c" using assms(1) by linarith
  qed
qed

lemma received_Nil: "0 \<le> h \<Longrightarrow> h \<le> cur \<Longrightarrow> received h cur [] ctl = extend_last cur ctl"
  by (simp add: received_def spliced_def)

lemma received_length:
  assumes "0 \<le> h" and "h \<le> cur"
  shows "length ctl \<le> length (received h cur buf ctl)"
    and "buf \<noteq> [] \<Longrightarrow> nat cur < length (received h cur buf ctl)"
proof -
  have "length ctl \<le> length (received h cur buf ctl) \<and> (buf \<noteq> [] \<longrightarrow> nat cur < length (received h cur buf ctl))"
  proof (cases "buf = []")
    case True
    then show ?thesis using assms by (simp add: received_Nil)
  next
    case False
    obtain c b where "received h cur buf ctl = extend_last cur (spliced c b ctl)" "b \<noteq> []"
      "c + length b = nat cur + 1" by (rule received_parts[OF assms False])
    then show ?thesis using assms by (simp add: less_max_iff_disj)
  qed
  then show "length ctl \<le> length (received h cur buf ctl)"
    "buf \<noteq> [] \<Longrightarrow> nat cur < length (received h cur buf ctl)" by simp_all
qed

text \<open>Cycles before the confirmed one keep their value, whatever the packet holds.\<close>

lemma received_confirmed:
  assumes "0 \<le> h" and "h \<le> cur" and "int k < h" and "k < length ctl"
  shows "received h cur buf ctl ! k = ctl ! k"
proof (cases "buf = []")
  case True
  have "k \<le> nat cur" using assms by linarith
  then show ?thesis using assms True by (simp add: received_Nil nth_extend_last)
next
  case False
  obtain c b where "received h cur buf ctl = extend_last cur (spliced c b ctl)" "h \<le> int c"
    by (rule received_parts[OF assms(1,2) False])
  moreover have "k \<le> nat cur" "0 \<le> cur" using assms by linarith+
  ultimately show ?thesis using assms by (simp add: nth_extend_last nth_spliced less_max_iff_disj)
qed

lemma received_new:
  assumes "0 \<le> h" and "h \<le> int k" and "int k \<le> cur" and "cur + 1 - int (length buf) \<le> int k"
  shows "received h cur buf ctl ! k = buf ! nat (int k - (cur + 1 - int (length buf)))"
proof -
  have ne: "buf \<noteq> []" using assms by auto
  have h: "h \<le> cur" using assms by linarith
  obtain c b where r: "received h cur buf ctl = extend_last cur (spliced c b ctl)" "b \<noteq> []"
      "c + length b = nat cur + 1" "length b \<le> length buf" "b = drop (length buf - length b) buf"
      "int c = max (cur + 1 - int (length buf)) h"
    by (rule received_parts[OF assms(1) h ne])
  have c: "c \<le> k" "k < c + length b" using r(3,6) assms by auto
  have "received h cur buf ctl ! k = b ! (k - c)"
    using assms r c by (simp add: nth_extend_last nth_spliced)
  also have "\<dots> = buf ! (length buf - length b + (k - c))" using r(4) by (subst r(5)) simp
  also have "length buf - length b + (k - c) = nat (int k - (cur + 1 - int (length buf)))"
    using c r(3,4) assms by linarith
  finally show ?thesis .
qed

lemma checksum_at_frame [simp]:
  "controls (snd (checksum_at i s)) = controls s"
  "highest_confirmed (snd (checksum_at i s)) = highest_confirmed s"
  "remote_highest_confirmed (snd (checksum_at i s)) = remote_highest_confirmed s"
  "nplayers (snd (checksum_at i s)) = nplayers s"
  "local_player (snd (checksum_at i s)) = local_player s"
  by (auto simp: checksum_at_def split: option.splits)

lemma i32_of_be32 [simp]: "i32 (of_be32 bs)"
  by (simp add: of_be32_def)

text \<open>
  Every way a packet can be disposed of. The state changes outside the slot of the sender only in
  the counters, the checksums and the first invalid cycle.
\<close>

definition same_but :: "nat \<Rightarrow> controls_state \<Rightarrow> controls_state \<Rightarrow> bool" where
  "same_but slot s s' \<longleftrightarrow> nplayers s' = nplayers s \<and> local_player s' = local_player s
     \<and> starting_cycles s' = starting_cycles s \<and> delay s' = delay s
     \<and> local_control_locks s' = local_control_locks s \<and> key_ignore s' = key_ignore s \<and> sdlk s' = sdlk s
     \<and> (\<forall>q. q \<noteq> slot \<longrightarrow> controls s' q = controls s q \<and> highest_confirmed s' q = highest_confirmed s q
                      \<and> remote_highest_confirmed s' q = remote_highest_confirmed s q)"

definition received_packet :: "nat \<Rightarrow> byte list \<Rightarrow> controls_state \<Rightarrow> controls_state \<Rightarrow> bool" where
  "received_packet slot buf s s' \<longleftrightarrow>
     (let cur = of_be32 (take 4 (drop 1 buf)); h = of_be32 (take 4 (drop 9 buf)) in
      same_but slot s s' \<and> highest_confirmed s slot \<le> cur
      \<and> highest_confirmed s' slot = cur
      \<and> controls s' slot = received (highest_confirmed s slot) cur (drop 17 buf) (controls s slot)
      \<and> remote_highest_confirmed s' slot = max h (remote_highest_confirmed s slot))"

definition ignored_packet :: "nat \<Rightarrow> controls_state \<Rightarrow> controls_state \<Rightarrow> bool" where
  "ignored_packet slot s s' \<longleftrightarrow> same_but slot s s' \<and> controls s' = controls s
     \<and> highest_confirmed s' = highest_confirmed s
     \<and> remote_highest_confirmed s slot \<le> remote_highest_confirmed s' slot"

lemma accept_cycles_bad:
  assumes "int (length buf) \<noteq> ncycles \<or> cur = 2147483647" and "i32 cur"
  shows "fst (accept_cycles slot cur ncycles buf s) = s
    \<and> snd (accept_cycles slot cur ncycles buf s) \<in> {Bad_Length, Undefined}"
  using assms by (auto simp: accept_cycles_def i32_def)

text \<open>The last part of the code, from the checksum on.\<close>

lemma read_control_packet_tail:
  assumes "13 \<le> length buf" and slot: "0 \<le> sint (buf ! 0)" "sint (buf ! 0) < nplayers s"
      "sint (buf ! 0) \<noteq> local_player s"
    and cur: "highest_confirmed s (nat (sint (buf ! 0))) \<le> of_be32 (take 4 (drop 1 buf))"
  obtains s2 where "same_but (nat (sint (buf ! 0))) s s2" "controls s2 = controls s"
    "highest_confirmed s2 = highest_confirmed s"
    "our_checksums s2 = our_checksums s
      \<or> our_checksums s2 = (our_checksums s)(of_be32 (take 4 (drop 1 buf)) - 1 \<mapsto> 0)"
    "remote_highest_confirmed s2 (nat (sint (buf ! 0)))
      = max (of_be32 (take 4 (drop 9 buf))) (remote_highest_confirmed s (nat (sint (buf ! 0))))"
    "read_control_packet buf s = (if length buf < 17 then (s2, Undefined)
       else accept_cycles (nat (sint (buf ! 0))) (of_be32 (take 4 (drop 1 buf)))
              (of_be32 (take 4 (drop 13 buf))) (drop 17 buf) s2)"
proof -
  let ?slot = "nat (sint (buf ! 0))"
  let ?cur = "of_be32 (take 4 (drop 1 buf))"
  let ?h = "of_be32 (take 4 (drop 9 buf))"
  let ?s = "s\<lparr>npackets_received := npackets_received s + 1\<rparr>"
  let ?s1 = "if of_be32 (take 4 (drop 5 buf)) \<noteq> 0 then snd (checksum_at (?cur - 1) ?s) else ?s"
  let ?s2 = "if ?h > remote_highest_confirmed ?s1 ?slot
    then ?s1\<lparr>remote_highest_confirmed := (remote_highest_confirmed ?s1)(?slot := ?h)\<rparr> else ?s1"
  show thesis
  proof (rule that[of ?s2])
    show "same_but ?slot s ?s2" "controls ?s2 = controls s" "highest_confirmed ?s2 = highest_confirmed s"
        "our_checksums ?s2 = our_checksums s \<or> our_checksums ?s2 = (our_checksums s)(?cur - 1 \<mapsto> 0)"
        "remote_highest_confirmed ?s2 ?slot = max ?h (remote_highest_confirmed s ?slot)"
      by (auto simp: same_but_def checksum_at_def max_def split: option.splits)
    show "read_control_packet buf s = (if length buf < 17 then (?s2, Undefined)
       else accept_cycles ?slot ?cur (of_be32 (take 4 (drop 13 buf))) (drop 17 buf) ?s2)"
      unfolding read_control_packet_def Let_def using assms by simp
  qed
qed

lemma same_but_trans [trans]: "same_but q s s' \<Longrightarrow> same_but q s' s'' \<Longrightarrow> same_but q s s''"
  by (simp add: same_but_def)


lemma read_control_packet_head:
  assumes "length buf < 13 \<or> sint (buf ! 0) < 0 \<or> sint (buf ! 0) \<ge> nplayers s \<or> sint (buf ! 0) = local_player s
        \<or> of_be32 (take 4 (drop 1 buf)) < highest_confirmed s (nat (sint (buf ! 0)))"
  shows "fst (read_control_packet buf s) = s\<lparr>npackets_received := npackets_received s + 1\<rparr>
    \<and> snd (read_control_packet buf s) \<in> {Too_Short, Bad_Slot, Own_Slot, Out_Of_Order}"
  using assms by (auto simp: read_control_packet_def Let_def)

lemma same_but_refl [simp]: "same_but q s (s\<lparr>npackets_received := n\<rparr>)"
  by (simp add: same_but_def)

text \<open>A packet either is received, or leaves the recorded and the confirmed controls as they are.\<close>

lemma read_control_packet_cases:
  assumes "\<forall>q<nat (nplayers s). int q \<noteq> local_player s \<longrightarrow> 0 \<le> highest_confirmed s q"
  obtains slot where "ignored_packet slot s (fst (read_control_packet buf s))"
      "snd (read_control_packet buf s) \<notin> {Accepted, Assert_Failed}" "int slot \<noteq> local_player s"
  | slot where "received_packet slot buf s (fst (read_control_packet buf s))"
      "snd (read_control_packet buf s) = Accepted" "int slot \<noteq> local_player s" "slot < nat (nplayers s)"
      "17 \<le> length buf" "sint (buf ! 0) = int slot"
proof (cases "length buf < 13 \<or> sint (buf ! 0) < 0 \<or> sint (buf ! 0) \<ge> nplayers s \<or> sint (buf ! 0) = local_player s
        \<or> of_be32 (take 4 (drop 1 buf)) < highest_confirmed s (nat (sint (buf ! 0)))")
  case True
  obtain slot :: nat where "int slot \<noteq> local_player s"
    by (cases "local_player s = 0") (auto intro: that[of 0] that[of 1])
  moreover have "ignored_packet slot s (fst (read_control_packet buf s))"
    using read_control_packet_head[OF True] by (simp add: ignored_packet_def)
  moreover have "snd (read_control_packet buf s) \<notin> {Accepted, Assert_Failed}"
    using read_control_packet_head[OF True] by auto
  ultimately show thesis by (intro that(1)[of slot])
next
  case False
  let ?slot = "nat (sint (buf ! 0))"
  let ?cur = "of_be32 (take 4 (drop 1 buf))"
  have slot: "int ?slot = sint (buf ! 0)" "int ?slot \<noteq> local_player s" "?slot < nat (nplayers s)"
    using False by auto
  then have h: "0 \<le> highest_confirmed s ?slot" using assms by auto
  obtain s2 where s2: "same_but ?slot s s2" "controls s2 = controls s"
      "highest_confirmed s2 = highest_confirmed s"
      "remote_highest_confirmed s2 ?slot = max (of_be32 (take 4 (drop 9 buf))) (remote_highest_confirmed s ?slot)"
      "read_control_packet buf s = (if length buf < 17 then (s2, Undefined)
         else accept_cycles ?slot ?cur (of_be32 (take 4 (drop 13 buf))) (drop 17 buf) s2)"
    by (rule read_control_packet_tail[of buf s]) (use False in auto)
  have ign: "ignored_packet ?slot s s2" using s2 by (simp add: ignored_packet_def)
  show thesis
  proof (cases "17 \<le> length buf \<and> int (length (drop 17 buf)) = of_be32 (take 4 (drop 13 buf)) \<and> ?cur \<noteq> 2147483647")
    case True
    have "highest_confirmed s2 ?slot \<le> ?cur" "0 \<le> highest_confirmed s2 ?slot" "?cur < 2147483647"
      using False h s2(3) True i32_of_be32[of "take 4 (drop 1 buf)"] by (auto simp: i32_def)
    then obtain fi where r: "read_control_packet buf s =
      (s2\<lparr>controls := (controls s2)(?slot := received (highest_confirmed s2 ?slot) ?cur (drop 17 buf) (controls s2 ?slot)),
         first_invalid_cycle_var := fi, highest_confirmed := (highest_confirmed s2)(?slot := ?cur),
         ngood_packets := ngood_packets s2 + 1\<rparr>, Accepted)"
      using accept_cycles_eq[of s2 ?slot ?cur "drop 17 buf"] s2(5) True by auto
    have "received_packet ?slot buf s (fst (read_control_packet buf s))"
      using r s2 False by (auto simp: received_packet_def same_but_def Let_def)
    then show thesis using that(2) r slot True by simp
  next
    case False
    then have "fst (read_control_packet buf s) = s2" "snd (read_control_packet buf s) \<in> {Bad_Length, Undefined}"
      using s2(5) accept_cycles_bad[of "drop 17 buf" "of_be32 (take 4 (drop 13 buf))" ?cur ?slot s2] by auto
    then show thesis using that(1) ign slot by auto
  qed
qed

section \<open>Properties\<close>

text \<open>C6: However malformed, a packet never touches the local player's own controls, never changes
  a cycle that is already confirmed, never lowers what is confirmed, and never trips the final
  assertion of \<open>read_control_packet\<close>.\<close>

theorem packet_robust:
  assumes "\<forall>q<nat (nplayers s). int q \<noteq> local_player s \<longrightarrow> 0 \<le> highest_confirmed s q"
    and "read_control_packet buf s = (s', outcome)"
  shows "outcome \<noteq> Assert_Failed \<and> nplayers s' = nplayers s \<and> local_player s' = local_player s
    \<and> (\<forall>q. int q = local_player s \<longrightarrow> controls s' q = controls s q \<and> highest_confirmed s' q = highest_confirmed s q)
    \<and> (\<forall>q. highest_confirmed s q \<le> highest_confirmed s' q
          \<and> remote_highest_confirmed s q \<le> remote_highest_confirmed s' q
          \<and> length (controls s q) \<le> length (controls s' q)
          \<and> (\<forall>k. int k < highest_confirmed s q \<and> k < length (controls s q) \<longrightarrow>
                 controls s' q ! k = controls s q ! k))"
  using assms(1)
proof (cases rule: read_control_packet_cases[of s buf, case_names ignored received])
  case (ignored slot)
  then have i: "same_but slot s s'" "controls s' = controls s" "highest_confirmed s' = highest_confirmed s"
    "remote_highest_confirmed s slot \<le> remote_highest_confirmed s' slot" "outcome \<noteq> Assert_Failed"
    using assms(2) by (simp_all add: ignored_packet_def)
  have "remote_highest_confirmed s q \<le> remote_highest_confirmed s' q" for q
    using i(1,4) by (cases "q = slot") (simp_all add: same_but_def)
  then show ?thesis using i by (simp add: same_but_def)
next
  case (received slot)
  let ?cur = "of_be32 (take 4 (drop 1 buf))"
  have r: "same_but slot s s'" "highest_confirmed s slot \<le> ?cur" "highest_confirmed s' slot = ?cur"
    "controls s' slot = received (highest_confirmed s slot) ?cur (drop 17 buf) (controls s slot)"
    "remote_highest_confirmed s slot \<le> remote_highest_confirmed s' slot" "outcome = Accepted"
    using received(1,2) assms(2) by (simp_all add: received_packet_def Let_def)
  have h: "0 \<le> highest_confirmed s slot" using assms(1) received(3,4) by auto
  have "highest_confirmed s q \<le> highest_confirmed s' q
      \<and> remote_highest_confirmed s q \<le> remote_highest_confirmed s' q
      \<and> length (controls s q) \<le> length (controls s' q)
      \<and> (\<forall>k. int k < highest_confirmed s q \<and> k < length (controls s q) \<longrightarrow>
             controls s' q ! k = controls s q ! k)" for q
  proof (cases "q = slot")
    case True
    then show ?thesis using r(2-5) h by (simp add: received_length received_confirmed)
  next
    case False
    then show ?thesis using r(1) by (simp add: same_but_def)
  qed
  moreover have "int q = local_player s \<Longrightarrow> controls s' q = controls s q
      \<and> highest_confirmed s' q = highest_confirmed s q" for q
    using r(1) received(3) by (cases "q = slot") (simp_all add: same_but_def)
  ultimately show ?thesis using r(1,6) by (simp add: same_but_def)
qed

text \<open>Two players, the local one is player 0; player 1 has three cycles, two of them confirmed.\<close>

definition sample_controls :: controls_state where
  "sample_controls = \<lparr>controls = (\<lambda>n. if n = 0 then [1, 2] else if n = 1 then [4, 5, 6] else []),
     highest_confirmed = (\<lambda>n. if n < 2 then 2 else 0), remote_highest_confirmed = (\<lambda>_. 0),
     our_checksums = (\<lambda>_. None), starting_cycles = 0, nplayers = 2, local_player = 0, delay = 0,
     first_invalid_cycle_var = -1, npackets_received = 0, ngood_packets = 0, last_packet_size_var = 0,
     local_control_locks = [], key_ignore = (\<lambda>_. False), sdlk = default_sdlk\<rparr>"

lemma packet_robust_witness:
  "controls (fst (read_control_packet (1 # be32 2 @ be32 0 @ be32 1 @ be32 2 @ [9, 9]) sample_controls)) 1 ! 1 = 5"
proof -
  let ?r = "read_control_packet (1 # be32 2 @ be32 0 @ be32 1 @ be32 2 @ [9, 9]) sample_controls"
  have h: "\<forall>q<nat (nplayers sample_controls). int q \<noteq> local_player sample_controls \<longrightarrow>
      0 \<le> highest_confirmed sample_controls q"
    by (simp add: sample_controls_def)
  show ?thesis using packet_robust[OF h, of _ "fst ?r" "snd ?r"] by (auto simp: sample_controls_def)
qed

text \<open>C32: The length test of \<open>read_control_packet\<close> asks for 13 bytes, the header it reads has 17: a
  packet of 13 to 16 bytes that names another player and is not out of order makes the code read
  past the end of the buffer.\<close>

theorem short_packet_overread:
  assumes "13 \<le> length buf" and "length buf < 17"
    and "0 \<le> sint (buf ! 0)" and "sint (buf ! 0) < nplayers s" and "sint (buf ! 0) \<noteq> local_player s"
    and "highest_confirmed s (nat (sint (buf ! 0))) \<le> of_be32 (take 4 (drop 1 buf))"
  shows "snd (read_control_packet buf s) = Undefined"
  by (rule read_control_packet_tail[OF assms(1,3,4,5,6)]) (use assms(2) in simp)

lemma short_packet_overread_witness:
  "snd (read_control_packet (1 # be32 2 @ be32 0 @ be32 0) sample_controls) = Undefined"
  by (rule short_packet_overread) (simp_all add: sample_controls_def i32_def)

lemma local_read [simp]:
  "local_valid (read_local_controls inp s) = local_valid s"
  "local_player (read_local_controls inp s) = local_player s"
  "local_valid s \<Longrightarrow> controls (read_local_controls inp s) (lp s) = controls s (lp s) @ [fst (read_devices inp s)]"
  by (auto simp: read_local_controls_def local_valid_def Let_def split: prod.splits)

lemma local_unread [simp]:
  "local_valid (unread_local_controls s) = local_valid s"
  "local_player (unread_local_controls s) = local_player s"
  "local_valid s \<Longrightarrow> controls (unread_local_controls s) (lp s) = butlast (controls s (lp s))"
  by (auto simp: unread_local_controls_def local_valid_def)

lemma read_up_to_spec:
  assumes "local_valid s" and "0 \<le> ncycle" and "ncycle < 2147483647"
  shows "local_valid (read_up_to poll k ncycle s) \<and> local_player (read_up_to poll k ncycle s) = local_player s
    \<and> (\<exists>new. controls (read_up_to poll k ncycle s) (lp s) = controls s (lp s) @ new)
    \<and> int (length (controls (read_up_to poll k ncycle s) (lp s))) = max (ncycle + 1) (int (length (controls s (lp s))))"
  using assms
proof (induction poll k ncycle s rule: read_up_to.induct)
  case (1 poll k ncycle s)
  show ?case
  proof (cases "int (length (controls s (lp s))) \<le> ncycle")
    case True
    let ?s = "read_local_controls (poll k) s"
    have "read_up_to poll k ncycle s = read_up_to poll (k + 1) ncycle ?s"
      using True 1 by (subst read_up_to.simps) simp
    then show ?thesis using 1 True by fastforce
  next
    case False
    then have "read_up_to poll k ncycle s = s" using 1 by (subst read_up_to.simps) simp
    then show ?thesis using 1 False by auto
  qed
qed

lemma unread_down_to_spec:
  assumes "local_valid s" and "0 \<le> ncycle" and "ncycle < 2147483647"
  shows "local_valid (unread_down_to ncycle s) \<and> local_player (unread_down_to ncycle s) = local_player s
    \<and> controls (unread_down_to ncycle s) (lp s) = take (nat ncycle + 1) (controls s (lp s))"
  using assms
proof (induction ncycle s rule: unread_down_to.induct)
  case (1 ncycle s)
  show ?case
  proof (cases "int (length (controls s (lp s))) > ncycle + 1")
    case True
    then have e: "unread_down_to ncycle s = unread_down_to ncycle (unread_local_controls s)"
      using 1 by (subst unread_down_to.simps) simp
    have "take (nat ncycle + 1) (butlast (controls s (lp s))) = take (nat ncycle + 1) (controls s (lp s))"
      using True 1 by (simp add: butlast_conv_take)
    then show ?thesis using 1 True e by simp
  next
    case False
    then have "unread_down_to ncycle s = s" using 1 by (subst unread_down_to.simps) simp
    then show ?thesis using 1 False by auto
  qed
qed

text \<open>C38: \<open>read_until n\<close> returns with exactly \<open>n + 1\<close> recorded cycles of the local player, whether
  it had more or fewer, and keeps the cycles that were recorded before as far as they go.\<close>

theorem read_until_exact:
  assumes "local_valid s" and "0 \<le> ncycle" and "ncycle < 2147483647"
  shows "local_controls_end (read_until poll ncycle s) = ncycle + 1
    \<and> take (nat ncycle + 1) (controls s (lp s))
        = take (length (controls s (lp s))) (controls (read_until poll ncycle s) (lp s))"
proof -
  let ?u = "read_up_to poll 0 ncycle s"
  note u = read_up_to_spec[OF assms, of poll 0]
  then have d: "local_valid (unread_down_to ncycle ?u)" "local_player (unread_down_to ncycle ?u) = local_player s"
      "controls (unread_down_to ncycle ?u) (lp s) = take (nat ncycle + 1) (controls ?u (lp s))"
    using unread_down_to_spec[of ?u ncycle] assms by auto
  obtain new where new: "controls ?u (lp s) = controls s (lp s) @ new" using u by blast
  have "int (length (take (nat ncycle + 1) (controls ?u (lp s)))) = ncycle + 1" using u assms by auto
  moreover have "take (nat ncycle + 1) (controls s (lp s))
      = take (length (controls s (lp s))) (take (nat ncycle + 1) (controls ?u (lp s)))"
    unfolding new by (simp add: min_def)
  ultimately show ?thesis using assms(1) d by (simp add: read_until_def local_controls_end_def)
qed

lemma read_until_exact_witness: "\<forall>poll. local_controls_end (read_until poll 5 sample_controls) = 6"
proof -
  have "local_valid sample_controls" by (simp add: local_valid_def sample_controls_def)
  then show ?thesis using read_until_exact[of sample_controls 5] by simp
qed

end
