(* ===== verification/CT_Lockstep.thy ===== *)
theory CT_Lockstep
  imports CT_Controls
begin

text \<open>
  Peers that exchange the packets of \<open>src/controls.cpp\<close> over a network that loses, repeats, delays
  and reorders them: a step relation over the states of \<open>CT_Controls\<close>, its invariant, and what
  it gives: confirmed cycles agree everywhere, and a packet that arrives repairs every earlier loss.
\<close>

section \<open>The network\<close>

text \<open>
  A game of \<open>N\<close> peers: peer \<open>p\<close> is local player \<open>p\<close> of its own state. Packets that have been
  sent stay available, so the network may lose, repeat, delay and reorder them. \<open>read_step\<close> leaves
  room for the cycle counter, a 32-bit integer in the packets.
\<close>

record network =
  peers :: "nat \<Rightarrow> controls_state"
  sent :: "byte list set"

definition net_init :: "nat \<Rightarrow> network \<Rightarrow> bool" where
  "net_init N w \<longleftrightarrow> N \<le> 8 \<and> sent w = {} \<and> (\<forall>p<N. \<exists>c s. our_checksums s = Map.empty \<and> peers w p = new_level c (int N) (int p) s)"

inductive net_step :: "nat \<Rightarrow> network \<Rightarrow> network \<Rightarrow> bool" for N :: nat where
  read_step: "p < N \<Longrightarrow> length (controls (peers w p) p) < 2147483646 \<Longrightarrow>
     net_step N w (w\<lparr>peers := (peers w)(p := read_local_controls inp (peers w p))\<rparr>)"
| send_step: "p < N \<Longrightarrow> write_control_packet [] (peers w p) = (v, s') \<Longrightarrow>
     net_step N w (w\<lparr>peers := (peers w)(p := s'), sent := insert v (sent w)\<rparr>)"
| deliver_step: "p < N \<Longrightarrow> v \<in> sent w \<Longrightarrow>
     net_step N w (w\<lparr>peers := (peers w)(p := fst (read_control_packet v (peers w p)))\<rparr>)"
| checksum_step: "p < N \<Longrightarrow> i32 c \<Longrightarrow>
     net_step N w (w\<lparr>peers := (peers w)(p := set_checksum i c (peers w p))\<rparr>)"
| valid_step: "p < N \<Longrightarrow>
     net_step N w (w\<lparr>peers := (peers w)(p := mark_valid (peers w p))\<rparr>)"

inductive net_reachable :: "nat \<Rightarrow> network \<Rightarrow> bool" for N :: nat where
  start: "net_init N w \<Longrightarrow> net_reachable N w"
| step: "net_reachable N w \<Longrightarrow> net_step N w w' \<Longrightarrow> net_reachable N w'"

section \<open>The invariant\<close>

text \<open>Peer \<open>p\<close> by itself.\<close>

definition own_ok :: "nat \<Rightarrow> nat \<Rightarrow> controls_state \<Rightarrow> bool" where
  "own_ok N p s \<longleftrightarrow> nplayers s = int N \<and> local_player s = int p
     \<and> highest_confirmed s p = int (length (controls s p)) \<and> length (controls s p) \<le> 2147483646
     \<and> (\<forall>i v. our_checksums s i = Some v \<longrightarrow> i32 v)"

text \<open>\<open>s\<close> knows the controls \<open>ctl\<close> of player \<open>q\<close> up to the cycle it has confirmed.\<close>

definition knows :: "controls_state \<Rightarrow> nat \<Rightarrow> byte list \<Rightarrow> bool" where
  "knows s q ctl \<longleftrightarrow> 0 \<le> highest_confirmed s q
     \<and> (highest_confirmed s q = 0 \<or> highest_confirmed s q < int (length ctl)
          \<and> (\<forall>k. int k \<le> highest_confirmed s q \<longrightarrow> k < length (controls s q) \<and> controls s q ! k = ctl ! k))"

text \<open>A packet of player \<open>a\<close>: its cycle, its checksum, what it has confirmed, its cycles.\<close>

definition packet :: "nat \<Rightarrow> int \<Rightarrow> int \<Rightarrow> int \<Rightarrow> byte list \<Rightarrow> byte list" where
  "packet a cur chk h cs = [word_of_int (int a)] @ be32 cur @ be32 chk @ be32 h @ be32 (int (length cs)) @ cs"

definition packet_ok :: "nat \<Rightarrow> (nat \<Rightarrow> controls_state) \<Rightarrow> byte list \<Rightarrow> bool" where
  "packet_ok N peer v \<longleftrightarrow> (\<exists>a<N. \<exists>cur chk h n. v = packet a cur chk h (take n (drop (nat (cur + 1) - n) (controls (peer a) a)))
     \<and> -1 \<le> cur \<and> cur < int (length (controls (peer a) a)) \<and> int n \<le> cur + 1 \<and> 0 \<le> h \<and> h \<le> 2147483646
     \<and> (\<forall>b<N. h \<le> highest_confirmed (peer a) b)
     \<and> (\<forall>b<N. b \<noteq> a \<longrightarrow> cur + 1 - int n \<le> highest_confirmed (peer b) a))"

definition net_inv :: "nat \<Rightarrow> network \<Rightarrow> bool" where
  "net_inv N w \<longleftrightarrow> N \<le> 8 \<and> (\<forall>p<N. own_ok N p (peers w p)
       \<and> (\<forall>q<N. q \<noteq> p \<longrightarrow> knows (peers w p) q (controls (peers w q) q)
              \<and> 0 \<le> remote_highest_confirmed (peers w p) q
              \<and> remote_highest_confirmed (peers w p) q \<le> highest_confirmed (peers w q) p))
     \<and> (\<forall>v \<in> sent w. packet_ok N (peers w) v)"

lemma net_invD:
  assumes "net_inv N w" and "p < N"
  shows "own_ok N p (peers w p)"
    and "q < N \<Longrightarrow> q \<noteq> p \<Longrightarrow> knows (peers w p) q (controls (peers w q) q)"
    and "q < N \<Longrightarrow> q \<noteq> p \<Longrightarrow> 0 \<le> remote_highest_confirmed (peers w p) q"
    and "q < N \<Longrightarrow> q \<noteq> p \<Longrightarrow> remote_highest_confirmed (peers w p) q \<le> highest_confirmed (peers w q) p"
    and "N \<le> 8"
  using assms by (auto simp: net_inv_def)

lemma knows_append: "knows s q ctl \<Longrightarrow> knows s q (ctl @ ys)"
  by (auto simp: knows_def nth_append)

section \<open>Packets\<close>

lemma sint_small: "0 \<le> n \<Longrightarrow> n < 128 \<Longrightarrow> sint (word_of_int n :: byte) = n"
  by transfer (simp add: signed_take_bit_int_eq_self)

lemma packet_fields:
  assumes "a < 128" "i32 cur" "i32 h" "length cs \<le> 2147483647"
  shows "17 \<le> length (packet a cur chk h cs)" "sint (packet a cur chk h cs ! 0) = int a"
    "of_be32 (take 4 (drop 1 (packet a cur chk h cs))) = cur"
    "of_be32 (take 4 (drop 9 (packet a cur chk h cs))) = h"
    "of_be32 (take 4 (drop 13 (packet a cur chk h cs))) = int (length cs)"
    "drop 17 (packet a cur chk h cs) = cs"
  using assms sint_small[of "int a"] by (simp_all add: packet_def i32_def)

section \<open>Preservation\<close>

lemma packet_ok_mono:
  assumes "packet_ok N peer v"
    and "\<And>a. a < N \<Longrightarrow> \<exists>ys. controls (peer' a) a = controls (peer a) a @ ys"
    and "\<And>a b. a < N \<Longrightarrow> b < N \<Longrightarrow> highest_confirmed (peer a) b \<le> highest_confirmed (peer' a) b"
  shows "packet_ok N peer' v"
proof -
  obtain a cur chk h n where v: "a < N"
    "v = packet a cur chk h (take n (drop (nat (cur + 1) - n) (controls (peer a) a)))"
    "-1 \<le> cur" "cur < int (length (controls (peer a) a))" "int n \<le> cur + 1" "0 \<le> h" "h \<le> 2147483646"
    "\<forall>b<N. h \<le> highest_confirmed (peer a) b"
    "\<forall>b<N. b \<noteq> a \<longrightarrow> cur + 1 - int n \<le> highest_confirmed (peer b) a"
    using assms(1) unfolding packet_ok_def by (elim exE conjE) (rule that, assumption+)
  obtain ys where ys: "controls (peer' a) a = controls (peer a) a @ ys" using assms(2) v(1) by blast
  have t: "take n (drop (nat (cur + 1) - n) (controls (peer a) a))
      = take n (drop (nat (cur + 1) - n) (controls (peer' a) a))"
    using v(3-5) unfolding ys by simp
  show ?thesis
    unfolding packet_ok_def
  proof (intro exI conjI allI impI)
    show "a < N" "v = packet a cur chk h (take n (drop (nat (cur + 1) - n) (controls (peer' a) a)))"
      "-1 \<le> cur" "cur < int (length (controls (peer' a) a))" "int n \<le> cur + 1" "0 \<le> h" "h \<le> 2147483646"
      using v(1-7) unfolding t ys by simp_all
    show "h \<le> highest_confirmed (peer' a) b" if "b < N" for b
      using v(8) assms(3)[OF v(1) that] that by force
    show "cur + 1 - int n \<le> highest_confirmed (peer' b) a" if "b < N" "b \<noteq> a" for b
      using v(9) assms(3)[OF that(1) v(1)] that by force
  qed
qed

text \<open>One peer changes state: what keeps the invariant.\<close>

lemma net_inv_update:
  assumes inv: "net_inv N w" and p: "p < N" and w': "peers w' = (peers w)(p := s')"
    and own: "own_ok N p s'" and grows: "\<exists>ys. controls s' p = controls (peers w p) p @ ys"
    and up: "\<forall>q<N. highest_confirmed (peers w p) q \<le> highest_confirmed s' q"
    and kn: "\<forall>q<N. q \<noteq> p \<longrightarrow> knows s' q (controls (peers w q) q)"
    and rem: "\<forall>q<N. q \<noteq> p \<longrightarrow> 0 \<le> remote_highest_confirmed s' q
        \<and> remote_highest_confirmed s' q \<le> highest_confirmed (peers w q) p"
    and sent: "\<forall>v \<in> sent w'. v \<in> sent w \<or> packet_ok N (peers w') v"
  shows "net_inv N w'"
proof -
  have g: "\<exists>ys. controls (peers w' a) a = controls (peers w a) a @ ys" if "a < N" for a
    using grows w' by (cases "a = p") auto
  have m: "highest_confirmed (peers w a) b \<le> highest_confirmed (peers w' a) b" if "a < N" "b < N" for a b
    using up w' that by (cases "a = p") auto
  have "packet_ok N (peers w') v" if "v \<in> sent w'" for v
    using sent that packet_ok_mono[of N "peers w" v "peers w'"] g m inv by (auto simp: net_inv_def)
  moreover have "own_ok N a (peers w' a)" if "a < N" for a
    using own w' net_invD(1)[OF inv that] by (cases "a = p") auto
  moreover have "knows (peers w' a) b (controls (peers w' b) b)" if "a < N" "b < N" "b \<noteq> a" for a b
  proof -
    have "knows (peers w' a) b (controls (peers w b) b)"
      using kn w' that net_invD(2)[OF inv that(1,2,3)] by (cases "a = p") auto
    moreover obtain ys where "controls (peers w' b) b = controls (peers w b) b @ ys" using g \<open>b < N\<close> by blast
    ultimately show ?thesis by (simp add: knows_append)
  qed
  moreover have "0 \<le> remote_highest_confirmed (peers w' a) b
      \<and> remote_highest_confirmed (peers w' a) b \<le> highest_confirmed (peers w' b) a"
    if "a < N" "b < N" "b \<noteq> a" for a b
  proof -
    have "0 \<le> remote_highest_confirmed (peers w' a) b
      \<and> remote_highest_confirmed (peers w' a) b \<le> highest_confirmed (peers w b) a"
      using rem w' that net_invD(3,4)[OF inv that(1,2,3)] by (cases "a = p") auto
    then show ?thesis using m[OF that(2,1)] by linarith
  qed
  ultimately show ?thesis using net_invD(5)[OF inv p] by (simp add: net_inv_def)
qed

lemma net_inv_init: "net_init N w \<Longrightarrow> net_inv N w"
proof -
  assume a: "net_init N w"
  have "own_ok N p (peers w p)" "knows (peers w p) q ctl"
      "remote_highest_confirmed (peers w p) q = 0" "highest_confirmed (peers w q) p = 0"
      if pq: "p < N" "q < N" for p q ctl
  proof -
    obtain c s where "our_checksums s = Map.empty" "peers w p = new_level c (int N) (int p) s"
      using a pq(1) by (auto simp: net_init_def)
    moreover obtain c' s' where "peers w q = new_level c' (int N) (int q) s'"
      using a pq(2) by (auto simp: net_init_def)
 ultimately show "own_ok N p (peers w p)" "knows (peers w p) q ctl"
      "remote_highest_confirmed (peers w p) q = 0" "highest_confirmed (peers w q) p = 0"
      by (simp_all add: own_ok_def knows_def new_level_def)
  qed
  then show ?thesis using a by (simp add: net_inv_def net_init_def)
qed

lemma knows_read:
  assumes "own_ok N p s" and "p < N" and "q < N" and "q \<noteq> p" and "knows s q ctl"
  shows "knows (read_local_controls inp s) q ctl"
proof -
  have v: "local_valid s" "lp s = p" "nat (nplayers s) = N" using assms by (auto simp: own_ok_def local_valid_def)
  obtain b where "controls (read_local_controls inp s) q = grow (length (controls s p) + 1) b (controls s q)"
    "highest_confirmed (read_local_controls inp s) q = highest_confirmed s q"
    using v assms(3,4) by (auto simp: read_local_controls_def Let_def extend_others_other repeat_last_eq split: prod.splits)
  then show ?thesis using assms(5) by (auto simp: knows_def nth_grow)
qed

lemma net_inv_read:
  assumes "net_inv N w" and "p < N" and "length (controls (peers w p) p) < 2147483646"
  shows "net_inv N (w\<lparr>peers := (peers w)(p := read_local_controls inp (peers w p))\<rparr>)"
proof -
  let ?s = "peers w p"
  let ?s' = "read_local_controls inp ?s"
  have o: "own_ok N p ?s" using net_invD(1)[OF assms(1,2)] .
  then have v: "local_valid ?s" "lp ?s = p" "nat (nplayers ?s) = N"
    using assms(2) by (auto simp: own_ok_def local_valid_def)
  obtain b ign where d: "read_devices inp ?s = (b, ign)" by fastforce
  have e: "controls ?s' p = controls ?s p @ [b]" "nplayers ?s' = nplayers ?s" "local_player ?s' = local_player ?s"
    "our_checksums ?s' = our_checksums ?s" "remote_highest_confirmed ?s' = remote_highest_confirmed ?s"
    "highest_confirmed ?s' = (highest_confirmed ?s)(p := highest_confirmed ?s p + 1)"
    using v d by (simp_all add: read_local_controls_def Let_def)
  show ?thesis
    by (rule net_inv_update[OF assms(1,2), where s' = ?s'])
      (use o e assms net_invD[OF assms(1,2)] in \<open>auto simp: own_ok_def intro!: knows_read\<close>)
qed

lemma net_inv_checksum:
  assumes "net_inv N w" and "p < N" and "i32 c"
  shows "net_inv N (w\<lparr>peers := (peers w)(p := set_checksum i c (peers w p))\<rparr>)"
  by (rule net_inv_update[OF assms(1,2), where s' = "set_checksum i c (peers w p)"])
    (use assms(3) net_invD[OF assms(1,2)] in \<open>auto simp: set_checksum_def own_ok_def knows_def\<close>)

lemma net_inv_valid:
  assumes "net_inv N w" and "p < N"
  shows "net_inv N (w\<lparr>peers := (peers w)(p := mark_valid (peers w p))\<rparr>)"
  by (rule net_inv_update[OF assms(1,2), where s' = "mark_valid (peers w p)"])
    (use net_invD[OF assms(1,2)] in \<open>auto simp: mark_valid_def own_ok_def knows_def\<close>)

section \<open>Sending\<close>

lemma write_packet:
  assumes inv: "net_inv N w" and p: "p < N" and wr: "write_control_packet [] (peers w p) = (v, s')"
  obtains cs chk h where
    "v = packet p (int (length (controls (peers w p) p)) - 1) chk h cs"
    "cs = drop (length (controls (peers w p) p) - length cs) (controls (peers w p) p)"
    "length cs \<le> length (controls (peers w p) p)" "0 \<le> h" "h \<le> 2147483646"
    "\<forall>b<N. h \<le> highest_confirmed (peers w p) b"
    "\<forall>b<N. b \<noteq> p \<longrightarrow> int (length (controls (peers w p) p)) - int (length cs) \<le> highest_confirmed (peers w b) p"
    "controls s' = controls (peers w p)" "highest_confirmed s' = highest_confirmed (peers w p)"
    "remote_highest_confirmed s' = remote_highest_confirmed (peers w p)"
    "nplayers s' = int N" "local_player s' = int p" "\<forall>i x. our_checksums s' i = Some x \<longrightarrow> i32 x"
proof -
  let ?s = "peers w p"
  let ?ctl = "controls ?s p"
  let ?L = "int (length ?ctl)"
  let ?T = "their_highest_confirmed ?s"
  have o: "nplayers ?s = int N" "local_player ?s = int p" "highest_confirmed ?s p = ?L" "?L \<le> 2147483646"
      "\<forall>i x. our_checksums ?s i = Some x \<longrightarrow> i32 x"
    using net_invD(1)[OF inv p] by (auto simp: own_ok_def)
  have v: "local_valid ?s" "lp ?s = p" using o p by (auto simp: local_valid_def)
  obtain chk s1 where c: "checksum_at (wrap32 (?L - 1) - 1) ?s = (chk, s1)" by fastforce
  have s1: "controls s1 = controls ?s" "highest_confirmed s1 = highest_confirmed ?s"
      "remote_highest_confirmed s1 = remote_highest_confirmed ?s" "nplayers s1 = int N" "local_player s1 = int p"
    using checksum_at_frame[of "wrap32 (?L - 1) - 1" ?s] c o by simp_all
  have s1c: "\<forall>i x. our_checksums s1 i = Some x \<longrightarrow> i32 x"
    using c o(5) by (auto simp: checksum_at_def i32_def split: option.splits if_splits)
  have eqs: "our_highest_confirmed s1 = our_highest_confirmed ?s" "their_highest_confirmed s1 = ?T"
    using s1 o by (simp_all add: our_highest_fold their_highest_fold)
  have hn: "\<forall>n<nat (nplayers ?s). 0 \<le> highest_confirmed ?s n"
    using net_invD(2)[OF inv p] o by (metis knows_def nat_int of_nat_0_le_iff)
  have h: "\<forall>b<N. our_highest_confirmed ?s \<le> highest_confirmed ?s b" "0 \<le> our_highest_confirmed ?s"
    using our_highest_le[OF hn] o(1) p by auto
  have rn: "\<forall>n<nat (nplayers ?s). int n \<noteq> local_player ?s \<longrightarrow> 0 \<le> remote_highest_confirmed ?s n"
    using net_invD(3)[OF inv p] o by simp
  define n where "n = (if as_size (?L - ?T) > ?L then ?L else ?L - ?T)"
  have T: "0 \<le> n \<and> n \<le> ?L \<and> (\<forall>b<N. b \<noteq> p \<longrightarrow> ?L - n \<le> highest_confirmed (peers w b) p)"
    using their_highest_cases[OF rn]
  proof (elim disjE conjE exE)
    assume t: "?T = -1" "\<forall>n<nat (nplayers ?s). int n = local_player ?s"
    have n: "n = ?L" using t(1) o(4) by (simp add: n_def)
    have "b = p" if b: "b < N" for b
    proof -
      have "int b = local_player ?s" using t(2) o(1) b by (metis nat_int)
      then show ?thesis using o(2) by simp
    qed
    then show ?thesis unfolding n by (metis of_nat_0_le_iff order_refl)
  next
    fix q
    assume t: "0 \<le> ?T" "\<forall>n<nat (nplayers ?s). int n \<noteq> local_player ?s \<longrightarrow> ?T \<le> remote_highest_confirmed ?s n"
      and q: "q < nat (nplayers ?s)" "int q \<noteq> local_player ?s" "?T = remote_highest_confirmed ?s q"
    have le: "?T \<le> highest_confirmed (peers w b) p" if "b < N" "b \<noteq> p" for b
      using t(2) net_invD(4)[OF inv p that(1,2)] that o by force
    have "knows (peers w q) p ?ctl" using net_invD(2)[OF inv _ p] q o by auto
    then have "?T \<le> ?L" using le[of q] q o by (auto simp: knows_def)
    then have "n = ?L - ?T" using t(1) o(4) by (simp add: n_def)
    then show ?thesis using le \<open>?T \<le> ?L\<close> t(1) by auto
  qed
  let ?cs = "drop (length ?ctl - nat n) ?ctl"
  have i: "wrap32 (?L - 1) = ?L - 1" using o(4) by (simp add: i32_def)
  have len: "length ?cs = nat n" using T by auto
  have e: "1 + (?L - 1) - ?T = ?L - ?T" by simp
  have n: "(if as_size (?L - ?T) > ?L then ?L else ?L - ?T) = n" by (simp add: n_def)
  have "write_control_packet [] ?s
      = ([word_of_int (int p)] @ be32 (?L - 1) @ be32 chk @ be32 (our_highest_confirmed ?s) @ be32 n @ ?cs,
         s1\<lparr>last_packet_size_var := ?L - ?T\<rparr>)"
    unfolding write_control_packet_def Let_def o(2) nat_int i c[unfolded i] prod.case eqs e n
    using v(1) by simp
  then have "(v, s') = (packet p (?L - 1) chk (our_highest_confirmed ?s) ?cs, s1\<lparr>last_packet_size_var := ?L - ?T\<rparr>)"
    using wr T unfolding packet_def len by simp
  then have vs: "v = packet p (?L - 1) chk (our_highest_confirmed ?s) ?cs"
    "s' = s1\<lparr>last_packet_size_var := ?L - ?T\<rparr>" by simp_all
  show thesis
  proof (rule that[OF vs(1)])
    show "?cs = drop (length ?ctl - length ?cs) ?ctl" unfolding len ..
    show "\<forall>b<N. b \<noteq> p \<longrightarrow> ?L - int (length ?cs) \<le> highest_confirmed (peers w b) p"
      using T unfolding len by simp
    show "our_highest_confirmed ?s \<le> 2147483646" using h(1) p o(3,4) by force
  qed (use h s1 s1c vs(2) in simp_all)
qed

lemma net_inv_send:
  assumes inv: "net_inv N w" and p: "p < N" and wr: "write_control_packet [] (peers w p) = (v, s')"
  shows "net_inv N (w\<lparr>peers := (peers w)(p := s'), sent := insert v (sent w)\<rparr>)"
proof (rule write_packet[OF inv p wr])
  let ?L = "length (controls (peers w p) p)"
  fix cs chk h
  assume v: "v = packet p (int ?L - 1) chk h cs"
      "cs = drop (?L - length cs) (controls (peers w p) p)" "length cs \<le> ?L" "0 \<le> h" "h \<le> 2147483646"
      "\<forall>b<N. h \<le> highest_confirmed (peers w p) b"
      "\<forall>b<N. b \<noteq> p \<longrightarrow> int ?L - int (length cs) \<le> highest_confirmed (peers w b) p"
    and s': "controls s' = controls (peers w p)" "highest_confirmed s' = highest_confirmed (peers w p)"
      "remote_highest_confirmed s' = remote_highest_confirmed (peers w p)"
      "nplayers s' = int N" "local_player s' = int p" "\<forall>i x. our_checksums s' i = Some x \<longrightarrow> i32 x"
  let ?peers = "(peers w)(p := s')"
  have vt: "v = packet p (int ?L - 1) chk h (take (length cs) (drop (nat (int ?L - 1 + 1) - length cs) (controls (?peers p) p)))"
    using v(1,2) s'(1) by simp
  have "packet_ok N ?peers v"
    unfolding packet_ok_def
    by (intro exI[of _ p] conjI exI[of _ "int ?L - 1"] exI[of _ chk] exI[of _ h] exI[of _ "length cs"])
      (use vt v p s' in auto)
  then show ?thesis
    by (intro net_inv_update[OF inv p, where s' = s'])
      (use s' net_invD[OF inv p] in \<open>auto simp: own_ok_def knows_def\<close>)
qed

section \<open>Delivery\<close>

lemma deliver_packet:
  assumes inv: "net_inv N w" and p: "p < N" and v: "packet_ok N (peers w) v"
  obtains (discarded) "fst (read_control_packet v (peers w p))
        = (peers w p)\<lparr>npackets_received := npackets_received (peers w p) + 1\<rparr>"
      "snd (read_control_packet v (peers w p)) \<in> {Own_Slot, Out_Of_Order}"
      "sint (v ! 0) = int p \<or> of_be32 (take 4 (drop 1 v)) < highest_confirmed (peers w p) (nat (sint (v ! 0)))"
  | (used) a cur chk h n where "a < N" "a \<noteq> p"
      "v = packet a cur chk h (take n (drop (nat (cur + 1) - n) (controls (peers w a) a)))"
      "cur < int (length (controls (peers w a) a))" "int n \<le> cur + 1" "0 \<le> h"
      "h \<le> highest_confirmed (peers w a) p" "cur + 1 - int n \<le> highest_confirmed (peers w p) a"
      "received_packet a v (peers w p) (fst (read_control_packet v (peers w p)))"
      "highest_confirmed (peers w p) a \<le> cur"
      "snd (read_control_packet v (peers w p)) = Accepted" "sint (v ! 0) = int a"
      "of_be32 (take 4 (drop 1 v)) = cur" "of_be32 (take 4 (drop 9 v)) = h"
      "drop 17 v = take n (drop (nat (cur + 1) - n) (controls (peers w a) a))"
proof -
  let ?s = "peers w p"
  let ?r = "read_control_packet v ?s"
  obtain a cur chk h n where a: "a < N"
    "v = packet a cur chk h (take n (drop (nat (cur + 1) - n) (controls (peers w a) a)))"
    "-1 \<le> cur" "cur < int (length (controls (peers w a) a))" "int n \<le> cur + 1" "0 \<le> h" "h \<le> 2147483646"
    "\<forall>b<N. h \<le> highest_confirmed (peers w a) b"
    "\<forall>b<N. b \<noteq> a \<longrightarrow> cur + 1 - int n \<le> highest_confirmed (peers w b) a"
    using v unfolding packet_ok_def by (elim exE conjE) (rule that, assumption+)
  define cs where "cs = take n (drop (nat (cur + 1) - n) (controls (peers w a) a))"
  have va: "v = packet a cur chk h cs" using a(2) by (simp only: cs_def)
  have o: "nplayers ?s = int N" "local_player ?s = int p" "N \<le> 8"
    "length (controls (peers w a) a) \<le> 2147483646"
    using net_invD(1,5)[OF inv p] net_invD(1)[OF inv a(1)] by (auto simp: own_ok_def)
  have cs: "length cs = n" using a(4,5) by (simp add: cs_def)
  have f: "17 \<le> length v" "sint (v ! 0) = int a" "of_be32 (take 4 (drop 1 v)) = cur"
    "of_be32 (take 4 (drop 9 v)) = h" "of_be32 (take 4 (drop 13 v)) = int n" "drop 17 v = cs"
    unfolding va using packet_fields[of a cur h cs chk] a(1,3-7) o cs by (simp_all add: i32_def)
  show thesis
  proof (cases "a = p \<or> cur < highest_confirmed ?s a")
    case True
    then have "fst ?r = ?s\<lparr>npackets_received := npackets_received ?s + 1\<rparr>"
      "snd ?r \<in> {Own_Slot, Out_Of_Order}"
      using f a(1) o by (auto simp: read_control_packet_def Let_def)
    moreover have "sint (v ! 0) = int p \<or> of_be32 (take 4 (drop 1 v)) < highest_confirmed ?s (nat (sint (v ! 0)))"
      using True f(2,3) by auto
    ultimately show thesis by (rule discarded)
  next
    case False
    have h: "0 \<le> highest_confirmed ?s a" using net_invD(2)[OF inv p a(1)] False by (simp add: knows_def)
    have i: "\<forall>q<nat (nplayers ?s). int q \<noteq> local_player ?s \<longrightarrow> 0 \<le> highest_confirmed ?s q"
      using net_invD(2)[OF inv p] o by (auto simp: knows_def)
    obtain s2 where s2: "highest_confirmed s2 = highest_confirmed ?s"
      "?r = (if length v < 17 then (s2, Undefined) else accept_cycles (nat (sint (v ! 0)))
           (of_be32 (take 4 (drop 1 v))) (of_be32 (take 4 (drop 13 v))) (drop 17 v) s2)"
      by (rule read_control_packet_tail[of v ?s]) (use f o a(1) False in auto)
    have "0 \<le> highest_confirmed s2 a" "highest_confirmed s2 a \<le> cur" "cur < 2147483647"
      "int (length cs) = int n" using s2(1) h False a(4) o(4) cs by auto
    then have acc: "snd ?r = Accepted"
      using accept_cycles_eq[of s2 a cur cs "int n"] s2(2) f by (auto simp del: length_take length_drop)
    then have rp: "received_packet a v ?s (fst ?r)"
      by (cases rule: read_control_packet_cases[OF i, of v]) (use f(2) acc in auto)
    have np: "a \<noteq> p" "highest_confirmed ?s a \<le> cur" using False by auto
    have ha: "h \<le> highest_confirmed (peers w a) p" using a(8) p by simp
    have na: "cur + 1 - int n \<le> highest_confirmed ?s a" using a(9) p np(1) by simp
    show thesis by (rule used[OF a(1) np(1) a(2,4-6) ha na rp np(2) acc f(2,3,4) f(6)[unfolded cs_def]])
  qed
qed

lemma received_agrees:
  assumes "0 \<le> highest_confirmed s q" and "highest_confirmed s q \<le> cur" and "knows s q ctl"
    and "cur < int (length ctl)" and "int n \<le> cur + 1" and "cur + 1 - int n \<le> highest_confirmed s q"
    and "highest_confirmed s' q = cur"
    and "controls s' q = received (highest_confirmed s q) cur (take n (drop (nat (cur + 1) - n) ctl)) (controls s q)"
  shows "\<forall>k. int k \<le> cur \<longrightarrow> k < length (controls s' q) \<and> controls s' q ! k = ctl ! k"
proof -
  let ?h = "highest_confirmed s q"
  define buf where "buf = take n (drop (nat (cur + 1) - n) ctl)"
  have len: "length buf = n" using assms(4,5) by (simp add: buf_def)
  have ctl': "controls s' q = received ?h cur buf (controls s q)" using assms(8) by (simp only: buf_def)
  have n: "0 < n" using assms by linarith
  have "k < length (controls s' q) \<and> controls s' q ! k = ctl ! k" if k: "int k \<le> cur" for k
  proof
    have "nat cur < length (controls s' q)"
      using received_length(2)[OF assms(1,2), of buf "controls s q"] n len ctl' by fastforce
    then show "k < length (controls s' q)" using k by linarith
    show "controls s' q ! k = ctl ! k"
    proof (cases "int k < ?h")
      case True
      then have "k < length (controls s q)" "controls s q ! k = ctl ! k" using assms(3) by (auto simp: knows_def)
      then show ?thesis using received_confirmed[OF assms(1,2) True] ctl' by simp
    next
      case False
      have "controls s' q ! k = buf ! nat (int k - (cur + 1 - int n))"
        using received_new[of ?h k cur buf "controls s q"] False k assms(1,6) len ctl' by simp
      also have "\<dots> = ctl ! (nat (cur + 1) - n + nat (int k - (cur + 1 - int n)))"
        unfolding buf_def using False k assms(1,4-6) by (subst nth_take) auto
      also have "nat (cur + 1) - n + nat (int k - (cur + 1 - int n)) = k"
        using False k assms(1,2,5,6) by linarith
      finally show ?thesis .
    qed
  qed
  then show ?thesis by simp
qed

lemma received_knows:
  assumes "0 \<le> highest_confirmed s q" and "highest_confirmed s q \<le> cur" and "knows s q ctl"
    and "cur < int (length ctl)" and "int n \<le> cur + 1" and "cur + 1 - int n \<le> highest_confirmed s q"
    and "highest_confirmed s' q = cur"
    and "controls s' q = received (highest_confirmed s q) cur (take n (drop (nat (cur + 1) - n) ctl)) (controls s q)"
  shows "knows s' q ctl"
  using received_agrees[OF assms] assms(1,2,4,7) by (simp add: knows_def)

lemma read_control_packet_checksums:
  assumes "\<forall>i v. our_checksums s i = Some v \<longrightarrow> i32 v"
  shows "\<forall>i v. our_checksums (fst (read_control_packet buf s)) i = Some v \<longrightarrow> i32 v"
proof (cases "length buf < 13 \<or> sint (buf ! 0) < 0 \<or> sint (buf ! 0) \<ge> nplayers s \<or> sint (buf ! 0) = local_player s
        \<or> of_be32 (take 4 (drop 1 buf)) < highest_confirmed s (nat (sint (buf ! 0)))")
  case True
  then show ?thesis using assms read_control_packet_head by simp
next
  case False
  obtain s2 where s2: "our_checksums s2 = our_checksums s
      \<or> our_checksums s2 = (our_checksums s)(of_be32 (take 4 (drop 1 buf)) - 1 \<mapsto> 0)"
    "read_control_packet buf s = (if length buf < 17 then (s2, Undefined)
       else accept_cycles (nat (sint (buf ! 0))) (of_be32 (take 4 (drop 1 buf)))
              (of_be32 (take 4 (drop 13 buf))) (drop 17 buf) s2)"
    by (rule read_control_packet_tail[of buf s]) (use False in auto)
  have "our_checksums (fst (accept_cycles slot cur n b s2)) = our_checksums s2" for slot cur n b
    by (auto simp: accept_cycles_def Let_def split: option.splits prod.splits)
  then have "our_checksums (fst (read_control_packet buf s)) = our_checksums s2" using s2(2) by simp
  then show ?thesis using s2(1) assms by (auto simp: i32_def split: if_splits)
qed

lemma net_inv_deliver:
  assumes inv: "net_inv N w" and p: "p < N" and v: "v \<in> sent w"
  shows "net_inv N (w\<lparr>peers := (peers w)(p := fst (read_control_packet v (peers w p)))\<rparr>)"
proof -
  let ?s = "peers w p"
  let ?s' = "fst (read_control_packet v ?s)"
  have ok: "packet_ok N (peers w) v" using inv v by (simp add: net_inv_def)
  note D = net_invD[OF inv p]
  show ?thesis
  proof (cases rule: deliver_packet[OF inv p ok, case_names discarded used])
    case discarded
    show ?thesis
      by (rule net_inv_update[OF inv p, where s' = ?s'])
        (use D discarded(1) in \<open>auto simp: own_ok_def knows_def\<close>)
  next
    case (used a cur chk h n)
    have o: "nplayers ?s = int N" "local_player ?s = int p"
      "highest_confirmed ?s p = int (length (controls ?s p))" "length (controls ?s p) \<le> 2147483646"
      "\<forall>i v. our_checksums ?s i = Some v \<longrightarrow> i32 v"
      using D(1) by (auto simp: own_ok_def)
    let ?cs = "take n (drop (nat (cur + 1) - n) (controls (peers w a) a))"
    have ka: "knows ?s a (controls (peers w a) a)" using D(2) used(1,2) by simp
    then have h0: "0 \<le> highest_confirmed ?s a" by (simp add: knows_def)
    have r: "same_but a ?s ?s'" "highest_confirmed ?s' a = cur"
        "controls ?s' a = received (highest_confirmed ?s a) cur ?cs (controls ?s a)"
        "remote_highest_confirmed ?s' a = max h (remote_highest_confirmed ?s a)"
      using used(9,13-15) by (simp_all add: received_packet_def Let_def)
    have k: "knows ?s' a (controls (peers w a) a)"
      by (rule received_knows[OF h0 used(10) ka used(4,5,8) r(2,3)])
    have same: "controls ?s' q = controls ?s q" "highest_confirmed ?s' q = highest_confirmed ?s q"
      "remote_highest_confirmed ?s' q = remote_highest_confirmed ?s q" if "q \<noteq> a" for q
      using r(1) that by (simp_all add: same_but_def)
    have own: "own_ok N p ?s'"
      using o r(1) same[of p] used(2) read_control_packet_checksums[OF o(5), of v]
      by (simp add: own_ok_def same_but_def)
    show ?thesis
    proof (rule net_inv_update[OF inv p, where s' = ?s'])
      show "\<forall>q<N. highest_confirmed ?s q \<le> highest_confirmed ?s' q"
        using same(2) r(2) used(10) by (metis order_refl)
      show "\<forall>q<N. q \<noteq> p \<longrightarrow> knows ?s' q (controls (peers w q) q)"
      proof (intro allI impI)
        fix q assume q: "q < N" "q \<noteq> p"
        show "knows ?s' q (controls (peers w q) q)"
        proof (cases "q = a")
          case False
          then show ?thesis using D(2)[OF q] same[OF False] by (simp add: knows_def)
        qed (simp add: k)
      qed
      show "\<forall>q<N. q \<noteq> p \<longrightarrow> 0 \<le> remote_highest_confirmed ?s' q
          \<and> remote_highest_confirmed ?s' q \<le> highest_confirmed (peers w q) p"
      proof (intro allI impI)
        fix q assume q: "q < N" "q \<noteq> p"
        show "0 \<le> remote_highest_confirmed ?s' q
            \<and> remote_highest_confirmed ?s' q \<le> highest_confirmed (peers w q) p"
          using D(3,4)[OF q] same(3)[of q] r(4) used(6,7) by (cases "q = a") simp_all
      qed
    qed (use own same[of p] used(2) in simp_all)
  qed
qed

lemma net_inv_reachable: "net_reachable N w \<Longrightarrow> net_inv N w"
proof (induction rule: net_reachable.induct)
  case (start w)
  then show ?case by (rule net_inv_init)
next
  case (step w w')
  from step.hyps(2) step.IH show ?case
    by (cases rule: net_step.cases)
      (simp_all add: net_inv_read net_inv_send net_inv_deliver net_inv_checksum net_inv_valid)
qed

lemma net_reachableD:
  assumes "net_reachable N w" and "p < N" and "q < N" and "p \<noteq> q"
  shows "knows (peers w p) q (controls (peers w q) q)"
    and "nplayers (peers w p) = int N" and "local_player (peers w p) = int p"
  using net_invD[OF net_inv_reachable[OF assms(1)]] assms(2-4) by (auto simp: own_ok_def)

section \<open>A run\<close>

definition no_input :: input_state where
  "no_input = \<lparr>key_down = (\<lambda>_. False), touch_enabled = False, touch = (\<lambda>_. False), joy = (\<lambda>_. False)\<rparr>"

definition press :: "nat \<Rightarrow> input_state" where
  "press c = no_input\<lparr>joy := (\<lambda>n. n = c)\<rparr>"

text \<open>Two peers at the start of a level.\<close>

definition run0 :: network where
  "run0 = \<lparr>peers = (\<lambda>p. new_level 0 2 (int p) sample_controls), sent = {}\<rparr>"

lemma run0_reachable: "net_reachable 2 run0"
proof (rule net_reachable.start)
  have "our_checksums sample_controls = Map.empty" by (simp add: sample_controls_def)
  then show "net_init 2 run0" unfolding net_init_def run0_def by auto
qed

definition reads :: "nat \<Rightarrow> input_state \<Rightarrow> network \<Rightarrow> network" where
  "reads p inp w = w\<lparr>peers := (peers w)(p := read_local_controls inp (peers w p))\<rparr>"

definition sends :: "nat \<Rightarrow> network \<Rightarrow> network" where
  "sends p w = w\<lparr>peers := (peers w)(p := snd (write_control_packet [] (peers w p))),
     sent := insert (fst (write_control_packet [] (peers w p))) (sent w)\<rparr>"

definition delivers :: "nat \<Rightarrow> byte list \<Rightarrow> network \<Rightarrow> network" where
  "delivers p v w = w\<lparr>peers := (peers w)(p := fst (read_control_packet v (peers w p)))\<rparr>"

lemma reads_reachable:
  "net_reachable N w \<Longrightarrow> p < N \<Longrightarrow> length (controls (peers w p) p) < 2147483646 \<Longrightarrow> net_reachable N (reads p inp w)"
  unfolding reads_def by (rule net_reachable.step, assumption, rule read_step)

lemma sends_reachable: "net_reachable N w \<Longrightarrow> p < N \<Longrightarrow> net_reachable N (sends p w)"
  unfolding sends_def by (rule net_reachable.step, assumption, rule send_step) simp_all

lemma delivers_reachable:
  "net_reachable N w \<Longrightarrow> p < N \<Longrightarrow> v \<in> sent w \<Longrightarrow> net_reachable N (delivers p v w)"
  unfolding delivers_def by (rule net_reachable.step, assumption, rule deliver_step)

text \<open>Player 1 presses jump and tongue in its first two cycles and sends them to player 0.\<close>

definition run1 :: network where "run1 = reads 0 no_input (reads 1 (press 6) (reads 1 (press 5) run0))"
definition packet1 :: "byte list" where "packet1 = fst (write_control_packet [] (peers run1 1))"
definition run2 :: network where "run2 = delivers 0 packet1 (sends 1 run1)"

lemma run1_eval:
  "controls (peers run1 1) 1 = [32, 64]" "controls (peers run1 0) 1 = [0]" "controls (peers run1 0) 0 = [0]"
  by code_simp+

lemma run_evals:
  "controls (peers run0 1) 1 = []" "controls (peers (reads 1 (press 5) run0) 1) 1 = [32]"
  "controls (peers (reads 1 (press 6) (reads 1 (press 5) run0)) 0) 0 = []"
  by code_simp+

lemma run1_reachable: "net_reachable 2 run1"
  unfolding run1_def
  by (intro reads_reachable run0_reachable) (simp_all add: run_evals[simplified])

lemma run2_reachable: "net_reachable 2 run2"
  unfolding run2_def by (intro delivers_reachable sends_reachable run1_reachable) (simp_all add: sends_def packet1_def)

lemma run2_eval: "highest_confirmed (peers run2 0) 1 = 1" "starting_cycles (peers run2 0) = 0" "delay (peers run2 0) = 0"
  by code_simp+

section \<open>Properties\<close>

text \<open>C1: Lockstep. Whatever the network loses, repeats, delays or reorders: the controls of another
  player that a peer has confirmed are the ones that player recorded, cycle by cycle.\<close>

theorem confirmed_controls_agree:
  assumes "net_reachable N w" and "p < N" and "q < N" and "p \<noteq> q"
    and "0 < highest_confirmed (peers w p) q" and "int k \<le> highest_confirmed (peers w p) q"
  shows "k < length (controls (peers w p) q) \<and> k < length (controls (peers w q) q)
    \<and> controls (peers w p) q ! k = controls (peers w q) q ! k"
  using net_reachableD(1)[OF assms(1-4)] assms(5,6) by (auto simp: knows_def)

lemma confirmed_controls_agree_witness:
  "controls (peers run2 0) 1 ! 1 = controls (peers run2 1) 1 ! 1"
  using confirmed_controls_agree[OF run2_reachable, of 0 1 1] by (simp add: run2_eval[simplified])

text \<open>C31: A packet that any peer ever sent is, whenever it is delivered, accepted, or dropped as an own
  or an outdated one: the code never reads past it, never fails its assertion and never takes it for
  malformed.\<close>

theorem sent_packets_well_received:
  assumes "net_reachable N w" and "p < N" and "v \<in> sent w"
  shows "snd (read_control_packet v (peers w p)) \<in> {Accepted, Own_Slot, Out_Of_Order}"
proof -
  have inv: "net_inv N w" by (rule net_inv_reachable[OF assms(1)])
  then have ok: "packet_ok N (peers w) v" using assms(3) by (simp add: net_inv_def)
  show ?thesis by (cases rule: deliver_packet[OF inv assms(2) ok]) auto
qed

lemma sent_packets_well_received_witness:
  "snd (read_control_packet packet1 (peers (sends 1 run1) 0)) \<in> {Accepted, Own_Slot, Out_Of_Order}"
  by (rule sent_packets_well_received[OF sends_reachable[OF run1_reachable]])
    (simp_all add: sends_def packet1_def)

text \<open>C11: A packet carries every cycle that some peer may still miss: once the packet a player writes
  now arrives, the receiver has confirmed all that this player has recorded, and holds it, whatever
  was lost before.\<close>

theorem latest_packet_repairs:
  assumes "net_reachable N w" and "p < N" and "q < N" and "p \<noteq> q"
    and "controls (peers w q) q \<noteq> []" and "write_control_packet [] (peers w q) = (v, s')"
    and "read_control_packet v (peers w p) = (s2, outcome)"
  shows "outcome = Accepted \<and> highest_confirmed s2 q = int (length (controls (peers w q) q)) - 1
    \<and> take (length (controls (peers w q) q)) (controls s2 q) = controls (peers w q) q"
proof -
  let ?L = "length (controls (peers w q) q)"
  let ?w = "w\<lparr>peers := (peers w)(q := s'), sent := insert v (sent w)\<rparr>"
  have inv: "net_inv N w" by (rule net_inv_reachable[OF assms(1)])
  have inv': "net_inv N ?w" by (rule net_inv_send[OF inv assms(3,6)])
  then have ok: "packet_ok N (peers ?w) v" by (simp add: net_inv_def)
  obtain cs chk h where v: "v = packet q (int ?L - 1) chk h cs" "length cs \<le> ?L" "0 \<le> h" "h \<le> 2147483646"
      "controls s' = controls (peers w q)"
    by (rule write_packet[OF inv assms(3,6)])
  have o: "N \<le> 8" "?L \<le> 2147483646" "local_player (peers w p) = int p"
    using net_invD[OF inv assms(3)] net_reachableD(3)[OF assms(1-4)] by (auto simp: own_ok_def)
  have f: "sint (v ! 0) = int q" "of_be32 (take 4 (drop 1 v)) = int ?L - 1" "17 \<le> length v"
    unfolding v(1) using packet_fields[of q "int ?L - 1" h cs chk] v(2-4) o assms(3) by (simp_all add: i32_def)
  have r: "read_control_packet v (peers ?w p) = (s2, outcome)" using assms(4,7) by simp
  have kn: "knows (peers w p) q (controls (peers w q) q)" by (rule net_reachableD(1)[OF assms(1-4)])
  have le: "highest_confirmed (peers w p) q \<le> int ?L - 1"
    using kn assms(5) by (auto simp: knows_def simp flip: length_greater_0_conv)
  show ?thesis
  proof (cases rule: deliver_packet[OF inv' assms(2) ok, case_names discarded used])
    case discarded
    then show ?thesis using f(1,2) le assms(4) by simp
  next
    case (used a cur chk' h' n)
    have a: "a = q" "cur = int ?L - 1" using used(12,13) f(1,2) by simp_all
    have kn0: "0 \<le> highest_confirmed (peers ?w p) q" using kn assms(4) by (simp add: knows_def)
    have "received_packet q v (peers w p) s2" "outcome = Accepted" using used(9,11) r a assms(4) by simp_all
    then have s2: "highest_confirmed s2 q = cur" "controls s2 q = received (highest_confirmed (peers w p) q) cur
        (take n (drop (nat (cur + 1) - n) (controls (peers w q) q))) (controls (peers w p) q)"
      using used(13,15) a v(5) by (simp_all add: received_packet_def Let_def)
    have ag: "\<forall>k. int k \<le> cur \<longrightarrow> k < length (controls s2 q) \<and> controls s2 q ! k = controls (peers w q) q ! k"
      by (rule received_agrees[OF _ _ kn _ _ _ s2]) (use kn0 le a used(5,8) assms(4) in simp_all)
    have "?L \<le> length (controls s2 q)"
      using ag[rule_format, of "?L - 1"] a(2) assms(5) by (cases "controls (peers w q) q") auto
    then have "take ?L (controls s2 q) = controls (peers w q) q"
      by (intro nth_equalityI) (use ag a(2) in auto)
    then show ?thesis using s2(1) a(2) \<open>outcome = Accepted\<close> by simp
  qed
qed

lemma latest_packet_repairs_witness:
  "take 2 (controls (fst (read_control_packet packet1 (peers run1 0))) 1) = [32, 64]"
proof -
  have "take 2 (controls (fst (read_control_packet packet1 (peers run1 0))) 1) = controls (peers run1 1) 1"
    using latest_packet_repairs[OF run1_reachable, of 0 1 packet1 "snd (write_control_packet [] (peers run1 1))"
      "fst (read_control_packet packet1 (peers run1 0))" "snd (read_control_packet packet1 (peers run1 0))"]
    by (simp add: run1_eval[simplified] packet1_def numeral_2_eq_2)
  then show ?thesis by (simp add: run1_eval[simplified])
qed

lemma control_flags_eq:
  assumes "n = cycle0 - 1 - starting_cycles s - delay s" and "0 \<le> n" and "n \<le> highest_confirmed s q"
    and "n < int (length (controls s q))"
  shows "get_control_status wait cycle0 (int q) s
    = Inr (s, Some (map (\<lambda>b. controls s q ! nat n AND push_bit b 1 \<noteq> 0) [0..<NUM_CONTROLS]))"
  using assms by (simp add: get_control_status_def Let_def)

text \<open>C28: The flags the game logic reads for another player and a confirmed cycle (past the first) are
  those of the controls that player recorded for it: it neither waits nor fails.\<close>

theorem status_is_recorded_input:
  assumes "net_reachable N w" and "p < N" and "q < N" and "p \<noteq> q"
    and "n = cycle0 - 1 - starting_cycles (peers w p) - delay (peers w p)"
    and "1 \<le> n" and "n \<le> highest_confirmed (peers w p) q"
  shows "get_control_status wait cycle0 (int q) (peers w p)
    = Inr (peers w p, Some (map (\<lambda>b. controls (peers w q) q ! nat n AND push_bit b 1 \<noteq> 0) [0..<NUM_CONTROLS]))"
proof -
  have k: "nat n < length (controls (peers w p) q)" "controls (peers w p) q ! nat n = controls (peers w q) q ! nat n"
    using net_reachableD(1)[OF assms(1-4)] assms(6,7) by (auto simp: knows_def)
  have n: "0 \<le> n" "n < int (length (controls (peers w p) q))" using k(1) assms(6) by auto
  show ?thesis unfolding control_flags_eq[OF assms(5) n(1) assms(7) n(2)] k(2) ..
qed

lemma status_is_recorded_input_witness:
  "get_control_status (\<lambda>s. s) 2 1 (peers run2 0)
    = Inr (peers run2 0, Some (map (\<lambda>b. controls (peers run2 1) 1 ! 1 AND push_bit b 1 \<noteq> 0) [0..<NUM_CONTROLS]))"
  using status_is_recorded_input[OF run2_reachable, of 0 1 1 2 "\<lambda>s. s"] by (simp add: run2_eval[simplified])


end
