(* ===== verification/CT_Base64.thy ===== *)
theory CT_Base64
  imports CT_CLib
begin

text \<open>
  \<open>src/base64.cpp\<close>. Both functions write through an iterator into a vector they have sized
  beforehand; a write past its end is undefined: \<open>None\<close>. The text and the data are strings of
  bytes, \<open>of_char\<close> is the value of a byte as an \<open>unsigned char\<close>.
\<close>

unbundle bit_operations_syntax

section \<open>Encoding\<close>

definition base64chars :: string where
  "base64chars = ''ABCDEFGHIJKLMNOPQRSTUVWXYZabcdefghijklmnopqrstuvwxyz0123456789+/''"

text \<open>The entries 43 to 122 of \<open>_base64inv\<close>; the ones before are zero.\<close>

definition base64inv :: "int list" where
  "base64inv = replicate 43 0 @ [62, 0, 0, 0, 63, 52, 53, 54, 55, 56, 57, 58, 59, 60, 61]
     @ replicate 7 0 @ [0..25] @ replicate 6 0 @ [26..51] @ [0]"

definition encode_buffer_req :: "int \<Rightarrow> int \<Rightarrow> int" where
  "encode_buffer_req n0 output_line_len =
     (let n = (n0 + 2) div 3 * 4 in if output_line_len > 0 then n + n div output_line_len else n)"

definition b64_char :: "int \<Rightarrow> char" where
  "b64_char k = base64chars ! nat k"

text \<open>\<open>encode_block\<close>: \<open>data\<close> holds the \<open>len\<close> bytes left, at most three.\<close>

definition encode_block :: "string \<Rightarrow> string" where
  "encode_block data =
     (let len = length data;
          inb = (\<lambda>i. if len > i then of_char (data ! i) else 0 :: int)
      in [b64_char (drop_bit 2 (inb 0)),
          b64_char (push_bit 4 (inb 0 AND 3) OR drop_bit 4 (inb 1 AND 240)),
          if len > 1 then b64_char (push_bit 2 (inb 1 AND 15) OR drop_bit 6 (inb 2 AND 192)) else CHR ''='',
          if len > 2 then b64_char (inb 2 AND 63) else CHR ''=''])"

text \<open>The loop over the blocks and what follows it: everything the code writes.\<close>

function encode_loop :: "int \<Rightarrow> int \<Rightarrow> string \<Rightarrow> string" where
  "encode_loop L line_cnt data =
     (if data = [] then (if line_cnt \<ge> L then [NL] else [])
      else encode_block (take 3 data) @
           (if line_cnt + 4 \<ge> L then NL # encode_loop L 0 (drop 3 data)
            else encode_loop L (line_cnt + 4) (drop 3 data)))"
  by pat_completeness auto
termination
  by (relation "measure (\<lambda>(L, line_cnt, data). length data)") auto

declare encode_loop.simps [simp del]

definition b64encode :: "string \<Rightarrow> int \<Rightarrow> string option" where
  "b64encode data output_line_length =
     (let size = nat (encode_buffer_req (int (length data)) output_line_length);
          out = encode_loop output_line_length 0 data
      in if length out \<le> size then Some (out @ replicate (size - length out) NUL) else None)"

section \<open>Decoding\<close>

definition decode_buffer_req :: "int \<Rightarrow> int" where
  "decode_buffer_req n = (n + 3) div 4 * 3"

definition is_base64_char :: "char \<Rightarrow> bool" where
  "is_base64_char ch \<longleftrightarrow> isupper ch \<or> islower ch \<or> isdigit ch \<or> ch = CHR ''+'' \<or> ch = CHR ''/''"

definition b64_inv :: "char \<Rightarrow> int" where
  "b64_inv c = base64inv ! char_code c"

definition decodeblock :: "string \<Rightarrow> string" where
  "decodeblock inb =
     (let nn = push_bit 18 (b64_inv (inb ! 0)) OR push_bit 12 (b64_inv (inb ! 1))
               OR push_bit 6 (b64_inv (inb ! 2)) OR b64_inv (inb ! 3)
      in [char_of (drop_bit 16 nn), char_of (drop_bit 8 nn), char_of nn])"

text \<open>The filled part of the block buffer, the counters and what has been written.\<close>

fun decode_loop :: "string \<Rightarrow> int \<Rightarrow> int \<Rightarrow> string \<Rightarrow> string \<Rightarrow> string \<times> int" where
  "decode_loop buf padding cnt out [] = (out, cnt)"
| "decode_loop buf padding cnt out (c # cs) =
     (let ch = (if c = CHR ''='' then CHR ''A'' else c);
          padding' = (if c = CHR ''='' then padding + 1 else padding)
      in if is_base64_char ch
         then (if length buf + 1 \<ge> 4
               then decode_loop [] 0 (cnt + (3 - padding')) (out @ decodeblock (buf @ [ch])) cs
               else decode_loop (buf @ [ch]) padding' cnt out cs)
         else decode_loop buf padding' cnt out cs)"

datatype decode_error = Overrun | Length_Error

text \<open>\<open>dest.resize(cnt)\<close> converts a negative count to a huge unsigned one and throws.\<close>

definition b64decode :: "string \<Rightarrow> decode_error + string" where
  "b64decode data =
     (let size = nat (decode_buffer_req (int (length data)));
          (out, cnt) = decode_loop [] 0 0 [] data
      in if length out > size then Inl Overrun
         else if cnt < 0 then Inl Length_Error
         else Inr (take (nat cnt) (grow (nat cnt) NUL (out @ replicate (size - length out) NUL))))"

section \<open>Blocks\<close>

lemma all_sextets:
  assumes "0 \<le> (k::int)" and "k < 64"
  shows "b64_inv (b64_char k) = k \<and> is_base64_char (b64_char k) \<and> b64_char k \<noteq> CHR ''=''"
proof -
  have "\<forall>k \<in> set [0..63]. b64_inv (b64_char k) = k \<and> is_base64_char (b64_char k) \<and> b64_char k \<noteq> CHR ''=''"
    by code_simp
  then show ?thesis using assms by simp
qed

lemma b64_inv_A [simp]: "b64_inv (CHR ''A'') = 0"
  by code_simp

lemma base64_A [simp]: "is_base64_char (CHR ''A'')" "\<not> is_base64_char NL" "\<not> is_base64_char NUL"
  by code_simp+

lemma of_char_bounds: "0 \<le> (of_char c :: int)" "(of_char c :: int) < 256"
proof -
  have "of_nat (of_char c :: nat) = (of_char c :: int)" by (rule of_nat_of_char)
  moreover have "(of_char c :: nat) < 256" by simp
  ultimately show "0 \<le> (of_char c :: int)" "(of_char c :: int) < 256" by linarith+
qed

text \<open>The four sextets of three bytes, and back.\<close>

lemma push_or:
  fixes y :: int
  assumes "0 \<le> y" and "y < 2 ^ k"
  shows "push_bit k x OR y = x * 2 ^ k + y"
proof -
  have "bit y n \<Longrightarrow> n < k" for n
    using assms by (metis bit_take_bit_iff take_bit_int_eq_self)
  then have "push_bit k x + y = push_bit k x OR y"
    by (intro disjunctive_add) (metis bit_push_bit_iff not_less)
  then show ?thesis by (simp add: push_bit_eq_mult)
qed

lemma sextet_bits:
  fixes a b c :: int
  assumes "0 \<le> a" "a < 256" "0 \<le> b" "b < 256" "0 \<le> c" "c < 256"
  defines "s0 \<equiv> drop_bit 2 a"
    and "s1 \<equiv> push_bit 4 (a AND 3) OR drop_bit 4 (b AND 240)"
    and "s2 \<equiv> push_bit 2 (b AND 15) OR drop_bit 6 (c AND 192)"
    and "s3 \<equiv> c AND 63"
  shows "0 \<le> s0 \<and> s0 < 64" "0 \<le> s1 \<and> s1 < 64" "0 \<le> s2 \<and> s2 < 64" "0 \<le> s3 \<and> s3 < 64"
    and "push_bit 18 s0 OR push_bit 12 s1 OR push_bit 6 s2 OR s3 = push_bit 16 a OR push_bit 8 b OR c"
proof -
  have m: "(3::int) = mask 2" "(15::int) = mask 4" "(63::int) = mask 6"
    by (simp_all add: mask_eq_exp_minus_1)
  have lo: "x AND 3 = x mod 4" "x AND 15 = x mod 16" "x AND 63 = x mod 64" for x :: int
    unfolding m by (simp_all add: take_bit_eq_mask[symmetric] take_bit_eq_mod)
  have hi: "drop_bit 4 (x AND 240) = (x div 16) mod 16" "drop_bit 6 (x AND 192) = (x div 64) mod 4" for x :: int
    using lo(2)[of "x div 16"] lo(1)[of "x div 64"] drop_bit_and[of 4 x 240] drop_bit_and[of 6 x 192]
    by (simp_all add: drop_bit_eq_div)
  have s: "s0 = a div 4" "s1 = (a mod 4) * 16 + b div 16" "s2 = (b mod 16) * 4 + c div 64" "s3 = c mod 64"
    unfolding s0_def s1_def s2_def s3_def hi lo
    using assms(1-6) by (simp_all add: push_or drop_bit_eq_div)
  have lin: "p * 4 + q = a \<Longrightarrow> u * 16 + v = b \<Longrightarrow> y * 64 + z = c \<Longrightarrow>
      p * 262144 + (q * 16 + u) * 4096 + (v * 4 + y) * 64 + z = a * 65536 + b * 256 + c" for p q u v y z :: int
    by (simp add: algebra_simps)
  show r: "0 \<le> s0 \<and> s0 < 64" "0 \<le> s1 \<and> s1 < 64" "0 \<le> s2 \<and> s2 < 64" "0 \<le> s3 \<and> s3 < 64"
    unfolding s using assms(1-6) by auto
  have "push_bit 18 s0 OR push_bit 12 s1 OR push_bit 6 s2 OR s3 = s0 * 262144 + s1 * 4096 + s2 * 64 + s3"
    using r by (simp add: push_or)
  also have "\<dots> = a * 65536 + b * 256 + c" unfolding s
    by (rule lin) (rule div_mult_mod_eq)+
  also have "\<dots> = push_bit 16 a OR push_bit 8 b OR c"
    using assms(1-6) by (simp add: push_or)
  finally show "push_bit 18 s0 OR push_bit 12 s1 OR push_bit 6 s2 OR s3 = push_bit 16 a OR push_bit 8 b OR c" .
qed

lemma char_of_byte:
  fixes k :: int
  assumes "take_bit 8 k = of_char x"
  shows "char_of k = x"
  using assms by (metis char_of_char char_of_take_bit_eq order_refl)

lemma block_bytes:
  fixes a b c :: int
  assumes "0 \<le> a" "a < 256" "0 \<le> b" "b < 256" "0 \<le> c" "c < 256"
  shows "take_bit 8 (drop_bit 16 (push_bit 16 a OR push_bit 8 b OR c)) = a"
    and "take_bit 8 (drop_bit 8 (push_bit 16 a OR push_bit 8 b OR c)) = b"
    and "take_bit 8 (push_bit 16 a OR push_bit 8 b OR c) = c"
proof -
  have t: "a = take_bit 8 a" "b = take_bit 8 b" "c = take_bit 8 c"
    using assms by (simp_all add: take_bit_int_eq_self)
  have hi: "bit a n \<Longrightarrow> n < 8" "bit b n \<Longrightarrow> n < 8" "bit c n \<Longrightarrow> n < 8" for n
    using t by (metis bit_take_bit_iff)+
  then have hi': "\<not> bit a (8 + n)" "\<not> bit b (8 + n)" "\<not> bit c (8 + n)" "\<not> bit b (16 + n)" "\<not> bit c (16 + n)" for n
    by fastforce+
  show "take_bit 8 (drop_bit 16 (push_bit 16 a OR push_bit 8 b OR c)) = a"
    using hi hi' by (intro bit_eqI) (auto simp: bit_simps not_less)
  show "take_bit 8 (drop_bit 8 (push_bit 16 a OR push_bit 8 b OR c)) = b"
    using hi hi' by (intro bit_eqI) (auto simp: bit_simps not_less)
  show "take_bit 8 (push_bit 16 a OR push_bit 8 b OR c) = c"
    using hi hi' by (intro bit_eqI) (auto simp: bit_simps not_less)
qed

lemma decodeblock_sextets:
  fixes x y z :: char
  assumes "\<forall>i<4. b64_inv (inb ! i) = [drop_bit 2 (of_char x), push_bit 4 (of_char x AND 3) OR drop_bit 4 (of_char y AND 240),
      push_bit 2 (of_char y AND 15) OR drop_bit 6 (of_char z AND 192), of_char z AND 63] ! i"
  shows "decodeblock inb = [x, y, z]"
proof -
  have i: "b64_inv (inb ! 0) = drop_bit 2 (of_char x)"
    "b64_inv (inb ! 1) = push_bit 4 (of_char x AND 3) OR drop_bit 4 (of_char y AND 240)"
    "b64_inv (inb ! 2) = push_bit 2 (of_char y AND 15) OR drop_bit 6 (of_char z AND 192)"
    "b64_inv (inb ! 3) = of_char z AND 63"
    using assms[rule_format, of 0] assms[rule_format, of 1] assms[rule_format, of 2] assms[rule_format, of 3]
    by (simp_all add: eval_nat_numeral)
  note nn = sextet_bits(5)[OF of_char_bounds[of x] of_char_bounds[of y] of_char_bounds[of z]]
  show ?thesis
    unfolding decodeblock_def Let_def i nn
    by (simp only: char_of_byte[OF block_bytes(1)[OF of_char_bounds[of x] of_char_bounds[of y] of_char_bounds[of z]]]
        char_of_byte[OF block_bytes(2)[OF of_char_bounds[of x] of_char_bounds[of y] of_char_bounds[of z]]]
        char_of_byte[OF block_bytes(3)[OF of_char_bounds[of x] of_char_bounds[of y] of_char_bounds[of z]]])
qed

text \<open>Four characters of the alphabet or padding are decoded together.\<close>

definition unpad :: "char \<Rightarrow> char" where "unpad c = (if c = CHR ''='' then CHR ''A'' else c)"
definition pads :: "string \<Rightarrow> int" where "pads cs = int (length (filter (\<lambda>c. c = CHR ''='') cs))"

lemma decode_loop_quad:
  assumes "\<forall>c \<in> {c0, c1, c2, c3}. is_base64_char (unpad c)"
  shows "decode_loop [] 0 cnt out (c0 # c1 # c2 # c3 # rest) =
    decode_loop [] 0 (cnt + (3 - pads [c0, c1, c2, c3])) (out @ decodeblock [unpad c0, unpad c1, unpad c2, unpad c3]) rest"
  using assms by (simp add: unpad_def pads_def Let_def split: if_splits)

lemma decode_skip [simp]:
  "decode_loop buf p cnt out (NL # rest) = decode_loop buf p cnt out rest"
  "decode_loop buf p cnt out (replicate k NUL) = (out, cnt)"
  by (simp, induction k) simp_all

text \<open>A block of the encoder decodes to its bytes, filled up to three.\<close>

lemma decode_encode_block:
  assumes "b \<noteq> []" and "length b \<le> 3"
  shows "decode_loop [] 0 cnt out (encode_block b @ rest) =
    decode_loop [] 0 (cnt + int (length b)) (out @ b @ replicate (3 - length b) NUL) rest"
proof -
  have z: "of_char NUL = (0 :: int)" by simp
  consider x where "b = [x]" | x y where "b = [x, y]" | x y w where "b = [x, y, w]"
    using assms by (cases b; cases "tl b"; cases "tl (tl b)") auto
  then show ?thesis
  proof cases
    case (1 x)
    note s = sextet_bits[OF of_char_bounds[of x] of_char_bounds[of NUL] of_char_bounds[of NUL]]
    let ?c0 = "b64_char (drop_bit 2 (of_char x))"
    let ?c1 = "b64_char (push_bit 4 (of_char x AND 3) OR drop_bit 4 (of_char NUL AND 240))"
    have e: "encode_block b = [?c0, ?c1, CHR ''='', CHR ''='']" using 1 by (simp add: encode_block_def z Let_def)
    have c: "unpad ?c0 = ?c0" "unpad ?c1 = ?c1" "?c0 \<noteq> CHR ''=''" "?c1 \<noteq> CHR ''=''"
      "is_base64_char ?c0" "is_base64_char ?c1" using all_sextets s by (simp_all add: unpad_def)
    have d: "decodeblock [?c0, ?c1, CHR ''A'', CHR ''A''] = [x, NUL, NUL]"
      by (rule decodeblock_sextets) (use all_sextets s in \<open>auto simp: z nth_Cons' less_Suc_eq eval_nat_numeral\<close>)
    show ?thesis unfolding e using c d 1 by (simp add: decode_loop_quad pads_def unpad_def numeral_2_eq_2)
  next
    case (2 x y)
    note s = sextet_bits[OF of_char_bounds[of x] of_char_bounds[of y] of_char_bounds[of NUL]]
    let ?c0 = "b64_char (drop_bit 2 (of_char x))"
    let ?c1 = "b64_char (push_bit 4 (of_char x AND 3) OR drop_bit 4 (of_char y AND 240))"
    let ?c2 = "b64_char (push_bit 2 (of_char y AND 15) OR drop_bit 6 (of_char NUL AND 192))"
    have e: "encode_block b = [?c0, ?c1, ?c2, CHR ''='']" using 2 by (simp add: encode_block_def z Let_def)
    have c: "unpad ?c0 = ?c0" "unpad ?c1 = ?c1" "unpad ?c2 = ?c2" "?c0 \<noteq> CHR ''=''" "?c1 \<noteq> CHR ''=''" "?c2 \<noteq> CHR ''=''"
      "is_base64_char ?c0" "is_base64_char ?c1" "is_base64_char ?c2" using all_sextets s by (simp_all add: unpad_def)
    have d: "decodeblock [?c0, ?c1, ?c2, CHR ''A''] = [x, y, NUL]"
      by (rule decodeblock_sextets) (use all_sextets s in \<open>auto simp: z nth_Cons' less_Suc_eq eval_nat_numeral\<close>)
    show ?thesis unfolding e using c d 2 by (simp add: decode_loop_quad pads_def unpad_def numeral_2_eq_2)
  next
    case (3 x y w)
    note s = sextet_bits[OF of_char_bounds[of x] of_char_bounds[of y] of_char_bounds[of w]]
    let ?c0 = "b64_char (drop_bit 2 (of_char x))"
    let ?c1 = "b64_char (push_bit 4 (of_char x AND 3) OR drop_bit 4 (of_char y AND 240))"
    let ?c2 = "b64_char (push_bit 2 (of_char y AND 15) OR drop_bit 6 (of_char w AND 192))"
    let ?c3 = "b64_char (of_char w AND 63)"
    have e: "encode_block b = [?c0, ?c1, ?c2, ?c3]" using 3 by (simp add: encode_block_def Let_def eval_nat_numeral)
    have c: "unpad ?c0 = ?c0" "unpad ?c1 = ?c1" "unpad ?c2 = ?c2" "unpad ?c3 = ?c3"
      "?c0 \<noteq> CHR ''=''" "?c1 \<noteq> CHR ''=''" "?c2 \<noteq> CHR ''=''" "?c3 \<noteq> CHR ''=''"
      "is_base64_char ?c0" "is_base64_char ?c1" "is_base64_char ?c2" "is_base64_char ?c3"
      using all_sextets s by (simp_all add: unpad_def)
    have d: "decodeblock [?c0, ?c1, ?c2, ?c3] = [x, y, w]"
      by (rule decodeblock_sextets) (use all_sextets s in \<open>auto simp: nth_Cons' less_Suc_eq eval_nat_numeral\<close>)
    show ?thesis unfolding e using c d 3 by (simp add: decode_loop_quad pads_def unpad_def numeral_2_eq_2)
  qed
qed

section \<open>Whole texts\<close>

lemma length_encode_block [simp]: "length (encode_block b) = 4"
  by (simp add: encode_block_def Let_def)

lemma blocks_drop3:
  assumes "data \<noteq> []"
  shows "(int (length data) + 2) div 3 = (int (length (drop 3 data)) + 2) div 3 + 1"
proof (cases "length data \<le> 3")
  case True
  then have "length data = 1 \<or> length data = 2 \<or> length data = 3"
    using assms by (cases data) (auto simp: le_Suc_eq numeral_eq_Suc)
  then show ?thesis by auto
next
  case False
  have y: "(y + 3 + 2) div 3 = (y + 2) div 3 + 1" for y :: int by presburger
  have "int (length data) = int (length (drop 3 data)) + 3" using False by simp
  then show ?thesis using y by metis
qed

lemma length_encode_loop_ge:
  "(int (length data) + 2) div 3 * 4 \<le> int (length (encode_loop L cnt data))"
proof (induction L cnt data rule: encode_loop.induct)
  case (1 L cnt data)
  show ?case
  proof (cases "data = []")
    case False
    show ?thesis unfolding blocks_drop3[OF False]
      using "1.IH" False by (subst encode_loop.simps) auto
  qed simp
qed

text \<open>With a positive line length the line count stays below it, and the stream fits the buffer.\<close>

lemma length_encode_loop:
  assumes "0 \<le> cnt" and "cnt < L"
  shows "int (length (encode_loop L cnt data))
    \<le> (int (length data) + 2) div 3 * 4 + (cnt + (int (length data) + 2) div 3 * 4) div L"
  using assms
proof (induction L cnt data rule: encode_loop.induct)
  case (1 L cnt data)
  show ?case
  proof (cases "data = []")
    case True
    then show ?thesis using 1 by (subst encode_loop.simps) (simp add: div_pos_pos_trivial)
  next
    case False
    let ?B = "(int (length data) + 2) div 3"
    let ?B' = "(int (length (drop 3 data)) + 2) div 3"
    have B: "?B = ?B' + 1" using blocks_drop3[OF False] .
    show ?thesis
    proof (cases "L \<le> cnt + 4")
      case True
      have "1 + (?B' * 4) div L = (?B' * 4 + L) div L" using 1(3,4) by (subst div_add_self2) auto
      also have "\<dots> \<le> (cnt + ?B * 4) div L" using B True 1 by (intro zdiv_mono1) auto
      finally have d: "1 + (?B' * 4) div L \<le> (cnt + ?B * 4) div L" .
      have "int (length (encode_loop L cnt data)) = 5 + int (length (encode_loop L 0 (drop 3 data)))"
        using False True by (subst encode_loop.simps) simp
      then show ?thesis using "1.IH"(1)[OF False True] 1 d B by simp
    next
      case F: False
      then show ?thesis using "1.IH"(2)[OF False F] False 1 B
        by (subst encode_loop.simps) (simp add: algebra_simps)
    qed
  qed
qed

lemma decode_encode_loop:
  assumes "0 \<le> cnt0" and "cnt0 < L"
  shows "decode_loop [] 0 (int (length out)) out (encode_loop L cnt0 data @ replicate k NUL)
    = (out @ data @ replicate ((3 - length data mod 3) mod 3) NUL, int (length (out @ data)))"
  using assms
proof (induction L cnt0 data arbitrary: out rule: encode_loop.induct)
  case (1 L cnt0 data)
  show ?case
  proof (cases "data = []")
    case True
    then show ?thesis using 1 by (subst encode_loop.simps) simp
  next
    case False
    let ?pad = "replicate (3 - length (take 3 data)) NUL"
    let ?cnt = "if L \<le> cnt0 + 4 then 0 else cnt0 + 4"
    have e: "decode_loop [] 0 c out' (encode_loop L cnt0 data @ replicate k NUL)
        = decode_loop [] 0 (c + int (length (take 3 data))) (out' @ take 3 data @ ?pad)
            (encode_loop L ?cnt (drop 3 data) @ replicate k NUL)" for c out'
      using False decode_encode_block[of "take 3 data" c out'] by (subst encode_loop.simps) simp
    show ?thesis
    proof (cases "3 \<le> length data")
      case True
      then have p: "?pad = []" "(3 - length (drop 3 data) mod 3) mod 3 = (3 - length data mod 3) mod 3"
        by (auto simp: le_mod_geq)
      have ih: "decode_loop [] 0 (int (length (out @ take 3 data))) (out @ take 3 data)
            (encode_loop L ?cnt (drop 3 data) @ replicate k NUL)
          = ((out @ take 3 data) @ drop 3 data @ replicate ((3 - length (drop 3 data) mod 3) mod 3) NUL,
             int (length ((out @ take 3 data) @ drop 3 data)))"
        using "1.IH"(1)[OF False, of "out @ take 3 data"] "1.IH"(2)[OF False, of "out @ take 3 data"] 1(3,4)
        by (cases "L \<le> cnt0 + 4") auto
      show ?thesis using ih unfolding e p(1) p(2) by simp
    next
      case F: False
      then have d: "drop 3 data = []" "take 3 data = data" "length data mod 3 = length data" by auto
      have n: "encode_loop L ?cnt [] = []" using 1 by (subst encode_loop.simps) simp
      have "(3 - length data) mod 3 = 3 - length data" using F False by (cases data) auto
      then show ?thesis unfolding e d n using d by simp
    qed
  qed
qed

lemma padded_size: "int y + int ((3 - y mod 3) mod 3) = 3 * ((int y + 2) div 3)"
proof -
  obtain q r where y: "y = 3 * q + r" "r < 3" by (metis mod_less_divisor mult_div_mod_eq zero_less_numeral)
  have m: "y mod 3 = r" using y by simp
  have "(int y + 2) div 3 = int q + (int r + 2) div 3" unfolding y(1) by simp
  moreover have "r = 0 \<or> r = 1 \<or> r = 2" using y(2) by linarith
  ultimately show ?thesis unfolding m using y(1) by auto
qed

section \<open>Properties\<close>


text \<open>C34: Without line breaks (a line length of zero or less, which \<open>encode_buffer_req\<close> provides for) the
  encoder writes a newline after every block and overruns its buffer, whatever the data.\<close>

theorem base64_no_line_breaks_overrun:
  assumes "L \<le> 0"
  shows "b64encode data L = None"
proof -
  have "encode_buffer_req (int (length data)) L < int (length (encode_loop L 0 data))"
  proof (induction "length data" arbitrary: data rule: less_induct)
    case less
    show ?case
    proof (cases "data = []")
      case True
      then show ?thesis using assms by (subst encode_loop.simps) (simp add: encode_buffer_req_def)
    next
      case False
      have "encode_buffer_req (int (length data)) L \<le> encode_buffer_req (int (length (drop 3 data))) L + 4"
        using assms unfolding encode_buffer_req_def blocks_drop3[OF False] by (simp add: Let_def)
      moreover have "encode_loop L 0 data = encode_block (take 3 data) @ NL # encode_loop L 0 (drop 3 data)"
        using False assms by (subst encode_loop.simps) simp
      ultimately show ?thesis using less[of "drop 3 data"] False by simp
    qed
  qed
  moreover have "0 \<le> encode_buffer_req (int (length data)) L" using assms by (simp add: encode_buffer_req_def)
  ultimately have "\<not> length (encode_loop L 0 data) \<le> nat (encode_buffer_req (int (length data)) L)" by linarith
  then show ?thesis by (simp add: b64encode_def Let_def)
qed


lemma base64_no_line_breaks_overrun_witness: "b64encode ''ab'' 0 = None"
  using base64_no_line_breaks_overrun[of 0 "''ab''"] by simp

text \<open>The decoder can throw on text that is only padding.\<close>

lemma decode_only_padding: "b64decode ''===='' = Inl Length_Error"
  by code_simp

end
