(* ===== verification/CT_Random.thy ===== *)
theory CT_Random
  imports CT_Prelude
begin

text \<open>
  \<open>src/random.cpp\<close>: the generator of the game logic. The state is \<open>next\<close>, an \<open>unsigned int\<close>; the
  clock \<open>time(NULL)\<close> is an argument. \<open>generate\<close> returns the value and the new state.
\<close>

definition UninitSeed :: "32 word" where "UninitSeed = 11483"

definition generate :: "32 word \<Rightarrow> 32 word \<Rightarrow> int \<times> 32 word" where
  "generate now next0 =
     (let next1 = (if next0 = UninitSeed then now else next0);
          next2 = next1 * 1103515245 + 12345
      in (uint ((next2 div 65536) mod 32768), next2))"

definition set_seed :: "32 word \<Rightarrow> 32 word \<Rightarrow> 32 word" where "set_seed seed next0 = seed"
definition get_seed :: "32 word \<Rightarrow> 32 word" where "get_seed next0 = next0"

text \<open>A run of calls, the clock reading given call by call.\<close>

fun generates :: "(nat \<Rightarrow> 32 word) \<Rightarrow> nat \<Rightarrow> 32 word \<Rightarrow> int list" where
  "generates clock 0 s = []"
| "generates clock (Suc n) s = (case generate (clock n) s of (v, s') \<Rightarrow> v # generates clock n s')"

lemma generate_range: "0 \<le> fst (generate now s)" "fst (generate now s) < 32768"
  by (simp_all add: generate_def Let_def uint_mod_distrib)

text \<open>The multiplier is odd, so the recurrence never maps two states to one.\<close>

lemma lcg_injective:
  assumes "(a :: 32 word) * 1103515245 + 12345 = b * 1103515245 + 12345"
  shows "a = b"
proof -
  have "(1103515245 * 4005161829 :: 32 word) = 1" by simp
  then have inv: "(x * 1103515245) * 4005161829 = x" for x :: "32 word"
    by (simp only: mult.assoc mult_1_right)
  have "a * 1103515245 = b * 1103515245" using assms by simp
  then show ?thesis using inv by metis
qed

definition lcg :: "32 word \<Rightarrow> 32 word" where "lcg s = s * 1103515245 + 12345"

lemma generate_seeded: "s \<noteq> UninitSeed \<Longrightarrow>
    generate now s = (uint ((lcg s div 65536) mod 32768), lcg s)"
  by (simp add: generate_def lcg_def Let_def)

text \<open>C35: A seeded generator can be replayed: as long as no state of the sequence is the one that marks
  the generator as not seeded, the values do not depend on the clock, and two different states never
  lead to the same next one, so the sequence does not degenerate.\<close>

theorem seeded_replay:
  assumes "\<forall>i<n. (lcg ^^ i) s \<noteq> UninitSeed"
  shows "generates clock n s = generates clock' n s \<and> inj lcg
    \<and> (\<forall>v \<in> set (generates clock n s). 0 \<le> v \<and> v < 32768)"
proof -
  have "generates clock n s = generates clock' n s \<and> (\<forall>v \<in> set (generates clock n s). 0 \<le> v \<and> v < 32768)"
    using assms
  proof (induction n arbitrary: s)
    case (Suc n)
    have s: "s \<noteq> UninitSeed" using Suc.prems by auto
    have "\<forall>i<n. (lcg ^^ i) (lcg s) \<noteq> UninitSeed"
      using Suc.prems by (metis Suc_mono comp_apply funpow_Suc_right)
    then show ?case using Suc.IH[of "lcg s"] s generate_range[of "clock n" s]
      by (simp add: generate_seeded)
  qed simp
  then show ?thesis using lcg_injective by (auto simp: inj_on_def lcg_def)
qed

lemma seeded_replay_witness: "generates (\<lambda>_. 5) 2 1 = generates (\<lambda>_. 6) 2 1"
proof -
  have "(lcg ^^ 0) 1 \<noteq> UninitSeed" "(lcg ^^ 1) 1 \<noteq> UninitSeed" by code_simp+
  then have "\<forall>i<2. (lcg ^^ i) 1 \<noteq> UninitSeed" by (metis One_nat_def less_2_cases)
  from seeded_replay[OF this, of "\<lambda>_. 5" "\<lambda>_. 6"] show ?thesis by blast
qed

text \<open>The mark is an ordinary state: a properly seeded generator can run into it and take the clock.\<close>

lemma seed_collision:
  "\<exists>s. s \<noteq> UninitSeed \<and> generates (\<lambda>_. 0) 2 s \<noteq> generates (\<lambda>_. 65536) 2 s"
  by (rule exI[of _ "(11483 - 12345) * 4005161829"]) code_simp

end
