(* ===== verification/CT_Formula_Tokenizer.thy ===== *)
theory CT_Formula_Tokenizer
  imports CT_String_Utils
begin

text \<open>
  \<open>src/formula_tokenizer.cpp\<close>, and from \<open>src/formula.cpp\<close> the loop that cuts a formula into
  tokens and the test that its brackets match. The iterator range \<open>[i1, i2)\<close> is a string; a token
  is its kind and its text, and \<open>get_token\<close> returns the text left. Reading at the end of the range and
  indexing the token table with a negative \<open>char\<close> are \<open>Out_Of_Bounds\<close>.
\<close>

section \<open>Tokens\<close>

datatype FFL_TOKEN_TYPE = TOKEN_OPERATOR | TOKEN_STRING_LITERAL | TOKEN_CONST_IDENTIFIER
  | TOKEN_IDENTIFIER | TOKEN_INTEGER | TOKEN_DECIMAL | TOKEN_LPARENS | TOKEN_RPARENS
  | TOKEN_LSQUARE | TOKEN_RSQUARE | TOKEN_LBRACKET | TOKEN_RBRACKET | TOKEN_COMMA
  | TOKEN_SEMICOLON | TOKEN_COLON | TOKEN_WHITESPACE | TOKEN_KEYWORD | TOKEN_COMMENT
  | TOKEN_POINTER | TOKEN_LEFT_POINTER | TOKEN_PIPE | TOKEN_INVALID

type_synonym token = "FFL_TOKEN_TYPE \<times> string"

datatype token_error = Unterminated_Comment | Unterminated_String | Unterminated_Q_String
  | Unexpected_Bang | Unrecognized_Token | Out_Of_Bounds

definition single_char_tokens :: "char \<Rightarrow> FFL_TOKEN_TYPE" where
  "single_char_tokens c =
     (if c = CHR ''('' then TOKEN_LPARENS else if c = CHR '')'' then TOKEN_RPARENS
      else if c = CHR ''['' then TOKEN_LSQUARE else if c = CHR '']'' then TOKEN_RSQUARE
      else if c = CHR ''{'' then TOKEN_LBRACKET else if c = CHR ''}'' then TOKEN_RBRACKET
      else if c = CHR '','' then TOKEN_COMMA else if c = CHR '';'' then TOKEN_SEMICOLON
      else if c = CHR '':'' then TOKEN_COLON
      else if c \<in> set ''.+*/=%^'' then TOKEN_OPERATOR
      else if c = CHR ''|'' then TOKEN_PIPE
      else TOKEN_INVALID)"

section \<open>Scanning\<close>

text \<open>After \<open>/*\<close>: what follows the closing \<open>*/\<close> of the outermost comment.\<close>

fun scan_comment :: "nat \<Rightarrow> string \<Rightarrow> string option" where
  "scan_comment nesting [] = None"
| "scan_comment nesting [c] = None"
| "scan_comment nesting (c # d # s) =
     (if c = CHR ''/'' \<and> d = CHR ''*'' then scan_comment (nesting + 1) (d # s)
      else if c = CHR ''*'' \<and> d = CHR ''/''
      then (if nesting = 1 then Some s else scan_comment (nesting - 1) (d # s))
      else scan_comment nesting (d # s))"

text \<open>The bracketed form of a \<open>q\<close> string.\<close>

fun scan_q :: "char \<Rightarrow> char \<Rightarrow> nat \<Rightarrow> string \<Rightarrow> string option" where
  "scan_q op cl 0 s = Some s"
| "scan_q op cl (Suc n) [] = None"
| "scan_q op cl (Suc n) (c # s) =
     (if c = op then scan_q op cl (Suc (Suc n)) s
      else if c = cl then scan_q op cl n s
      else scan_q op cl (Suc n) s)"

text \<open>\<open>strchr\<close> also finds the terminator.\<close>

definition strchr :: "string \<Rightarrow> char \<Rightarrow> bool" where
  "strchr s c \<longleftrightarrow> c \<in> set s \<or> c = NUL"

definition find_from :: "char \<Rightarrow> string \<Rightarrow> string" where
  "find_from c s = dropWhile (\<lambda>x. x \<noteq> c) s"

definition q_string :: "char \<Rightarrow> string \<Rightarrow> string option" where
  "q_string e s =
     (if strchr ''({['' e
      then (let cl = (if e = CHR ''{'' then CHR ''}'' else if e = CHR ''['' then CHR '']'' else CHR '')'')
            in scan_q e cl 1 s)
      else (case find_from e s of [] \<Rightarrow> None | x # r \<Rightarrow> Some r))"

definition Keywords :: "string list" where
  "Keywords = [''functions'', ''def'', ''null'', ''true'', ''false'', ''base'', ''recursive'']"

definition Operators :: "string list" where
  "Operators = [''not'', ''and'', ''or'', ''where'', ''in'']"

definition ident_char :: "char \<Rightarrow> bool" where
  "ident_char c \<longleftrightarrow> isalnum c \<or> c = CHR ''_''"

definition word_type :: "string \<Rightarrow> FFL_TOKEN_TYPE" where
  "word_type w =
     (if w \<in> set Keywords then TOKEN_KEYWORD
      else if w \<in> set Operators then TOKEN_OPERATOR
      else if list_ex islower w then TOKEN_IDENTIFIER
      else TOKEN_CONST_IDENTIFIER)"

text \<open>The kind of the token and the text left; \<open>Inl\<close> an exception.\<close>

type_synonym scan = "token_error + (FFL_TOKEN_TYPE \<times> string)"

text \<open>The \<open>switch\<close> on the first character; \<open>None\<close> where it is left by a \<open>break\<close>.\<close>

definition switch_char :: "char \<Rightarrow> string \<Rightarrow> scan option" where
  "switch_char c cs =
     (if c \<in> set [CHR 0x22, CHR 0x27, CHR ''~'', CHR ''#'']
      then Some (case find_from c cs of
             [] \<Rightarrow> Inl Unterminated_String
           | x # r \<Rightarrow> Inr (if c = CHR ''#'' then TOKEN_COMMENT else TOKEN_STRING_LITERAL, r))
      else if c = CHR ''q''
      then (case cs of [] \<Rightarrow> None
            | e # s \<Rightarrow> if strchr ''~#^({['' e
                then Some (case q_string e s of
                       None \<Rightarrow> Inl Unterminated_Q_String | Some r \<Rightarrow> Inr (TOKEN_STRING_LITERAL, r))
                else None)
      else if c = CHR ''<'' \<and> cs \<noteq> [] \<and> hd cs = CHR ''-'' then Some (Inr (TOKEN_LEFT_POINTER, tl cs))
      else if c \<in> set ''<>!''
      then (if cs \<noteq> [] \<and> hd cs = CHR ''='' then Some (Inr (TOKEN_OPERATOR, tl cs))
            else if c = CHR ''!'' then Some (Inl Unexpected_Bang)
            else Some (Inr (TOKEN_OPERATOR, cs)))
      else if c = CHR ''-''
      then Some (Inr (if cs \<noteq> [] \<and> hd cs = CHR ''>'' then (TOKEN_POINTER, tl cs) else (TOKEN_OPERATOR, cs)))
      else if c = CHR ''0''
      then (if cs \<noteq> [] \<and> hd cs = CHR ''x'' then Some (Inr (TOKEN_INTEGER, dropWhile isxdigit (tl cs))) else None)
      else if c = CHR ''d''
      then (if cs \<noteq> [] \<and> \<not> isalpha (hd cs) \<and> hd cs \<noteq> CHR ''_'' then Some (Inr (TOKEN_OPERATOR, cs)) else None)
      else None)"

text \<open>What follows the \<open>switch\<close>: \<open>s\<close> is the text from the first character on.\<close>

definition scan_class :: "string \<Rightarrow> scan" where
  "scan_class s =
     (if isspace (hd s) then Inr (TOKEN_WHITESPACE, dropWhile isspace s)
      else if isdigit (hd s)
      then (let r = dropWhile isdigit s
            in if r \<noteq> [] \<and> hd r = CHR ''.'' then Inr (TOKEN_DECIMAL, dropWhile isdigit (tl r))
               else Inr (TOKEN_INTEGER, r))
      else if isalpha (hd s) \<or> hd s = CHR ''_''
      then Inr (word_type (hd s # takeWhile ident_char (tl s)), dropWhile ident_char (tl s))
      else Inl Unrecognized_Token)"

definition scan_token :: "string \<Rightarrow> scan" where
  "scan_token s = (case s of
     [] \<Rightarrow> Inl Out_Of_Bounds
   | c # cs \<Rightarrow>
       if c = CHR ''/'' \<and> cs \<noteq> [] \<and> hd cs = CHR ''/'' then Inr (TOKEN_COMMENT, find_from NL s)
       else if c = CHR ''/'' \<and> cs \<noteq> [] \<and> hd cs = CHR ''*''
       then (case scan_comment 1 (tl cs) of None \<Rightarrow> Inl Unterminated_Comment | Some r \<Rightarrow> Inr (TOKEN_COMMENT, r))
       else if char_code c \<ge> 128 then Inl Out_Of_Bounds
       else if single_char_tokens c \<noteq> TOKEN_INVALID then Inr (single_char_tokens c, cs)
       else (case switch_char c cs of Some res \<Rightarrow> res | None \<Rightarrow> scan_class s))"

text \<open>\<open>t.begin\<close> is the old and \<open>t.end\<close> the new \<open>i1\<close>.\<close>

definition get_token :: "string \<Rightarrow> token_error + (token \<times> string)" where
  "get_token s = (case scan_token s of
     Inl e \<Rightarrow> Inl e
   | Inr (ty, r) \<Rightarrow> Inr ((ty, take (length s - length r) s), r))"

section \<open>Every token is a non-empty prefix\<close>

text \<open>\<open>r\<close> is what is left of \<open>s\<close> after at least one character.\<close>

definition rest_of :: "string \<Rightarrow> string \<Rightarrow> bool" where
  "rest_of r s \<longleftrightarrow> (\<exists>p. p \<noteq> [] \<and> s = p @ r)"

lemma rest_of_Cons: "rest_of r (c # s) \<longleftrightarrow> r = s \<or> rest_of r s"
proof
  assume "rest_of r (c # s)"
  then obtain p where "p \<noteq> []" "c # s = p @ r" by (auto simp: rest_of_def)
  then show "r = s \<or> rest_of r s" by (cases p; cases "tl p") (auto simp: rest_of_def)
next
  assume "r = s \<or> rest_of r s"
  then show "rest_of r (c # s)"
    by (auto simp: rest_of_def intro: exI[of _ "[c]"] exI[of _ "c # _"])
qed

lemma rest_of_dropWhile [scan_facts]: "dropWhile P s = s \<or> rest_of (dropWhile P s) s"
  by (induction s) (auto simp: rest_of_Cons)

lemma rest_of_tl: "s \<noteq> [] \<Longrightarrow> r = tl s \<or> rest_of r (tl s) \<Longrightarrow> rest_of r s"
  by (cases s) (simp_all add: rest_of_Cons)

lemma rest_of_trans: "rest_of r s \<Longrightarrow> rest_of s t \<Longrightarrow> rest_of r t"
proof -
  assume "rest_of r s" "rest_of s t"
  then obtain p q where "s = p @ r" "t = q @ s" "q \<noteq> []" by (auto simp: rest_of_def)
  then show ?thesis unfolding rest_of_def by (intro exI[of _ "q @ p"]) simp
qed

lemma scan_comment_rest [scan_facts]: "scan_comment n s = Some r \<Longrightarrow> rest_of r s"
  by (induction n s rule: scan_comment.induct) (auto simp: rest_of_Cons split: if_splits)

lemma scan_q_rest [scan_facts]: "scan_q op cl n s = Some r \<Longrightarrow> r = s \<or> rest_of r s"
  by (induction op cl n s rule: scan_q.induct) (auto simp: rest_of_Cons split: if_splits)

lemma q_string_rest: "q_string e s = Some r \<Longrightarrow> r = s \<or> rest_of r s"
  using rest_of_dropWhile[of "\<lambda>x. x \<noteq> e" s]
  by (auto simp: q_string_def find_from_def Let_def rest_of_Cons dest!: scan_q_rest split: if_splits list.splits)
    (metis rest_of_Cons rest_of_trans)

lemma switch_char_rest: "switch_char c cs = Some (Inr (ty, r)) \<Longrightarrow> rest_of r (c # cs)"
proof -
  assume "switch_char c cs = Some (Inr (ty, r))"
  then have "r = cs \<or> rest_of r cs"
    using rest_of_dropWhile[of "\<lambda>x. x \<noteq> c" cs] rest_of_dropWhile[of isxdigit "tl cs"]
    by (auto simp: switch_char_def find_from_def rest_of_Cons rest_of_tl split: if_splits list.splits option.splits
        dest!: q_string_rest) (metis rest_of_Cons rest_of_trans)+
  then show ?thesis by (simp add: rest_of_Cons)
qed

lemma rest_of_hd: "s \<noteq> [] \<Longrightarrow> P (hd s) \<Longrightarrow> rest_of (dropWhile P s) s"
  using rest_of_dropWhile[of P "tl s"] by (cases s) (auto simp: rest_of_Cons)

lemma scan_class_rest:
  assumes "scan_class s = Inr (ty, r)" and "s \<noteq> []"
  shows "rest_of r s"
proof -
  let ?d = "dropWhile isdigit s"
  have d: "rest_of (dropWhile isdigit (tl ?d)) s" if "isdigit (hd s)" "?d \<noteq> []"
  proof -
    have "rest_of (dropWhile isdigit (tl ?d)) ?d"
      using rest_of_tl[OF that(2)] rest_of_dropWhile[of isdigit "tl ?d"] by blast
    then show ?thesis using rest_of_trans rest_of_hd[OF assms(2), of isdigit] that(1) by blast
  qed
  have w: "rest_of (dropWhile ident_char (tl s)) s"
    using rest_of_tl[OF assms(2)] rest_of_dropWhile[of ident_char "tl s"] by blast
  show ?thesis
    using assms(1) d w rest_of_hd[OF assms(2), of isspace] rest_of_hd[OF assms(2), of isdigit]
    by (auto simp: scan_class_def Let_def split: if_splits)
qed

lemma scan_token_rest:
  assumes "scan_token s = Inr (ty, r)"
  shows "rest_of r s"
proof -
  obtain c cs where s: "s = c # cs" using assms by (cases s) (auto simp: scan_token_def)
  show ?thesis
    using assms rest_of_hd[of s "\<lambda>x. x \<noteq> NL"] scan_comment_rest[of 1 "tl cs"] switch_char_rest[of c cs] scan_class_rest[of s]
      rest_of_tl[of cs]
    by (auto simp: s scan_token_def find_from_def rest_of_Cons split: if_splits option.splits)
qed

lemma get_token_split:
  assumes "get_token s = Inr ((ty, t), r)"
  shows "s = t @ r" and "t \<noteq> []"
proof -
  obtain r' where r': "scan_token s = Inr (ty, r')" "r = r'" "t = take (length s - length r) s"
    using assms by (auto simp: get_token_def split: sum.splits)
  then obtain p where "p \<noteq> []" "s = p @ r" using scan_token_rest[of s] by (auto simp: rest_of_def)
  then show "s = t @ r" "t \<noteq> []" using r' by auto
qed

lemma get_token_shorter: "get_token s = Inr (t, r) \<Longrightarrow> length r < length s"
  using get_token_split[of s "fst t" "snd t" r] by (cases t) auto

section \<open>Cutting a formula into tokens\<close>

text \<open>The loop at the start of \<open>formula::formula\<close>; it stops only because every token is non-empty.\<close>

function tokenize :: "string \<Rightarrow> token_error + token list" where
  "tokenize s =
     (if s = [] then Inr []
      else case get_token s of
             Inl e \<Rightarrow> Inl e
           | Inr (t, r) \<Rightarrow> (case tokenize r of
                 Inl e \<Rightarrow> Inl e
               | Inr ts \<Rightarrow> Inr (if fst t = TOKEN_WHITESPACE \<or> fst t = TOKEN_COMMENT then ts else t # ts)))"
  by pat_completeness auto
termination
  by (relation "measure length") (auto dest: get_token_shorter)

declare tokenize.simps [simp del]

section \<open>Finding a token outside brackets\<close>

record token_matcher =
  match_types :: "FFL_TOKEN_TYPE list"
  match_strs :: "string list"

definition new_matcher :: token_matcher where "new_matcher = \<lparr>match_types = [], match_strs = []\<rparr>"

definition add_type :: "FFL_TOKEN_TYPE \<Rightarrow> token_matcher \<Rightarrow> token_matcher" where
  "add_type ty m = m\<lparr>match_types := match_types m @ [ty]\<rparr>"

definition add_str :: "string \<Rightarrow> token_matcher \<Rightarrow> token_matcher" where
  "add_str s m = m\<lparr>match_strs := match_strs m @ [s]\<rparr>"

definition match :: "token_matcher \<Rightarrow> token \<Rightarrow> bool" where
  "match m t \<longleftrightarrow>
     (if match_types m \<noteq> [] \<and> fst t \<notin> set (match_types m) then False
      else if match_strs m \<noteq> [] \<and> snd t \<notin> set (match_strs m) then False
      else True)"

definition is_open :: "FFL_TOKEN_TYPE \<Rightarrow> bool" where
  "is_open ty \<longleftrightarrow> ty \<in> set [TOKEN_LPARENS, TOKEN_LSQUARE, TOKEN_LBRACKET]"

definition is_close :: "FFL_TOKEN_TYPE \<Rightarrow> bool" where
  "is_close ty \<longleftrightarrow> ty \<in> set [TOKEN_RPARENS, TOKEN_RSQUARE, TOKEN_RBRACKET]"

text \<open>How a token changes \<open>nbrackets\<close>; the \<open>break\<close> for a negative count only leaves the \<open>switch\<close>.\<close>

definition bracket_step :: "token \<Rightarrow> int" where
  "bracket_step t = (if is_open (fst t) then 1 else if is_close (fst t) then -1 else 0)"

fun find_match_loop :: "token_matcher \<Rightarrow> int \<Rightarrow> token list \<Rightarrow> int \<times> token list" where
  "find_match_loop m n [] = (n, [])"
| "find_match_loop m n (t # ts) =
     (if n > 0 \<or> \<not> match m t then find_match_loop m (n + bracket_step t) ts else (n, t # ts))"

text \<open>The result and where \<open>i1\<close> is left.\<close>

definition find_match :: "token_matcher \<Rightarrow> token list \<Rightarrow> bool \<times> token list" where
  "find_match m ts = (case find_match_loop m 0 ts of
     (n, rest) \<Rightarrow> (rest \<noteq> [] \<and> n = 0 \<and> match m (hd rest), rest))"

section \<open>Matching brackets\<close>

datatype bracket_error = Unexpected_Close nat | Unmatched_Bracket nat

text \<open>\<open>tokens[n].type - 1\<close> of a closing bracket.\<close>

definition opener :: "FFL_TOKEN_TYPE \<Rightarrow> FFL_TOKEN_TYPE" where
  "opener ty = (if ty = TOKEN_RPARENS then TOKEN_LPARENS
     else if ty = TOKEN_RSQUARE then TOKEN_LSQUARE else TOKEN_LBRACKET)"

text \<open>The token number, the two stacks as one and the last error found: an error does not end the loop.\<close>

fun check_brackets_loop :: "nat \<Rightarrow> (FFL_TOKEN_TYPE \<times> nat) list \<Rightarrow> bracket_error option \<Rightarrow> token list \<Rightarrow>
    (FFL_TOKEN_TYPE \<times> nat) list \<times> bracket_error option" where
  "check_brackets_loop n brackets err [] = (brackets, err)"
| "check_brackets_loop n brackets err (t # ts) =
     (if is_open (fst t) then check_brackets_loop (n + 1) ((fst t, n) # brackets) err ts
      else if is_close (fst t)
      then (case brackets of
              [] \<Rightarrow> check_brackets_loop (n + 1) brackets (Some (Unexpected_Close n)) ts
            | (top_ty, m) # bs \<Rightarrow>
                if top_ty \<noteq> opener (fst t)
                then check_brackets_loop (n + 1) brackets (Some (Unmatched_Bracket m)) ts
                else check_brackets_loop (n + 1) bs err ts)
      else check_brackets_loop (n + 1) brackets err ts)"

definition check_brackets_match :: "token list \<Rightarrow> bracket_error option" where
  "check_brackets_match tokens = (case check_brackets_loop 0 [] None tokens of
     ([], err) \<Rightarrow> err
   | ((_, m) # _, err) \<Rightarrow> Some (Unmatched_Bracket m))"

text \<open>Well-bracketed sequences of token kinds.\<close>

inductive balanced :: "FFL_TOKEN_TYPE list \<Rightarrow> bool" where
  balanced_Nil: "balanced []"
| balanced_other: "\<not> is_open x \<Longrightarrow> \<not> is_close x \<Longrightarrow> balanced xs \<Longrightarrow> balanced (x # xs)"
| balanced_nest: "is_close c \<Longrightarrow> balanced xs \<Longrightarrow> balanced ys \<Longrightarrow> balanced (opener c # xs @ c # ys)"

lemma is_open_opener [simp]: "is_open (opener c)" "is_open x \<Longrightarrow> \<not> is_close x"
  by (auto simp: is_open_def opener_def is_close_def)

lemma balanced_append: "balanced xs \<Longrightarrow> balanced ys \<Longrightarrow> balanced (xs @ ys)"
  by (induction rule: balanced.induct) (auto intro: balanced.intros)

text \<open>The stack of open brackets, without positions.\<close>

fun accepts :: "FFL_TOKEN_TYPE list \<Rightarrow> FFL_TOKEN_TYPE list \<Rightarrow> bool" where
  "accepts stk [] = (stk = [])"
| "accepts stk (x # xs) =
     (if is_open x then accepts (x # stk) xs
      else if is_close x then (case stk of [] \<Rightarrow> False | s # stk' \<Rightarrow> s = opener x \<and> accepts stk' xs)
      else accepts stk xs)"

lemma check_brackets_error [simp]: "snd (check_brackets_loop n bs (Some e) ts) = None \<longleftrightarrow> False"
  by (induction ts arbitrary: n bs e) (auto split: list.splits)

lemma check_brackets_accepts:
  "fst (check_brackets_loop n bs None ts) = [] \<and> snd (check_brackets_loop n bs None ts) = None
    \<longleftrightarrow> accepts (map fst bs) (map fst ts)"
proof (induction ts arbitrary: n bs)
  case (Cons t ts)
  show ?case
    using Cons[of "Suc n" "tl bs"] Cons[of "Suc n" "(fst t, n) # bs"] Cons[of "Suc n" bs]
    by (cases bs) (auto split: if_splits)
qed simp

lemma balanced_accepts: "balanced xs \<Longrightarrow> accepts stk (xs @ ys) = accepts stk ys"
  by (induction arbitrary: stk ys rule: balanced.induct) auto

text \<open>What closes the open brackets of a stack.\<close>

fun closes :: "FFL_TOKEN_TYPE list \<Rightarrow> FFL_TOKEN_TYPE list \<Rightarrow> bool" where
  "closes [] xs = balanced xs"
| "closes (s # stk) xs = (\<exists>b c r. xs = b @ c # r \<and> balanced b \<and> is_close c \<and> s = opener c \<and> closes stk r)"

lemma closes_prepend: "balanced p \<Longrightarrow> closes stk xs \<Longrightarrow> closes stk (p @ xs)"
proof (cases stk)
  case (Cons s stk')
  assume "balanced p" "closes stk xs"
  then obtain b c r where "xs = b @ c # r" "balanced b" "is_close c" "s = opener c" "closes stk' r"
    using Cons by auto
  then have "p @ xs = (p @ b) @ c # r" "balanced (p @ b)" using \<open>balanced p\<close> by (simp_all add: balanced_append)
  then have "\<exists>b c r. p @ xs = b @ c # r \<and> balanced b \<and> is_close c \<and> s = opener c \<and> closes stk' r"
    using \<open>is_close c\<close> \<open>s = opener c\<close> \<open>closes stk' r\<close> by blast
  then show ?thesis using Cons by simp
qed (simp add: balanced_append)

lemma accepts_closes: "accepts stk xs \<Longrightarrow> closes stk xs"
proof (induction xs arbitrary: stk)
  case Nil
  then show ?case by (simp add: balanced_Nil)
next
  case (Cons x xs)
  show ?case
  proof (cases "is_open x \<or> is_close x")
    case False
    then have "closes stk xs" "balanced [x]" using Cons by (auto intro: balanced.intros)
    then show ?thesis using closes_prepend[of "[x]"] by simp
  next
    case True
    show ?thesis
    proof (cases "is_open x")
      case o: True
      then obtain b c r where x: "xs = b @ c # r" "balanced b" "is_close c" "x = opener c" "closes stk r"
        using Cons by force
      then have "balanced (x # b @ [c])" using balanced_nest[of c b "[]"] by (simp add: balanced_Nil)
      then show ?thesis using closes_prepend[of "x # b @ [c]" stk r] x by simp
    next
      case c: False
      then obtain s stk' where "stk = s # stk'" "s = opener x" "accepts stk' xs"
        using Cons True by (cases stk) auto
      then have "x # xs = [] @ x # xs \<and> balanced [] \<and> is_close x \<and> s = opener x \<and> closes stk' xs"
        using Cons.IH True c balanced_Nil by simp
      then show ?thesis using \<open>stk = s # stk'\<close> by (simp only: closes.simps) blast
    qed
  qed
qed

section \<open>Properties\<close>



text \<open>C14: \<open>check_brackets_match\<close> raises no error exactly for the well-bracketed token sequences.\<close>

theorem check_brackets_match_iff_balanced:
  "check_brackets_match ts = None \<longleftrightarrow> balanced (map fst ts)"
proof -
  have "check_brackets_match ts = None \<longleftrightarrow>
      fst (check_brackets_loop 0 [] None ts) = [] \<and> snd (check_brackets_loop 0 [] None ts) = None"
    by (auto simp: check_brackets_match_def split: prod.splits list.splits)
  then have "check_brackets_match ts = None \<longleftrightarrow> accepts [] (map fst ts)"
    using check_brackets_accepts[of 0 "[]" ts]
    by simp
  then show ?thesis
    using accepts_closes[of "[]" "map fst ts"] balanced_accepts[of "map fst ts" "[]" "[]"] by auto
qed

definition depth :: "token list \<Rightarrow> int" where
  "depth ts = sum_list (map bracket_step ts)"

lemma find_match_loop_spec:
  "find_match_loop m n ts = (n', rest) \<Longrightarrow>
    \<exists>pre. ts = pre @ rest \<and> n' = n + depth pre \<and> (rest = [] \<or> (n' \<le> 0 \<and> match m (hd rest)))
      \<and> (\<forall>p u q. pre = p @ u # q \<longrightarrow> n + depth p > 0 \<or> \<not> match m u)"
proof (induction m n ts rule: find_match_loop.induct)
  case (1 m n)
  then show ?case by (simp add: depth_def)
next
  case (2 m n t ts)
  show ?case
  proof (cases "n > 0 \<or> \<not> match m t")
    case True
    obtain pre where pre: "ts = pre @ rest" "n' = n + bracket_step t + depth pre"
      "rest = [] \<or> (n' \<le> 0 \<and> match m (hd rest))"
      "\<forall>p u q. pre = p @ u # q \<longrightarrow> n + bracket_step t + depth p > 0 \<or> \<not> match m u"
      using 2 True by auto
    have "n + depth p > 0 \<or> \<not> match m u" if "t # pre = p @ u # q" for p u q
      using that pre(4)[rule_format, of "tl p" u q] True by (cases p) (auto simp: depth_def add.assoc)
    then show ?thesis using pre by (intro exI[of _ "t # pre"]) (auto simp: depth_def)
  next
    case False
    then show ?thesis using 2 by (intro exI[of _ "[]"]) (auto simp: depth_def)
  qed
qed



end
