(* ===== verification/CT_Formula_Ops.thy ===== *)
theory CT_Formula_Ops
  imports CT_Variant CT_Random
begin

text \<open>
  What the expressions of a formula compute (\<open>src/formula.cpp\<close>): unary and binary operators, the special
  forms the optimizer puts in their place, element access, slices, substitutions into texts and list
  comprehensions. The values of the operands are arguments. \<open>None\<close> is a failed assertion. The power operator
  computes in floating point and is the argument \<open>pow\<close>; the random generator is the state of a dice roll.
\<close>

section \<open>Operators\<close>

datatype OP = OP_IN | OP_AND | OP_OR | OP_NEQ | OP_LTE | OP_GTE | OP_GT | OP_LT | OP_EQ
  | OP_ADD | OP_SUB | OP_MUL | OP_DIV | OP_DICE | OP_POW | OP_MOD

text \<open>The first character decides, all others are dice.\<close>

definition op_of_string :: "string \<Rightarrow> OP" where
  "op_of_string s =
     (if s = ''>='' then OP_GTE else if s = ''<='' then OP_LTE else if s = ''!='' then OP_NEQ
      else if s = ''and'' then OP_AND else if s = ''or'' then OP_OR else if s = ''in'' then OP_IN
      else case map_of [(CHR ''>'', OP_GT), (CHR ''<'', OP_LT), (CHR ''='', OP_EQ), (CHR ''+'', OP_ADD),
             (CHR ''-'', OP_SUB), (CHR ''*'', OP_MUL), (CHR ''/'', OP_DIV), (CHR ''^'', OP_POW),
             (CHR ''%'', OP_MOD)] (hd s) of Some op \<Rightarrow> op | None \<Rightarrow> OP_DICE)"

text \<open>A comparison gives 1 or 0.\<close>

definition vbool :: "bool option \<Rightarrow> variant option" where
  "vbool b = map_option (\<lambda>b. VInt (if b then 1 else 0)) b"

fun in_elements :: "callables \<Rightarrow> variant \<Rightarrow> variant list \<Rightarrow> bool option" where
  "in_elements E left [] = Some False"
| "in_elements E left (x # xs) = do { e \<leftarrow> variant_eq E left x; if e then Some True else in_elements E left xs }"

text \<open>\<open>dice_roll\<close>; the remainder of the non-negative random number is that of \<open>int\<close>.\<close>

fun dice_loop :: "(32 word \<Rightarrow> int \<times> 32 word) \<Rightarrow> nat \<Rightarrow> int \<Rightarrow> int \<Rightarrow> 32 word \<Rightarrow> int option \<times> 32 word" where
  "dice_loop gen 0 faces res seed = (Some res, seed)"
| "dice_loop gen (Suc n) faces res seed =
     (case gen seed of (r, seed') \<Rightarrow>
        (case chk32 (res + (r smod faces + 1)) of
           None \<Rightarrow> (None, seed')
         | Some res' \<Rightarrow> dice_loop gen n faces res' seed'))"

definition dice_roll :: "(32 word \<Rightarrow> int \<times> 32 word) \<Rightarrow> int \<Rightarrow> int \<Rightarrow> 32 word \<Rightarrow> int option \<times> 32 word" where
  "dice_roll gen num_rolls faces seed =
     (if faces > 0 then dice_loop gen (nat num_rolls) faces 0 seed else (Some 0, seed))"

definition divide_guarded :: "callables \<Rightarrow> variant \<Rightarrow> variant \<Rightarrow> variant option" where
  "divide_guarded E left right = do {
     zero \<leftarrow> variant_eq E right (VInt 0);
     variant_divide left (if zero then VDecimal 1 else right) }"

definition operator_value :: "callables \<Rightarrow> (variant \<Rightarrow> variant \<Rightarrow> variant option) \<Rightarrow> OP \<Rightarrow> variant \<Rightarrow> variant \<Rightarrow> variant option" where
  "operator_value E pow op left right = (case op of
     OP_IN \<Rightarrow> (case right of VList xs \<Rightarrow> vbool (in_elements E left xs) | _ \<Rightarrow> Some VNull)
   | OP_AND \<Rightarrow> do { b \<leftarrow> as_bool left; Some (if \<not> b then left else right) }
   | OP_OR \<Rightarrow> do { b \<leftarrow> as_bool left; Some (if b then left else right) }
   | OP_ADD \<Rightarrow> variant_add E left right
   | OP_SUB \<Rightarrow> variant_minus left right
   | OP_MUL \<Rightarrow> variant_times left right
   | OP_DIV \<Rightarrow> divide_guarded E left right
   | OP_POW \<Rightarrow> pow left right
   | OP_EQ \<Rightarrow> vbool (variant_eq E left right)
   | OP_NEQ \<Rightarrow> vbool (map_option Not (variant_eq E left right))
   | OP_LTE \<Rightarrow> vbool (variant_le E left right)
   | OP_GTE \<Rightarrow> vbool (variant_le E right left)
   | OP_LT \<Rightarrow> vbool (variant_less E left right)
   | OP_GT \<Rightarrow> vbool (map_option Not (variant_le E left right))
   | OP_MOD \<Rightarrow> variant_modulo left right
   | OP_DICE \<Rightarrow> None)"

text \<open>\<open>operator_expression::execute\<close>\<close>

definition operator_execute ::
  "callables \<Rightarrow> (variant \<Rightarrow> variant \<Rightarrow> variant option) \<Rightarrow> (32 word \<Rightarrow> int \<times> 32 word) \<Rightarrow> OP \<Rightarrow> variant \<Rightarrow> variant \<Rightarrow>
    32 word \<Rightarrow> variant option \<times> 32 word" where
  "operator_execute E pow gen op left right seed =
     (if op = OP_DICE
      then (case (v_as_int left, v_as_int right) of
              (Some n, Some faces) \<Rightarrow>
                (case dice_roll gen n faces seed of (r, seed') \<Rightarrow> (map_option VInt r, seed'))
            | _ \<Rightarrow> (None, seed))
      else (operator_value E pow op left right, seed))"

definition unary_execute :: "string \<Rightarrow> variant \<Rightarrow> variant option" where
  "unary_execute op v =
     (if op = ''not'' then do { b \<leftarrow> as_bool v; Some (VInt (if b then 0 else 1)) }
      else if op = ''-'' then variant_uminus v
      else None)"

section \<open>The optimizer\<close>

text \<open>The special forms for a whole number on the right, \<open>OPTIMIZED_INT_BINARY_OP\<close>.\<close>

definition int_result :: "OP \<Rightarrow> int \<Rightarrow> int \<Rightarrow> variant option" where
  "int_result op x n = (case op of
     OP_ADD \<Rightarrow> map_option VInt (chk32 (x + n))
   | OP_SUB \<Rightarrow> map_option VInt (chk32 (x - n))
   | OP_MUL \<Rightarrow> map_option VInt (chk32 (x * n))
   | OP_DIV \<Rightarrow> if n = 0 then None else map_option VInt (chk32 (x sdiv n))
   | OP_EQ \<Rightarrow> vbool (Some (x = n))
   | OP_NEQ \<Rightarrow> vbool (Some (x \<noteq> n))
   | OP_LT \<Rightarrow> vbool (Some (x < n))
   | OP_GT \<Rightarrow> vbool (Some (x > n))
   | OP_LTE \<Rightarrow> vbool (Some (x \<le> n))
   | OP_GTE \<Rightarrow> vbool (Some (x \<ge> n))
   | _ \<Rightarrow> None)"

definition variant_result :: "callables \<Rightarrow> OP \<Rightarrow> variant \<Rightarrow> variant \<Rightarrow> variant option" where
  "variant_result E op v w = (case op of
     OP_ADD \<Rightarrow> variant_add E v w
   | OP_SUB \<Rightarrow> variant_minus v w
   | OP_MUL \<Rightarrow> variant_times v w
   | OP_DIV \<Rightarrow> variant_divide v w
   | OP_EQ \<Rightarrow> vbool (variant_eq E v w)
   | OP_NEQ \<Rightarrow> vbool (map_option Not (variant_eq E v w))
   | OP_LT \<Rightarrow> vbool (variant_less E v w)
   | OP_GT \<Rightarrow> vbool (map_option Not (variant_le E v w))
   | OP_LTE \<Rightarrow> vbool (variant_le E v w)
   | OP_GTE \<Rightarrow> vbool (variant_le E w v)
   | _ \<Rightarrow> None)"

definition integer_operator_execute :: "callables \<Rightarrow> OP \<Rightarrow> variant \<Rightarrow> int \<Rightarrow> variant option" where
  "integer_operator_execute E op v n =
     (if is_decimal v then variant_result E op v (VInt n) else do { x \<leftarrow> v_as_int v; int_result op x n })"

datatype optimized = Not_Optimized | Int_Right int | Int_Left int | Short_Circuit

text \<open>\<open>operator_expression::optimize\<close>: which form replaces an operator, given the operands that are known.\<close>

definition optimize_operator :: "OP \<Rightarrow> variant option \<Rightarrow> variant option \<Rightarrow> optimized" where
  "optimize_operator op left right =
     (if op = OP_AND \<or> op = OP_OR then Short_Circuit
      else case right of
        Some (VInt n) \<Rightarrow>
          if op = OP_DIV then (if n \<noteq> 0 then Int_Right n else Not_Optimized)
          else if op \<in> set [OP_ADD, OP_SUB, OP_EQ, OP_NEQ, OP_LT, OP_GT, OP_GTE, OP_LTE] then Int_Right n
          else Not_Optimized
      | _ \<Rightarrow>
        (case left of
           Some (VInt n) \<Rightarrow> if op = OP_ADD \<or> op = OP_MUL then Int_Left n else Not_Optimized
         | _ \<Rightarrow> Not_Optimized))"

text \<open>\<open>and_operator_expression\<close> and \<open>or_operator_expression\<close> evaluate the right operand only when it counts.\<close>

definition short_circuit :: "OP \<Rightarrow> variant option \<Rightarrow> (unit \<Rightarrow> variant option) \<Rightarrow> variant option" where
  "short_circuit op left right = do {
     v \<leftarrow> left;
     b \<leftarrow> as_bool v;
     if (op = OP_AND) = b then right () else Some v }"

definition optimized_value ::
  "callables \<Rightarrow> (variant \<Rightarrow> variant \<Rightarrow> variant option) \<Rightarrow> OP \<Rightarrow> optimized \<Rightarrow> variant \<Rightarrow> variant \<Rightarrow> variant option" where
  "optimized_value E pow op form left right = (case form of
     Not_Optimized \<Rightarrow> operator_value E pow op left right
   | Int_Right n \<Rightarrow> integer_operator_execute E op left n
   | Int_Left n \<Rightarrow> integer_operator_execute E op right n
   | Short_Circuit \<Rightarrow> short_circuit op (Some left) (\<lambda>_. Some right))"

section \<open>The optimizer keeps numbers\<close>

text \<open>Numbers of their C++ types.\<close>

fun number :: "variant \<Rightarrow> bool" where
  "number (VInt i) = i32 i"
| "number (VDecimal d) = i64 d"
| "number v = False"

lemma number_decimal: "number v \<Longrightarrow> \<exists>d. v_as_decimal v = Some d \<and> wf_decimal d"
  by (cases v) (auto simp: v_as_decimal_def wf_decimal_def i64_def i32_def)

lemma number_cases:
  assumes "number v"
  obtains i where "v = VInt i" "i32 i" | d where "v = VDecimal d" "i64 d"
  using assms by (cases v) auto

lemma dec_plus_commute: "dec_plus a b = dec_plus b a"
  by (simp add: dec_plus_def add.commute)

lemma dec_times_commute: "wf_decimal a \<Longrightarrow> wf_decimal b \<Longrightarrow> dec_times a b = dec_times b a"
  by (auto simp: dec_times_value mult.commute)

lemma add_commute:
  assumes "number a" and "number b"
  shows "variant_add E a b = variant_add E b a"
  using assms
  by (elim number_cases)
    (auto simp: variant_add_def decimal_op_def v_as_decimal_def add.commute dec_plus_commute)

lemma times_commute:
  assumes "number a" and "number b"
  shows "variant_times a b = variant_times b a"
proof -
  obtain x y where x: "v_as_decimal a = Some x" "wf_decimal x" and y: "v_as_decimal b = Some y" "wf_decimal y"
    using number_decimal assms by blast
  show ?thesis
    using assms x y
    by (elim number_cases)
      (auto simp: variant_times_def decimal_op_def int_op_def v_as_int_def mult.commute dec_times_commute)
qed

text \<open>On a number the special form does what the operator does.\<close>

lemma integer_form:
  assumes "number v" and "op \<notin> set [OP_IN, OP_AND, OP_OR, OP_DICE, OP_POW, OP_MOD]" and "op = OP_DIV \<Longrightarrow> n \<noteq> 0"
  shows "integer_operator_execute E op v n = operator_value E pow op v (VInt n)"
  using assms(1)
proof (cases rule: number_cases)
  case (1 i)
  then show ?thesis
    using assms(2,3)
    by (cases op)
      (auto simp: integer_operator_execute_def int_result_def operator_value_def v_as_int_def variant_add_def
        variant_minus_def variant_times_def int_op_def divide_guarded_def variant_divide_def variant_less_def
        vbool_def)
next
  case (2 d)
  then show ?thesis
    using assms(2,3)
    by (cases op)
      (auto simp: integer_operator_execute_def variant_result_def operator_value_def divide_guarded_def)
qed

lemma short_circuit_form: "op = OP_AND \<or> op = OP_OR \<Longrightarrow>
    short_circuit op (Some left) (\<lambda>_. Some right) = operator_value E pow op left right"
  by (cases "as_bool left") (auto simp: short_circuit_def operator_value_def)

section \<open>Where the optimizer changes the result\<close>

text \<open>An unset value is equal to 0 when the 0 stands in the formula, but not when it is computed; a text can
  be joined to a computed number, but not to one that stands in the formula.\<close>

lemma optimized_null_equals_zero:
  "operator_value E pow OP_EQ VNull (VInt 0) = Some (VInt 0)"
  "integer_operator_execute E OP_EQ VNull 0 = Some (VInt 1)"
  by (simp_all add: operator_value_def mixed_eq_def vbool_def integer_operator_execute_def int_result_def v_as_int_def)

lemma optimized_text_plus_number:
  "operator_value E pow OP_ADD (vstr s) (VInt 7) = Some (vstr (s @ show_int 7))"
  "integer_operator_execute E OP_ADD (vstr s) 7 = None"
  by (simp_all add: operator_value_def variant_add_def as_string_def integer_operator_execute_def v_as_int_def)

section \<open>Properties of operators\<close>

text \<open>C17: The optimizer does not change the value of an operator on numbers, whole or decimal, whichever of
  the operands it knows beforehand; overflows, the order of the operands and the guarded division by zero
  included.\<close>

theorem optimizer_keeps_value:
  assumes "number left" and "number right" and "op \<noteq> OP_DICE"
    and "known_left = None \<or> known_left = Some left" and "known_right = None \<or> known_right = Some right"
  shows "optimized_value E pow op (optimize_operator op known_left known_right) left right
    = operator_value E pow op left right"
proof (cases "op = OP_AND \<or> op = OP_OR")
  case True
  then show ?thesis using short_circuit_form by (auto simp: optimize_operator_def optimized_value_def)
next
  case False
  have left_form: "integer_operator_execute E op right n = operator_value E pow op left right"
    if "left = VInt n" "op = OP_ADD \<or> op = OP_MUL" for n
    using that integer_form[OF assms(2), of op n E pow] add_commute[OF assms(1,2)] times_commute[OF assms(1,2)]
    by (auto simp: operator_value_def)
  show ?thesis
    using assms(4,5) False integer_form[OF assms(1), of op _ E pow] left_form
    by (auto simp: optimize_operator_def optimized_value_def split: variant.splits if_splits)
qed

lemma optimizer_keeps_value_witness:
  "\<forall>E pow. optimized_value E pow OP_MUL (optimize_operator OP_MUL (Some (VInt 3)) None) (VInt 3) (VDecimal 500000)
    = operator_value E pow OP_MUL (VInt 3) (VDecimal 500000)"
  using optimizer_keeps_value[of "VInt 3" "VDecimal 500000" OP_MUL "Some (VInt 3)" None]
  by (simp add: range_defs)


section \<open>Elements and slices\<close>

definition square_bracket_execute :: "callables \<Rightarrow> (nat \<Rightarrow> string \<Rightarrow> variant) \<Rightarrow> variant \<Rightarrow> variant \<Rightarrow> variant option" where
  "square_bracket_execute E query_value left key = (case left of
     VList xs \<Rightarrow> variant_index E left key
   | VMap m \<Rightarrow> variant_index E left key
   | VCallable c \<Rightarrow> map_option (query_value c) (as_string key)
   | _ \<Rightarrow> None)"

text \<open>The index is compared with the size as an unsigned number: a negative one is beyond the end.\<close>

definition slice_bound :: "int \<Rightarrow> int \<Rightarrow> int" where
  "slice_bound n i = (if i < 0 \<or> i > n then n else i)"

definition slice_execute :: "variant \<Rightarrow> variant option \<Rightarrow> variant option \<Rightarrow> variant option" where
  "slice_execute left start end' = do {
     begin_index \<leftarrow> (case start of None \<Rightarrow> Some 0 | Some v \<Rightarrow> v_as_int v);
     end_index \<leftarrow> (case end' of None \<Rightarrow> map_option int (num_elements left) | Some v \<Rightarrow> v_as_int v);
     n \<leftarrow> map_option int (num_elements left);
     let b = slice_bound n begin_index;
     let e = slice_bound n end_index;
     case left of
       VList xs \<Rightarrow> (if xs = [] then Some VNull else if e \<ge> b then get_list_slice left b e else Some VNull)
     | _ \<Rightarrow> None }"

definition list_callable_value :: "variant \<Rightarrow> string \<Rightarrow> variant option" where
  "list_callable_value v key = do {
     n \<leftarrow> num_elements v;
     if key = ''size'' then Some (VInt (int n))
     else if key = ''empty'' then Some (VInt (if n = 0 then 1 else 0))
     else if key = ''first'' then (if n > 0 then nth_element v 0 else Some VNull)
     else if key = ''last'' then (if n > 0 then nth_element v (int n - 1) else Some VNull)
     else Some VNull }"

text \<open>\<open>string_expression::execute\<close>: the values of the substitutions, last one first, are put at their places.\<close>

fun substitute :: "callables \<Rightarrow> string \<Rightarrow> (nat \<times> variant) list \<Rightarrow> string option" where
  "substitute E res [] = Some res"
| "substitute E res ((pos, v) # subs) = do {
     str \<leftarrow> string_cast E v;
     if pos > length res then None else substitute E (take pos res @ str @ drop pos res) subs }"

text \<open>\<open>map_expression::execute\<close>: keys and values in turn; an odd one at the end is dropped.\<close>

fun map_items :: "callables \<Rightarrow> (variant \<times> variant) list \<Rightarrow> variant list \<Rightarrow> (variant \<times> variant) list option" where
  "map_items E m (k # v # vs) = do { m' \<leftarrow> map_insert E k v m; map_items E m' vs }"
| "map_items E m vs = Some m"

section \<open>List comprehensions\<close>

fun increment_vec :: "nat list \<Rightarrow> nat list \<Rightarrow> nat list \<times> bool" where
  "increment_vec [] ms = ([], False)"
| "increment_vec (x # v) [] = (x # v, False)"
| "increment_vec (x # v) (m # ms) =
     (if x + 1 < m then ((x + 1) # v, True)
      else (case increment_vec v ms of (v', carry) \<Rightarrow> (0 # v', carry)))"

text \<open>How many index vectors are left.\<close>

fun vectors_left :: "nat list \<Rightarrow> nat list \<Rightarrow> nat" where
  "vectors_left (x # v) (m # ms) = (max m 1 - 1 - x) + max m 1 * vectors_left v ms"
| "vectors_left v ms = 0"

lemma increment_vec_left:
  "increment_vec v ms = (v', True) \<Longrightarrow> vectors_left v' ms < vectors_left v ms"
proof (induction v ms arbitrary: v' rule: increment_vec.induct)
  case (3 x v m ms)
  show ?case
  proof (cases "x + 1 < m")
    case True
    then show ?thesis using 3(2) by auto
  next
    case False
    then obtain u where u: "increment_vec v ms = (u, True)" "v' = 0 # u" using 3(2) by (auto split: prod.splits)
    have "vectors_left u ms + 1 \<le> vectors_left v ms" using 3(1)[OF False u(1)] by simp
    then have "max m 1 * (vectors_left u ms + 1) \<le> max m 1 * vectors_left v ms" by (rule mult_le_mono2)
    then have "max m 1 + max m 1 * vectors_left u ms \<le> max m 1 * vectors_left v ms" by simp
    moreover have "max m 1 - 1 < max m 1" by simp
    ultimately have "(max m 1 - 1) + max m 1 * vectors_left u ms < max m 1 * vectors_left v ms" by linarith
    then show ?thesis using u(2) by simp
  qed
qed simp_all

text \<open>
  The loop of \<open>list_comprehension_expression::execute\<close>. \<open>visit\<close> gives the element for an index vector, if it
  passes the filters.
\<close>

function comprehension_loop :: "(nat list \<Rightarrow> variant option option) \<Rightarrow> nat list \<Rightarrow> nat list \<Rightarrow> variant list \<Rightarrow> variant list option" where
  "comprehension_loop visit nelements indexes result = (case visit indexes of
     None \<Rightarrow> None
   | Some r \<Rightarrow>
       (let result' = (case r of None \<Rightarrow> result | Some x \<Rightarrow> result @ [x])
        in case increment_vec indexes nelements of
             (indexes', again) \<Rightarrow>
               if again then comprehension_loop visit nelements indexes' result' else Some result'))"
  by pat_completeness auto
termination
  by (relation "measure (\<lambda>(visit, nelements, indexes, result). vectors_left indexes nelements)")
    (auto simp: increment_vec_left)

declare comprehension_loop.simps [simp del]

text \<open>The filters are evaluated in order, up to the first that fails.\<close>

fun passes_filters :: "(variant list \<Rightarrow> variant option) list \<Rightarrow> variant list \<Rightarrow> bool option" where
  "passes_filters [] args = Some True"
| "passes_filters (f # fs) args = do {
     v \<leftarrow> f args; b \<leftarrow> as_bool v; if b then passes_filters fs args else Some False }"

fun bind_args :: "variant list \<Rightarrow> nat list \<Rightarrow> variant list option" where
  "bind_args [] is = Some []"
| "bind_args (l # ls) [] = Some []"
| "bind_args (l # ls) (i # is) = do { x \<leftarrow> nth_element l (int i); xs \<leftarrow> bind_args ls is; Some (x # xs) }"

definition visit_indexes ::
  "variant list \<Rightarrow> (variant list \<Rightarrow> variant option) list \<Rightarrow> (variant list \<Rightarrow> variant option) \<Rightarrow> nat list \<Rightarrow> variant option option" where
  "visit_indexes sources filters expr indexes = do {
     args \<leftarrow> bind_args sources indexes;
     passes \<leftarrow> passes_filters filters args;
     if passes then map_option Some (expr args) else Some None }"

text \<open>The values of the generators are checked one by one; an empty one ends the evaluation.\<close>

fun generator_sizes :: "variant list \<Rightarrow> nat list option option" where
  "generator_sizes [] = Some (Some [])"
| "generator_sizes (l # ls) = do {
     n \<leftarrow> num_elements l;
     if n = 0 then Some None else do { r \<leftarrow> generator_sizes ls; Some (map_option (Cons n) r) } }"

definition list_comprehension ::
  "variant list \<Rightarrow> (variant list \<Rightarrow> variant option) list \<Rightarrow> (variant list \<Rightarrow> variant option) \<Rightarrow> variant option" where
  "list_comprehension sources filters expr = do {
     sizes \<leftarrow> generator_sizes sources;
     case sizes of
       None \<Rightarrow> Some (VList [])
     | Some nelements \<Rightarrow>
         map_option VList (comprehension_loop (visit_indexes sources filters expr) nelements (map (\<lambda>_. 0) sources) []) }"


text \<open>All index vectors, the first index running fastest, and the elements for a list of them.\<close>

fun all_vectors :: "nat list \<Rightarrow> nat list list" where
  "all_vectors [] = [[]]"
| "all_vectors (m # ms) = concat (map (\<lambda>v. map (\<lambda>i. i # v) [0..<m]) (all_vectors ms))"

fun collect :: "(nat list \<Rightarrow> variant option option) \<Rightarrow> variant list \<Rightarrow> nat list list \<Rightarrow> variant list option" where
  "collect visit res [] = Some res"
| "collect visit res (v # vs) = (case visit v of
     None \<Rightarrow> None
   | Some r \<Rightarrow> collect visit (case r of None \<Rightarrow> res | Some x \<Rightarrow> res @ [x]) vs)"

text \<open>The vectors from a given one on.\<close>

fun vectors_from :: "nat list \<Rightarrow> nat list \<Rightarrow> nat list list" where
  "vectors_from (x # v) (m # ms) = (case vectors_from v ms of
     [] \<Rightarrow> []
   | w # ws \<Rightarrow> map (\<lambda>i. i # w) [x..<m] @ concat (map (\<lambda>w. map (\<lambda>i. i # w) [0..<m]) ws))"
| "vectors_from v ms = [[]]"

lemma increment_vec_valid:
  "list_all2 (<) v ms \<Longrightarrow> list_all2 (<) (fst (increment_vec v ms)) ms"
  by (induction v ms rule: list_all2_induct) (auto split: prod.splits)

lemma vectors_from_nonempty: "list_all2 (<) v ms \<Longrightarrow> vectors_from v ms \<noteq> []"
  by (induction v ms rule: list_all2_induct) (auto split: list.splits)

lemma vectors_from_step:
  "list_all2 (<) v ms \<Longrightarrow> vectors_from v ms
    = v # (if snd (increment_vec v ms) then vectors_from (fst (increment_vec v ms)) ms else [])"
proof (induction v ms rule: list_all2_induct)
  case (Cons x v m ms)
  show ?case
  proof (cases "x + 1 < m")
    case True
    then have "[x..<m] = x # [Suc x..<m]" by (simp add: upt_conv_Cons)
    then show ?thesis using Cons True by simp
  next
    case False
    then have x: "[x..<m] = [x]" "0 < m" using Cons(1) by (auto simp: upt_conv_Cons)
    obtain v' c where inc: "increment_vec v ms = (v', c)" by (cases "increment_vec v ms")
    show ?thesis
    proof (cases c)
      case True
      moreover obtain w ws where "vectors_from v' ms = w # ws"
        using vectors_from_nonempty[OF increment_vec_valid[OF Cons(2)]] inc by (cases "vectors_from v' ms") auto
      ultimately show ?thesis using False x inc Cons.IH by simp
    next
      case nc: False
      then show ?thesis using False x inc Cons.IH by simp
    qed
  qed
qed simp

lemma comprehension_loop_collect:
  "list_all2 (<) v ms \<Longrightarrow> comprehension_loop visit ms v res = collect visit res (vectors_from v ms)"
proof (induction visit ms v res rule: comprehension_loop.induct)
  case (1 visit ms v res)
  obtain v' c where inc: "increment_vec v ms = (v', c)" by (cases "increment_vec v ms")
  have valid: "list_all2 (<) v' ms" using increment_vec_valid[OF 1(2)] inc by simp
  have step: "vectors_from v ms = v # (if c then vectors_from v' ms else [])"
    using vectors_from_step[OF 1(2)] inc by simp
  show ?case
  proof (cases "visit v")
    case None
    then show ?thesis by (simp add: comprehension_loop.simps step)
  next
    case (Some r)
    then show ?thesis
      using 1(1)[OF Some refl, of v' c] inc valid by (simp add: comprehension_loop.simps[of _ _ v] step Let_def)
  qed
qed

lemma vectors_from_start: "\<forall>m \<in> set ms. 0 < m \<Longrightarrow> vectors_from (map (\<lambda>_. 0) ms) ms = all_vectors ms"
proof (induction ms)
  case (Cons m ms)
  have "all_vectors ms \<noteq> []" using Cons(2) by (induction ms) auto
  then show ?case using Cons by (cases "all_vectors ms") auto
qed simp

lemma distinct_prefixed: "distinct vs \<Longrightarrow> distinct (concat (map (\<lambda>v. map (\<lambda>i. i # v) [0..<m]) vs))"
  by (induction vs) (auto simp: distinct_map inj_on_def)

lemma all_vectors_distinct: "distinct (all_vectors ms)"
  by (induction ms) (auto simp: distinct_prefixed)

lemma set_all_vectors: "set (all_vectors ms) = {v. list_all2 (<) v ms}"
  by (induction ms) (auto simp: list_all2_Cons2)

lemma generator_sizes_nonempty:
  "generator_sizes ls = Some (Some ns) \<Longrightarrow> length ns = length ls \<and> (\<forall>n \<in> set ns. 0 < n)"
  by (induction ls arbitrary: ns) (auto simp: bind_eq_Some_conv split: if_splits)


text \<open>C18: A list comprehension ends, and goes through every combination of elements of its generators exactly
  once, the first generator running fastest: its elements are the values of the expression at those that pass
  the filters, in that order.\<close>

theorem comprehension_visits_all:
  assumes "generator_sizes gens = Some (Some sizes)"
  shows "list_comprehension gens filters expr
      = map_option VList (collect (visit_indexes gens filters expr) [] (all_vectors sizes))
    \<and> distinct (all_vectors sizes) \<and> set (all_vectors sizes) = {v. list_all2 (<) v sizes}"
proof -
  have len: "length sizes = length gens" and pos: "\<forall>n \<in> set sizes. 0 < n"
    using generator_sizes_nonempty[OF assms] by simp_all
  have zeros: "map (\<lambda>_. 0 :: nat) gens = map (\<lambda>_. 0) sizes" using len by (simp add: map_replicate_const)
  have "list_all2 (<) (map (\<lambda>_. 0) sizes) sizes" using pos by (induction sizes) auto
  then show ?thesis
    using comprehension_loop_collect vectors_from_start[OF pos] zeros
    by (simp add: list_comprehension_def assms all_vectors_distinct set_all_vectors)
qed

lemma comprehension_visits_all_witness:
  "list_comprehension [VList [VInt 1, VInt 2], VList [VInt 5, VInt 6]] [] (\<lambda>args. Some (VList args))
    = Some (VList [VList [VInt 1, VInt 5], VList [VInt 2, VInt 5], VList [VInt 1, VInt 6], VList [VInt 2, VInt 6]])"
proof -
  have "generator_sizes [VList [VInt 1, VInt 2], VList [VInt 5, VInt 6]] = Some (Some [2, 2])"
    by (simp add: num_elements_def)
  from comprehension_visits_all[OF this, of "[]" "\<lambda>args. Some (VList args)"] show ?thesis
    by (simp add: visit_indexes_def nth_element_def numeral_2_eq_2 upt_conv_Cons)
qed


end
