(* ===== verification/CT_Formula_Parser.thy ===== *)
theory CT_Formula_Parser
  imports CT_Formula_Tokenizer CT_Variant
begin

text \<open>
  The parser of formulas in \<open>src/formula.cpp\<close>, from \<open>operator_precedence\<close> to the constructor of
  \<open>formula\<close>. A range \<open>[i1, i2)\<close> of tokens is their list. An expression is the tree that the code builds, before
  it is optimized: the optimizer and the evaluation are in \<open>CT_Formula_Ops\<close>. The symbol table, which definitions of
  functions extend, is threaded through the parser; operands are parsed from left to right, an order C++ leaves open.
  Every failed assertion is a \<open>parse_failure\<close>; \<open>Outside_Range\<close> is an access to a token or a character outside
  of the range. The text an expression remembers for messages and the slots of the variables in scope are left out.
\<close>

section \<open>Expressions\<close>

datatype expr =
    EFunctions
  | ENull
  | EBool bool
  | EConst string
  | EIdent string "(string list \<times> formula \<times> expr list) option"
  | EInt int
  | EDecimal int
  | EString string bool "(nat \<times> formula) list"
  | EList "expr list"
  | EComprehension expr "(string \<times> expr) list" "expr list"
  | ESlice expr "expr option" "expr option"
  | EIndex expr expr
  | EMap "expr list"
  | EFunction string "expr list"
  | EDefault expr
  | ECall expr "expr list"
  | EUnary string expr
  | EBinary string expr expr
  | EDot expr expr
  | EWhere expr "(string \<times> expr) list"
  | ELambda "string list" formula "expr list"
and formula = Formula "(expr \<times> expr \<times> expr) list" expr

text \<open>
  An identifier that is the name of a function of the formula carries the function: its arguments, body and
  defaults. A string has its text, whether it is translated, and its substitutions, the last one first.
  \<open>EDefault e\<close> is the value that the default \<open>e\<close> of an argument had when the function was defined. A formula has
  its base cases (guard as written, guard and value) and its expression.
\<close>

datatype parse_failure = Empty_Expression | Invalid_Function_Definition | Type_Not_Found string
  | Wrong_Arguments string | Too_Many_Colons | Where_Name_Needed | Unexpected_After_Where | Empty_Where
  | Identifier_Expected | Found_After_Filter | Repeated_Identifier string | Unexpected_After_Call | No_Closing_Paren
  | Could_Not_Parse | Illegal_Unary string | Missing_Parens | Undefined_Number | Token_Failure token_error
  | Bracket_Failure bracket_error | No_Recursive_Case | Colon_Expected | Recursive_Case_Not_Found
  | Outside_Range | Nested_Translations

text \<open>The functions a formula defines: arguments, body and defaults.\<close>

type_synonym function_def = "string list \<times> formula \<times> expr list"

text \<open>
  \<open>function_symbol_table\<close>: the functions defined in the formula, for a \<open>recursive_function_symbol_table\<close> the
  name, arguments and defaults of the function that is being defined, and the backup table.
\<close>

datatype symbols =
  Symbols (own: "(string \<times> function_def) list") (stub: "(string \<times> string list \<times> expr list) option")
    (backup: "symbols option")

definition new_symbols :: symbols where "new_symbols = Symbols [] None None"

definition add_formula_function :: "string \<Rightarrow> function_def \<Rightarrow> symbols \<Rightarrow> symbols" where
  "add_formula_function n d s = Symbols ((n, d) # own s) (stub s) (backup s)"

definition get_formula_function :: "symbols \<Rightarrow> string \<Rightarrow> function_def option" where
  "get_formula_function s n = map_of (own s) n"

text \<open>Arguments and defaults of the function that a call finds.\<close>

fun find_function :: "symbols \<Rightarrow> string \<Rightarrow> (string list \<times> expr list) option" where
  "find_function (Symbols fs None outer) fn = (case map_of fs fn of
     Some (args, body, defaults) \<Rightarrow> Some (args, defaults)
   | None \<Rightarrow> (case outer of None \<Rightarrow> None | Some s \<Rightarrow> find_function s fn))"
| "find_function (Symbols fs (Some (n, args, defaults)) outer) fn =
     (if fn = n then Some (args, defaults)
      else (case outer of None \<Rightarrow> None | Some s \<Rightarrow> find_function s fn))"

text \<open>
  What the parser takes from outside: whether strings are kept verbatim, the translations, the names of types, and
  the functions of the engine with the least and largest number of arguments (-1 for no limit).
\<close>

record parse_env =
  verbatim_strings :: bool
  translated :: "string \<Rightarrow> string"
  known_type :: "string \<Rightarrow> bool"
  builtin_limits :: "string \<Rightarrow> (int \<times> int) option"

type_synonym 'a parsed = "parse_failure + ('a \<times> symbols option)"

type_synonym parser = "token list \<Rightarrow> symbols option \<Rightarrow> expr parsed"

text \<open>Sequencing: the first failure ends the parser, the symbol table is passed on.\<close>

definition parse_then :: "'a parsed \<Rightarrow> ('a \<Rightarrow> symbols option \<Rightarrow> 'b parsed) \<Rightarrow> 'b parsed" where
  "parse_then r k = (case r of Inl e \<Rightarrow> Inl e | Inr (x, sy) \<Rightarrow> k x sy)"

lemma parse_then_simps [simp]:
  "parse_then (Inl e) k = Inl e"
  "parse_then (Inr (x, sy)) k = k x sy"
  by (simp_all add: parse_then_def)

section \<open>Precedence\<close>

definition precedence_map :: "(string \<times> nat) list" where
  "precedence_map = [(''->'', 1), (''not'', 2), (''where'', 3), (''or'', 4), (''and'', 5), (''in'', 6),
     (''='', 7), (''!='', 7), (''<'', 7), (''>'', 7), (''<='', 7), (''>='', 7), (''+'', 8), (''-'', 8), (''*'', 9),
     (''/'', 10), (''%'', 11), (''^'', 12), (''d'', 13), (''['', 14), (''('', 14), (''.'', 14)]"

text \<open>That the assertion, that the operator is in the map, never fails is shown in \<open>CT_Formula_Grammar\<close>.\<close>

definition operator_precedence :: "token \<Rightarrow> nat" where
  "operator_precedence t = (case map_of precedence_map (snd t) of Some n \<Rightarrow> n | None \<Rightarrow> 0)"

section \<open>Calls of named functions\<close>

text \<open>\<open>generate_function_expression\<close>: missing arguments at the end take their defaults.\<close>

definition fill_defaults :: "nat \<Rightarrow> expr list \<Rightarrow> expr list \<Rightarrow> expr list" where
  "fill_defaults n defaults args =
     (if length args + length defaults \<ge> n \<and> length args < n
      then args @ map EDefault (take (n - length args) (drop (length args + length defaults - n) defaults))
      else args)"

text \<open>\<open>function_expression::set_debug_info\<close>\<close>

definition checked_call :: "string \<Rightarrow> int \<Rightarrow> int \<Rightarrow> expr list \<Rightarrow> parse_failure + expr" where
  "checked_call name min_args max_args args =
     (if min_args \<ge> 0 \<and> int (length args) < min_args \<or> max_args \<ge> 0 \<and> int (length args) > max_args
      then Inl (Wrong_Arguments name) else Inr (EFunction name args))"

text \<open>\<open>create_function\<close>; \<open>None\<close> where it returns no expression.\<close>

definition create_function :: "parse_env \<Rightarrow> string \<Rightarrow> expr list \<Rightarrow> symbols option \<Rightarrow> (parse_failure + expr) option" where
  "create_function env fn args sy =
     (case (if fn = ''set'' \<or> fn = ''add'' then None else Option.bind sy (\<lambda>s. find_function s fn)) of
        Some (names, defaults) \<Rightarrow>
          Some (checked_call fn (int (length names)) (int (length names))
                 (fill_defaults (length names) defaults args))
      | None \<Rightarrow> map_option (\<lambda>(min_args, max_args). checked_call fn min_args max_args args) (builtin_limits env fn))"

section \<open>Lists of arguments\<close>

text \<open>The loops keep the tokens since \<open>beg\<close> and the number of open brackets.\<close>

fun parse_args_loop :: "parser \<Rightarrow> int \<Rightarrow> token list \<Rightarrow> token list \<Rightarrow> symbols option \<Rightarrow> expr list parsed" where
  "parse_args_loop rec parens cur [] sy =
     (if cur = [] then Inr ([], sy) else parse_then (rec cur sy) (\<lambda>e sy. Inr ([e], sy)))"
| "parse_args_loop rec parens cur (t # ts) sy =
     (if is_open (fst t) then parse_args_loop rec (parens + 1) (cur @ [t]) ts sy
      else if is_close (fst t) then parse_args_loop rec (parens - 1) (cur @ [t]) ts sy
      else if fst t = TOKEN_COMMA \<and> parens = 0
      then parse_then (rec cur sy) (\<lambda>e sy. parse_then (parse_args_loop rec parens [] ts sy) (\<lambda>es sy. Inr (e # es, sy)))
      else parse_args_loop rec parens (cur @ [t]) ts sy)"

definition parse_args :: "parser \<Rightarrow> token list \<Rightarrow> symbols option \<Rightarrow> expr list parsed" where
  "parse_args rec ts sy = parse_args_loop rec 0 [] ts sy"

text \<open>The entries of a map; \<open>str\<close> makes the string for an identifier before a colon.\<close>

fun parse_set_args_loop :: "parser \<Rightarrow> (string \<Rightarrow> symbols option \<Rightarrow> expr parsed) \<Rightarrow> int \<Rightarrow> bool \<Rightarrow> token list \<Rightarrow>
    token list \<Rightarrow> symbols option \<Rightarrow> expr list parsed" where
  "parse_set_args_loop rec str parens check_pointer cur [] sy =
     (if cur = [] then Inr ([], sy) else parse_then (rec cur sy) (\<lambda>e sy. Inr ([e], sy)))"
| "parse_set_args_loop rec str parens check_pointer cur (t # ts) sy =
     (if is_open (fst t) then parse_set_args_loop rec str (parens + 1) check_pointer (cur @ [t]) ts sy
      else if is_close (fst t) then parse_set_args_loop rec str (parens - 1) check_pointer (cur @ [t]) ts sy
      else if (fst t = TOKEN_POINTER \<or> fst t = TOKEN_COLON) \<and> parens = 0
      then (if check_pointer then Inl Too_Many_Colons
            else parse_then (case cur of [(TOKEN_IDENTIFIER, s)] \<Rightarrow> str s sy | _ \<Rightarrow> rec cur sy)
                   (\<lambda>e sy. parse_then (parse_set_args_loop rec str parens True [] ts sy) (\<lambda>es sy. Inr (e # es, sy))))
      else if fst t = TOKEN_COMMA \<and> parens = 0
      then parse_then (rec cur sy)
             (\<lambda>e sy. parse_then (parse_set_args_loop rec str parens False [] ts sy) (\<lambda>es sy. Inr (e # es, sy)))
      else parse_set_args_loop rec str parens check_pointer (cur @ [t]) ts sy)"

definition parse_set_args :: "parser \<Rightarrow> (string \<Rightarrow> symbols option \<Rightarrow> expr parsed) \<Rightarrow> token list \<Rightarrow> symbols option \<Rightarrow>
    expr list parsed" where
  "parse_set_args rec str ts sy = parse_set_args_loop rec str 0 False [] ts sy"

text \<open>A \<open>std::map\<close> from names to expressions, as the list of its entries.\<close>

fun table_insert :: "string \<Rightarrow> 'a \<Rightarrow> (string \<times> 'a) list \<Rightarrow> (string \<times> 'a) list" where
  "table_insert k x [] = [(k, x)]"
| "table_insert k x ((k', x') # t) =
     (if k = k' then (k, x) # t
      else if string_le k k' then (k, x) # (k', x') # t
      else (k', x') # table_insert k x t)"

fun parse_where_loop :: "parser \<Rightarrow> int \<Rightarrow> string \<Rightarrow> token list \<Rightarrow> token list \<Rightarrow> (string \<times> expr) list \<Rightarrow>
    symbols option \<Rightarrow> (string \<times> expr) list parsed" where
  "parse_where_loop rec parens var_name cur [] table sy =
     (if cur = [] then Inr (table, sy)
      else if var_name = [] then Inl Unexpected_After_Where
      else parse_then (rec cur sy) (\<lambda>e sy. Inr (table_insert var_name e table, sy)))"
| "parse_where_loop rec parens var_name cur (t # ts) table sy =
     (if is_open (fst t) then parse_where_loop rec (parens + 1) var_name (cur @ [t]) ts table sy
      else if is_close (fst t) then parse_where_loop rec (parens - 1) var_name (cur @ [t]) ts table sy
      else if parens = 0 \<and> fst t = TOKEN_COMMA
      then (if var_name = [] then Inl Where_Name_Needed
            else parse_then (rec cur sy)
                   (\<lambda>e sy. parse_where_loop rec parens [] [] ts (table_insert var_name e table) sy))
      else if parens = 0 \<and> fst t = TOKEN_OPERATOR \<and> snd t = ''=''
      then (if var_name = [] \<and> length cur = 1 \<and> fst (hd cur) = TOKEN_IDENTIFIER
            then parse_where_loop rec parens (snd (hd cur)) [] ts table sy
            else Inl Unexpected_After_Where)
      else parse_where_loop rec parens var_name (cur @ [t]) ts table sy)"

text \<open>\<open>parse_where_clauses\<close>, and the assertion of \<open>create_where_definition\<close>.\<close>

definition parse_where_clauses :: "parser \<Rightarrow> token list \<Rightarrow> symbols option \<Rightarrow> (string \<times> expr) list parsed" where
  "parse_where_clauses rec ts sy = parse_then (parse_where_loop rec 0 [] [] ts [] sy)
     (\<lambda>table sy. if table = [] then Inl Empty_Where else Inr (table, sy))"

lemma parse_then_cong [fundef_cong]:
  "r = r' \<Longrightarrow> (\<And>x sy. r' = Inr (x, sy) \<Longrightarrow> k x sy = k' x sy) \<Longrightarrow> parse_then r k = parse_then r' k'"
  by (cases r') (auto simp: parse_then_def)

text \<open>What lies before a place that a search has reached.\<close>

definition before :: "token list \<Rightarrow> token list \<Rightarrow> token list" where
  "before ts rest = take (length ts - length rest) ts"

lemma find_match_suffix: "find_match m ts = (found, rest) \<Longrightarrow> ts = before ts rest @ rest"
proof -
  assume "find_match m ts = (found, rest)"
  then obtain n where "find_match_loop m 0 ts = (n, rest)" by (auto simp: find_match_def split: prod.splits)
  then obtain pre where "ts = pre @ rest" using find_match_loop_spec by blast
  then show ?thesis by (simp add: before_def)
qed

lemma find_match_found: "find_match m ts = (True, rest) \<Longrightarrow> \<exists>t r. rest = t # r \<and> match m t"
  by (auto simp: find_match_def neq_Nil_conv split: prod.splits)

lemma find_match_length: "(found, rest) = find_match m ts \<Longrightarrow> length rest \<le> length ts"
  using find_match_suffix[of m ts found rest] by (metis length_append le_add2)

lemma find_match_tl: "(True, rest) = find_match m ts \<Longrightarrow> length (tl rest) < length ts"
  using find_match_found[of m ts rest] find_match_length[of True rest m ts] by fastforce

section \<open>Formulas: base cases and the expression\<close>

function base_cases :: "parser \<Rightarrow> token list \<Rightarrow> (expr \<times> expr) list \<Rightarrow> symbols option \<Rightarrow>
    ((expr \<times> expr) list \<times> token list) parsed" where
  "base_cases rec ts bases sy =
     (if ts \<noteq> [] \<and> hd ts = (TOKEN_KEYWORD, ''base'')
      then (case find_match (add_type TOKEN_COLON new_matcher) (tl ts) of
              (False, _) \<Rightarrow> Inl Colon_Expected
            | (True, colon) \<Rightarrow>
                (case find_match (add_str ''recursive'' (add_str ''base'' (add_type TOKEN_KEYWORD new_matcher))) colon of
                   (False, _) \<Rightarrow> Inl No_Recursive_Case
                 | (True, rest) \<Rightarrow>
                     parse_then (rec (before (tl ts) colon) sy) (\<lambda>guard sy.
                       parse_then (rec (before (tl colon) rest) sy) (\<lambda>e sy.
                         base_cases rec rest (bases @ [(guard, e)]) sy))))
      else Inr ((bases, ts), sy))"
  by pat_completeness auto
termination
  by (relation "measure (\<lambda>(rec, ts, bases, sy). length ts)")
    (auto simp: neq_Nil_conv dest!: find_match_length)

declare base_cases.simps [simp del]

text \<open>The constructor of \<open>formula\<close>, from the tokens on.\<close>

definition formula_of_tokens :: "parser \<Rightarrow> token list \<Rightarrow> symbols option \<Rightarrow> formula parsed" where
  "formula_of_tokens rec ts sy = (case check_brackets_match ts of
     Some e \<Rightarrow> Inl (Bracket_Failure e)
   | None \<Rightarrow>
       if ts = [] then Inr (Formula [] ENull, sy)
       else if hd ts = (TOKEN_KEYWORD, ''base'')
       then (case find_match (add_str ''recursive'' (add_type TOKEN_KEYWORD new_matcher)) ts of
               (False, _) \<Rightarrow> Inl No_Recursive_Case
             | (True, recursive) \<Rightarrow>
                 (case find_match (add_str ''where'' (add_type TOKEN_OPERATOR new_matcher)) recursive of
                    (found, where_tok) \<Rightarrow>
                      parse_then (if found
                                  then parse_then (parse_where_clauses rec (tl where_tok) sy) (\<lambda>t sy. Inr (Some t, sy))
                                  else Inr (None, sy))
                        (\<lambda>table sy. parse_then (base_cases rec (if found then before ts where_tok else ts) [] sy)
                          (\<lambda>(bases, rest) sy.
                             if length rest > 2 \<and> hd rest = (TOKEN_KEYWORD, ''recursive'') \<and> fst (rest ! 1) = TOKEN_COLON
                             then parse_then (rec (drop 2 rest) sy) (\<lambda>e sy.
                               (let wrap = (\<lambda>e. case table of None \<Rightarrow> e | Some t \<Rightarrow> EWhere e t)
                                in Inr (Formula (map (\<lambda>(g, x). (g, wrap g, wrap x)) bases) (wrap e), sy)))
                             else Inl Recursive_Case_Not_Found))))
       else parse_then (rec ts sy) (\<lambda>e sy. Inr (Formula [] e, sy)))"

text \<open>A formula without a symbol table has one of its own.\<close>

definition parse_formula_tokens :: "parser \<Rightarrow> token list \<Rightarrow> symbols option \<Rightarrow> formula parsed" where
  "parse_formula_tokens rec ts sy = (case sy of
     None \<Rightarrow> parse_then (formula_of_tokens rec ts (Some new_symbols)) (\<lambda>f _. Inr (f, None))
   | Some s \<Rightarrow> formula_of_tokens rec ts sy)"

definition parse_formula_text :: "parser \<Rightarrow> string \<Rightarrow> symbols option \<Rightarrow> formula parsed" where
  "parse_formula_text rec s sy = (case tokenize s of
     Inl e \<Rightarrow> Inl (Token_Failure e)
   | Inr ts \<Rightarrow> parse_formula_tokens rec ts sy)"

section \<open>Definitions of functions\<close>

text \<open>
  The arguments, with types and defaults, up to the closing parenthesis. Once an argument has a default, one
  without is skipped: the assertion that should refuse it only tests that there are tokens left.
\<close>

function parse_function_args_loop :: "parser \<Rightarrow> string list \<Rightarrow> string list \<Rightarrow> expr list \<Rightarrow> token list \<Rightarrow>
    parse_failure + (string list \<times> string list \<times> expr list \<times> token list)" where
  "parse_function_args_loop rec args types defaults ts = (case ts of
     [] \<Rightarrow> Inl Outside_Range
   | t # ts1 \<Rightarrow>
       if fst t = TOKEN_RPARENS then Inr (args, types, defaults, ts1)
       else if fst t = TOKEN_IDENTIFIER
       then (if ts1 \<noteq> [] \<and> snd (hd ts1) = ''=''
             then (if tl ts1 = [] then Inl Invalid_Function_Definition
                   else (case find_match (add_type TOKEN_RPARENS (add_type TOKEN_COMMA new_matcher)) (tl ts1) of
                           (False, _) \<Rightarrow> Inl Invalid_Function_Definition
                         | (True, rest) \<Rightarrow>
                             (case rec (before (tl ts1) rest) None of
                                Inl e \<Rightarrow> Inl e
                              | Inr (e, _) \<Rightarrow>
                                  parse_function_args_loop rec (args @ [snd t]) (types @ [[]]) (defaults @ [e]) rest)))
             else if defaults \<noteq> [] then parse_function_args_loop rec args types defaults ts1
             else if ts1 \<noteq> [] \<and> snd (hd ts1) = ''*''
             then parse_function_args_loop rec (args @ [snd t @ ''*'']) (types @ [[]]) defaults (tl ts1)
             else if ts1 \<noteq> [] \<and> fst (hd ts1) = TOKEN_IDENTIFIER
             then parse_function_args_loop rec (args @ [snd (hd ts1)]) (types @ [snd t]) defaults (tl ts1)
             else parse_function_args_loop rec (args @ [snd t]) (types @ [[]]) defaults ts1)
       else if fst t = TOKEN_COMMA then parse_function_args_loop rec args types defaults ts1
       else Inl Invalid_Function_Definition)"
  by pat_completeness auto
termination
  by (relation "measure (\<lambda>(rec, args, types, defaults, ts). length ts)")
    (auto simp: neq_Nil_conv dest!: find_match_length)

declare parse_function_args_loop.simps [simp del]

definition parse_function_args :: "parser \<Rightarrow> token list \<Rightarrow>
    parse_failure + (string list \<times> string list \<times> expr list \<times> token list)" where
  "parse_function_args rec ts =
     (if ts = [] then Inl Outside_Range
      else if fst (hd ts) = TOKEN_LPARENS then parse_function_args_loop rec [] [] [] (tl ts)
      else Inl Invalid_Function_Definition)"

text \<open>
  The body is cut out of the text and tokenized again: the same tokens, but for a dice operator at its end, which
  is an identifier when nothing follows.
\<close>

definition retokenized :: "token list \<Rightarrow> token list" where
  "retokenized ts =
     (if ts \<noteq> [] \<and> last ts = (TOKEN_OPERATOR, ''d'') then butlast ts @ [(TOKEN_IDENTIFIER, ''d'')] else ts)"

text \<open>
  \<open>parse_function_def\<close>: a lambda, or nothing and a new symbol; and the tokens from the semicolon on. \<open>ts\<close> are the
  tokens after the arguments. An empty body is a text that ends before it begins.
\<close>

definition parse_function_body :: "parse_env \<Rightarrow> parser \<Rightarrow> string \<Rightarrow> string list \<Rightarrow> string list \<Rightarrow> expr list \<Rightarrow>
    token list \<Rightarrow> symbols \<Rightarrow> (expr option \<times> token list) parsed" where
  "parse_function_body env rec formula_name args types defaults ts s =
     (let body = takeWhile (\<lambda>t. fst t \<noteq> TOKEN_SEMICOLON) ts;
          rest = dropWhile (\<lambda>t. fst t \<noteq> TOKEN_SEMICOLON) ts;
          unknown = find (\<lambda>t. t \<noteq> [] \<and> \<not> known_type env t) types
      in if body = [] then Inl Outside_Range
         else if formula_name \<noteq> [] \<and> unknown \<noteq> None then Inl (Type_Not_Found (the unknown))
         else parse_then
                (parse_formula_tokens rec (retokenized body)
                  (Some (Symbols [] (Some (if formula_name = [] then ''recurse'' else formula_name, args, defaults))
                           (Some s))))
                (\<lambda>fml _.
                   if formula_name = [] then Inr ((Some (ELambda args fml defaults), rest), Some s)
                   else Inr ((None, rest), Some (add_formula_function formula_name (args, fml, defaults) s))))"

text \<open>The name of the function, if there is one, and the tokens after it.\<close>

definition function_name :: "token list \<Rightarrow> string \<times> token list" where
  "function_name ts =
     (if ts \<noteq> [] \<and> fst (hd ts) = TOKEN_IDENTIFIER then (snd (hd ts), tl ts) else ([], ts))"

definition parse_function_def :: "parse_env \<Rightarrow> parser \<Rightarrow> token list \<Rightarrow> symbols \<Rightarrow> (expr option \<times> token list) parsed" where
  "parse_function_def env rec ts s = (case function_name (tl ts) of (formula_name, ts') \<Rightarrow>
     (case parse_function_args rec ts' of
        Inl e \<Rightarrow> Inl e
      | Inr (args, types, defaults, rest) \<Rightarrow> parse_function_body env rec formula_name args types defaults rest s))"

section \<open>Strings\<close>

text \<open>\<open>\n\<close> written as two characters is a newline.\<close>

fun unescape_newlines :: "string \<Rightarrow> string" where
  "unescape_newlines (c # d # s) =
     (if c = CHR 0x5C \<and> d = CHR ''n'' then NL # unescape_newlines s else c # unescape_newlines (d # s))"
| "unescape_newlines s = s"

text \<open>The first substitution: its place, the text of its formula, and the string without it.\<close>

definition take_substitution :: "string \<Rightarrow> (nat \<times> string \<times> string) option" where
  "take_substitution s = (case strstr ''${'' s of
     None \<Rightarrow> None
   | Some (pre, rest) \<Rightarrow>
       (case find_from (CHR ''}'') rest of
          [] \<Rightarrow> None
        | _ # after \<Rightarrow> Some (length pre, takeWhile (\<lambda>c. c \<noteq> CHR ''}'') (drop 2 rest), pre @ after)))"

lemma take_substitution_shorter:
  "take_substitution s = Some (pos, fml, s') \<Longrightarrow> length fml + length s' + 3 \<le> length s"
proof -
  assume a: "take_substitution s = Some (pos, fml, s')"
  then obtain pre rest x after where r: "strstr ''${'' s = Some (pre, rest)" "find_from (CHR ''}'') rest = x # after"
    "fml = takeWhile (\<lambda>c. c \<noteq> CHR ''}'') (drop 2 rest)" "s' = pre @ after"
    by (auto simp: take_substitution_def split: option.splits list.splits)
  have s: "s = pre @ rest" "rest = ''${'' @ drop 2 rest"
    using strstr_Some[OF r(1)] starts_at_append[of "''${''" rest] by (simp_all add: numeral_2_eq_2)
  have "find_from (CHR ''}'') rest = find_from (CHR ''}'') (drop 2 rest)"
    by (subst s(2)) (simp add: find_from_def)
  then have "drop 2 rest = fml @ x # after" using r(2,3) by (metis find_from_def takeWhile_dropWhile_id)
  then show ?thesis using s r(4) by (metis add_Suc_right append_Cons append_assoc append_Nil length_Cons
        length_append le_refl add.commute add.left_commute numeral_3_eq_3 add_0_right list.size(3))
qed

function substitutions :: "string \<Rightarrow> string \<times> (nat \<times> string) list" where
  "substitutions s = (case take_substitution s of
     None \<Rightarrow> (s, [])
   | Some (pos, fml, s') \<Rightarrow> (case substitutions s' of (text, subs) \<Rightarrow> (text, (pos, fml) # subs)))"
  by pat_completeness auto
termination
  by (relation "measure length") (auto dest: take_substitution_shorter)

declare substitutions.simps [simp del]

fun parse_substitutions :: "parser \<Rightarrow> (nat \<times> string) list \<Rightarrow> symbols option \<Rightarrow> (nat \<times> formula) list parsed" where
  "parse_substitutions rec [] sy = Inr ([], sy)"
| "parse_substitutions rec ((pos, s) # subs) sy =
     parse_then (parse_formula_text rec s sy) (\<lambda>f sy.
       parse_then (parse_substitutions rec subs sy) (\<lambda>fs sy. Inr ((pos, f) # fs, sy)))"

text \<open>The constructor of \<open>string_expression\<close>. \<open>rec_tr\<close> parses the substitutions of a translation.\<close>

definition string_expression :: "parse_env \<Rightarrow> parser \<Rightarrow> parser \<Rightarrow> bool \<Rightarrow> string \<Rightarrow> symbols option \<Rightarrow> expr parsed" where
  "string_expression env rec rec_tr translate str sy =
     (if verbatim_strings env then Inr (EString (if translate then ''~'' @ str @ ''~'' else str) False [], sy)
      else (let str1 = filter (\<lambda>c. c \<noteq> CHR 0x09) (unescape_newlines str)
            in case substitutions (if translate then translated env str1 else str1) of
                 (text, subs) \<Rightarrow>
                   parse_then (parse_substitutions (if translate then rec_tr else rec) subs sy)
                     (\<lambda>fs sy. Inr (EString text translate (rev fs), sy))))"

section \<open>Finding the operator of an expression\<close>

text \<open>
  The first loop of \<open>parse_expression_internal\<close>: the place of the operator, the last one of least precedence, and
  the place of the parenthesis that opens the arguments of a call at the end. \<open>i\<close> is the place and \<open>prev\<close> the kind
  of the token before it.
\<close>

type_synonym token_place = "(nat \<times> token) option"

definition binds_looser :: "token_place \<Rightarrow> token \<Rightarrow> bool" where
  "binds_looser op t \<longleftrightarrow> (case op of None \<Rightarrow> True | Some (_, u) \<Rightarrow> operator_precedence u \<ge> operator_precedence t)"

definition op_step :: "nat \<Rightarrow> FFL_TOKEN_TYPE \<Rightarrow> int \<Rightarrow> token_place \<Rightarrow> token \<Rightarrow> token_place" where
  "op_step i prev parens op t =
     (if fst t = TOKEN_LSQUARE
      then (if parens = 0 \<and> i \<noteq> 0 \<and> prev \<noteq> TOKEN_OPERATOR \<and> binds_looser op t then Some (i, t) else op)
      else if parens = 0 \<and> fst t = TOKEN_OPERATOR \<and> binds_looser op t \<and> \<not> (i \<noteq> 0 \<and> snd t = ''not'') then Some (i, t)
      else op)"

definition fn_call_step :: "nat \<Rightarrow> int \<Rightarrow> token_place \<Rightarrow> token \<Rightarrow> bool \<Rightarrow> token_place" where
  "fn_call_step i parens fn_call t final =
     (let fn_call = (if final \<and> fst t \<noteq> TOKEN_RPARENS then None else fn_call)
      in if fst t = TOKEN_LPARENS \<and> parens = 0 \<and> i \<noteq> 0 then Some (i, t)
         else if is_close (fst t) \<and> parens = 1 \<and> \<not> final then None
         else fn_call)"

fun scan_operators :: "nat \<Rightarrow> FFL_TOKEN_TYPE \<Rightarrow> int \<Rightarrow> token_place \<Rightarrow> token_place \<Rightarrow> token list \<Rightarrow> token_place \<times> token_place" where
  "scan_operators i prev parens op fn_call [] = (op, fn_call)"
| "scan_operators i prev parens op fn_call (t # ts) =
     scan_operators (Suc i) (fst t) (parens + bracket_step t) (op_step i prev parens op t)
       (fn_call_step i parens fn_call t (ts = [])) ts"

section \<open>Expressions of one token\<close>

text \<open>\<open>strtol(s, NULL, 0)\<close> of the text of a token: hexadecimal after \<open>0x\<close>, octal after \<open>0\<close>.\<close>

definition base_digit :: "nat \<Rightarrow> char \<Rightarrow> nat option" where
  "base_digit b c =
     (let d = (if isdigit c then char_code c - 48
               else if isxdigit c then (if char_code c < 97 then char_code c - 55 else char_code c - 87) else b)
      in if d < b then Some d else None)"

fun scan_base :: "nat \<Rightarrow> nat \<Rightarrow> string \<Rightarrow> nat" where
  "scan_base b acc [] = acc"
| "scan_base b acc (c # s) = (case base_digit b c of None \<Rightarrow> acc | Some d \<Rightarrow> scan_base b (b * acc + d) s)"

definition integer_literal :: "string \<Rightarrow> int" where
  "integer_literal s = wrap32 (clamp_long (int
     (if length s > 2 \<and> hd s = CHR ''0'' \<and> s ! 1 = CHR ''x'' \<and> isxdigit (s ! 2) then scan_base 16 0 (drop 2 s)
      else if s \<noteq> [] \<and> hd s = CHR ''0'' then scan_base 8 0 s
      else scan_base 10 0 s)))"

definition parse_single :: "parse_env \<Rightarrow> parser \<Rightarrow> parser \<Rightarrow> token \<Rightarrow> symbols option \<Rightarrow> expr parsed option" where
  "parse_single env rec rec_tr t sy = (case fst t of
     TOKEN_KEYWORD \<Rightarrow>
       if snd t = ''functions'' then Some (Inr (EFunctions, sy))
       else if snd t = ''null'' then Some (Inr (ENull, sy))
       else if snd t = ''true'' then Some (Inr (EBool True, sy))
       else if snd t = ''false'' then Some (Inr (EBool False, sy))
       else None
   | TOKEN_CONST_IDENTIFIER \<Rightarrow> Some (Inr (EConst (snd t), sy))
   | TOKEN_IDENTIFIER \<Rightarrow> Some (Inr (EIdent (snd t) (Option.bind sy (\<lambda>s. get_formula_function s (snd t))), sy))
   | TOKEN_INTEGER \<Rightarrow> Some (Inr (EInt (integer_literal (snd t)), sy))
   | TOKEN_DECIMAL \<Rightarrow> Some (case from_string (snd t) of
       None \<Rightarrow> Inl Undefined_Number | Some d \<Rightarrow> Inr (EDecimal (dvalue d), sy))
   | TOKEN_STRING_LITERAL \<Rightarrow>
       (let add = (if snd t \<noteq> [] \<and> hd (snd t) = CHR ''q'' then 2 else 1)
        in if length (snd t) < add + 1 then Some (Inl Outside_Range)
           else Some (string_expression env rec rec_tr (hd (snd t) = CHR ''~'') (butlast (drop add (snd t))) sy))
   | _ \<Rightarrow> None)"

section \<open>Square brackets\<close>

text \<open>Back from the token before the last one to the bracket that opens it, or to the first token.\<close>

fun find_lsquare :: "token list \<Rightarrow> nat \<Rightarrow> nat \<Rightarrow> nat" where
  "find_lsquare ts square_parens 0 = 0"
| "find_lsquare ts square_parens (Suc k) =
     (if fst (ts ! Suc k) \<noteq> TOKEN_LSQUARE \<or> square_parens \<noteq> 0
      then find_lsquare ts
             (if fst (ts ! Suc k) = TOKEN_RSQUARE then square_parens + 1
              else if fst (ts ! Suc k) = TOKEN_LSQUARE then square_parens - 1 else square_parens) k
      else Suc k)"

text \<open>The last colon outside round and square brackets, searched from the end: what is on its right and left.\<close>

fun find_colon :: "int \<Rightarrow> token list \<Rightarrow> token list \<Rightarrow> (token list \<times> token list) option" where
  "find_colon n after [] = None"
| "find_colon n after (t # ts) =
     (if fst t = TOKEN_RSQUARE \<or> fst t = TOKEN_RPARENS then find_colon (n + 1) (t # after) ts
      else if fst t = TOKEN_LSQUARE \<or> fst t = TOKEN_LPARENS then find_colon (n - 1) (t # after) ts
      else if fst t = TOKEN_COLON \<and> n = 0 then Some (rev ts, after)
      else find_colon n (t # after) ts)"

text \<open>The generators and filters of a comprehension, split at the commas.\<close>

function split_commas :: "token list \<Rightarrow> token list list" where
  "split_commas ts = (case find_match (add_type TOKEN_COMMA new_matcher) ts of
     (False, _) \<Rightarrow> [ts]
   | (True, rest) \<Rightarrow> before ts rest # split_commas (tl rest))"
  by pat_completeness auto
termination
  by (relation "measure length") (auto dest!: find_match_tl)

declare split_commas.simps [simp del]

fun parse_generators :: "parser \<Rightarrow> token list list \<Rightarrow> (string \<times> expr) list \<Rightarrow> expr list \<Rightarrow> symbols option \<Rightarrow>
    ((string \<times> expr) list \<times> expr list) parsed" where
  "parse_generators rec [] generators filters sy = Inr ((generators, filters), sy)"
| "parse_generators rec (arg # args) generators filters sy =
     (if arg = [] then Inl Outside_Range
      else case find_match (add_type TOKEN_LEFT_POINTER new_matcher) arg of
        (True, arrow) \<Rightarrow>
          (let key = before arg arrow
           in if length key \<noteq> 1 \<or> fst (hd key) \<noteq> TOKEN_IDENTIFIER then Inl Identifier_Expected
              else if filters \<noteq> [] then Inl Found_After_Filter
              else if map_of generators (snd (hd key)) \<noteq> None then Inl (Repeated_Identifier (snd (hd key)))
              else parse_then (rec (tl arrow) sy)
                     (\<lambda>e sy. parse_generators rec args (table_insert (snd (hd key)) e generators) filters sy))
      | (False, _) \<Rightarrow>
          (if generators = [] then Inl Outside_Range
           else parse_then (rec arg sy) (\<lambda>e sy. parse_generators rec args generators (filters @ [e]) sy)))"

definition parse_comprehension :: "parser \<Rightarrow> token list \<Rightarrow> token list \<Rightarrow> symbols option \<Rightarrow> expr parsed" where
  "parse_comprehension rec element args sy =
     parse_then (parse_generators rec (split_commas args) [] [] sy) (\<lambda>(generators, filters) sy.
       parse_then (rec element sy) (\<lambda>e sy. Inr (EComprehension e generators filters, sy)))"

definition parse_bound :: "parser \<Rightarrow> token list \<Rightarrow> symbols option \<Rightarrow> expr option parsed" where
  "parse_bound rec ts sy = (if ts = [] then Inr (None, sy) else parse_then (rec ts sy) (\<lambda>e sy. Inr (Some e, sy)))"

text \<open>
  A range that ends with \<open>]\<close>: a comprehension, a list, a slice or an element. Here and in \<open>parse_atom\<close> the result
  \<open>None\<close> is that the code goes on behind the chain of cases.
\<close>

definition parse_square :: "parser \<Rightarrow> token list \<Rightarrow> symbols option \<Rightarrow> expr option parsed" where
  "parse_square rec ts sy =
     (if length ts = 1 then Inl Outside_Range
      else let k = find_lsquare ts 0 (length ts - 2)
           in if fst (ts ! k) \<noteq> TOKEN_LSQUARE then Inr (None, sy)
              else if k = 0
              then (case find_match (add_type TOKEN_PIPE new_matcher) (tl ts) of
                      (True, pipe) \<Rightarrow>
                        parse_then (parse_comprehension rec (before (tl ts) pipe) (butlast (tl pipe)) sy)
                          (\<lambda>e sy. Inr (Some e, sy))
                    | (False, _) \<Rightarrow>
                        parse_then (parse_args rec (butlast (tl ts)) sy) (\<lambda>es sy. Inr (Some (EList es), sy)))
              else (case find_colon 0 [] (rev (butlast (drop (Suc k) ts))) of
                      Some (start, final) \<Rightarrow>
                        parse_then (parse_bound rec start sy) (\<lambda>b sy.
                          parse_then (parse_bound rec final sy) (\<lambda>e sy.
                            parse_then (rec (take k ts) sy) (\<lambda>left sy. Inr (Some (ESlice left b e), sy))))
                    | None \<Rightarrow>
                        parse_then (rec (take k ts) sy) (\<lambda>left sy.
                          parse_then (rec (butlast (drop (Suc k) ts)) sy) (\<lambda>key sy.
                            Inr (Some (EIndex left key), sy)))))"

section \<open>Expressions\<close>

definition count_type :: "FFL_TOKEN_TYPE \<Rightarrow> token list \<Rightarrow> nat" where
  "count_type ty ts = length (filter (\<lambda>t. fst t = ty) ts)"

definition parse_named_call :: "parse_env \<Rightarrow> parser \<Rightarrow> token list \<Rightarrow> symbols option \<Rightarrow> expr option parsed" where
  "parse_named_call env rec ts sy =
     (if count_type TOKEN_LPARENS ts = count_type TOKEN_RPARENS ts
      then parse_then (parse_args rec (butlast (drop 2 ts)) sy) (\<lambda>args sy.
             (case create_function env (snd (hd ts)) args sy of
                None \<Rightarrow> Inr (None, sy)
              | Some (Inl e) \<Rightarrow> Inl e
              | Some (Inr e) \<Rightarrow> Inr (Some e, sy)))
      else Inr (None, sy))"

text \<open>The chain of cases for a range without an operator.\<close>

definition parse_atom :: "parse_env \<Rightarrow> parser \<Rightarrow> parser \<Rightarrow> token list \<Rightarrow> symbols option \<Rightarrow> expr option parsed" where
  "parse_atom env rec rec_tr ts sy =
     (if fst (hd ts) = TOKEN_LPARENS \<and> fst (last ts) = TOKEN_RPARENS
      then parse_then (rec (butlast (tl ts)) sy) (\<lambda>e sy. Inr (Some e, sy))
      else if fst (last ts) = TOKEN_RSQUARE then parse_square rec ts sy
      else if fst (hd ts) = TOKEN_LBRACKET \<and> fst (last ts) = TOKEN_RBRACKET
      then parse_then (parse_set_args rec (string_expression env rec rec_tr False) (butlast (tl ts)) sy)
             (\<lambda>es sy. Inr (Some (EMap es), sy))
      else if length ts = 1
      then (case parse_single env rec rec_tr (hd ts) sy of
              None \<Rightarrow> Inr (None, sy) | Some r \<Rightarrow> parse_then r (\<lambda>e sy. Inr (Some e, sy)))
      else if fst (hd ts) = TOKEN_IDENTIFIER \<and> fst (ts ! 1) = TOKEN_LPARENS \<and> fst (last ts) = TOKEN_RPARENS
      then parse_named_call env rec ts sy
      else Inr (None, sy))"

text \<open>The message for a range that is none of the cases.\<close>

fun closing_paren :: "nat \<Rightarrow> token list \<Rightarrow> bool" where
  "closing_paren n [] = False"
| "closing_paren n (t # ts) =
     (if fst t = TOKEN_LPARENS then closing_paren (Suc n) ts
      else if fst t = TOKEN_RPARENS then (if n = 0 then True else closing_paren (n - 1) ts)
      else closing_paren n ts)"

definition call_error :: "token list \<Rightarrow> parse_failure" where
  "call_error ts =
     (if length ts > 1 \<and> fst (hd ts) = TOKEN_IDENTIFIER \<and> fst (ts ! 1) = TOKEN_LPARENS
      then (if closing_paren 0 (drop 2 ts) then Unexpected_After_Call else No_Closing_Paren)
      else Could_Not_Parse)"

text \<open>The operator \<open>t\<close> at place \<open>k\<close>.\<close>

definition parse_operator :: "parser \<Rightarrow> token list \<Rightarrow> nat \<times> token \<Rightarrow> symbols option \<Rightarrow> expr parsed" where
  "parse_operator rec ts place sy = (case place of (k, t) \<Rightarrow>
     if k = 0
     then parse_then (rec (tl ts) sy) (\<lambda>e sy.
            if snd t = ''not'' \<or> snd t = ''-'' then Inr (EUnary (snd t) e, sy) else Inl (Illegal_Unary (snd t)))
     else if snd t = ''(''
     then (if length ts - k < 2 then Inl Missing_Parens
           else parse_then (parse_args rec (butlast (drop (Suc k) ts)) sy) (\<lambda>args sy.
                  parse_then (rec (take k ts) sy) (\<lambda>left sy. Inr (ECall left args, sy))))
     else if snd t = ''.''
     then parse_then (rec (take k ts) sy) (\<lambda>left sy.
            parse_then (rec (drop (Suc k) ts) None) (\<lambda>right _. Inr (EDot left right, sy)))
     else if snd t = ''where''
     then parse_then (parse_where_clauses rec (drop (Suc k) ts) sy) (\<lambda>table sy.
            parse_then (rec (take k ts) sy) (\<lambda>body sy. Inr (EWhere body table, sy)))
     else parse_then (rec (take k ts) sy) (\<lambda>left sy.
            parse_then (rec (drop (Suc k) ts) sy) (\<lambda>right sy. Inr (EBinary (snd t) left right, sy))))"

definition parse_expression_internal :: "parse_env \<Rightarrow> parser \<Rightarrow> parser \<Rightarrow> parser" where
  "parse_expression_internal env rec rec_tr ts sy =
     (if ts = [] then Inl Empty_Expression
      else if sy \<noteq> None \<and> hd ts = (TOKEN_KEYWORD, ''def'') \<and> length ts = 1 then Inl Outside_Range
      else if sy \<noteq> None \<and> hd ts = (TOKEN_KEYWORD, ''def'') \<and> fst (ts ! 1) \<in> set [TOKEN_IDENTIFIER, TOKEN_LPARENS]
      then parse_then (parse_function_def env rec ts (the sy)) (\<lambda>(lambda, rest) sy.
             (case lambda of
                Some e \<Rightarrow> Inr (e, sy)
              | None \<Rightarrow> if length rest \<le> 1 then Inr (EFunctions, sy) else rec (tl rest) sy))
      else (case scan_operators 0 TOKEN_INVALID 0 None None ts of (op, fn_call) \<Rightarrow>
              (case (case op of Some (k, t) \<Rightarrow> if fst t = TOKEN_LSQUARE then None else op | None \<Rightarrow> None) of
                 None \<Rightarrow>
                   parse_then (parse_atom env rec rec_tr ts sy) (\<lambda>r sy.
                     (case r of
                        Some e \<Rightarrow> Inr (e, sy)
                      | None \<Rightarrow>
                          (case fn_call of None \<Rightarrow> Inl (call_error ts) | Some p \<Rightarrow> parse_operator rec ts p sy)))
               | Some p \<Rightarrow>
                   (case fn_call of
                      Some q \<Rightarrow>
                        parse_operator rec ts
                          (if operator_precedence (snd p) \<ge> operator_precedence (snd q) then q else p) sy
                    | None \<Rightarrow> parse_operator rec ts p sy))))"

section \<open>Termination\<close>

text \<open>
  The parser calls itself on parts of the range and on the formulas in its strings. The weight of a range is its
  number of characters; \<open>agrees f g n\<close> says that two parsers are equal up to the weight \<open>n\<close>.
\<close>

definition weight :: "token list \<Rightarrow> nat" where
  "weight ts = sum_list (map (\<lambda>t. max 1 (length (snd t))) ts)"

lemma weight_simps [simp]:
  "weight [] = 0"
  "weight (t # ts) = max 1 (length (snd t)) + weight ts"
  "weight (ts @ us) = weight ts + weight us"
  by (simp_all add: weight_def)

lemma weight_part:
  "weight (take k ts) \<le> weight ts" "weight (drop k ts) \<le> weight ts" "weight (butlast ts) \<le> weight ts"
  "weight (tl ts) \<le> weight ts"
proof -
  have "weight (take k ts) + weight (drop k ts) = weight ts" using weight_simps(3)[of "take k ts" "drop k ts"] by simp
  then show "weight (take k ts) \<le> weight ts" "weight (drop k ts) \<le> weight ts" by simp_all
  show "weight (butlast ts) \<le> weight ts" by (induction ts) auto
  show "weight (tl ts) \<le> weight ts" by (cases ts) auto
qed

lemma weight_find_match: "find_match m ts = (found, rest) \<Longrightarrow> weight (before ts rest) + weight rest = weight ts"
  using find_match_suffix weight_simps(3) by metis

definition agrees :: "parser \<Rightarrow> parser \<Rightarrow> nat \<Rightarrow> bool" where
  "agrees f g n \<longleftrightarrow> (\<forall>us sy. weight us \<le> n \<longrightarrow> f us sy = g us sy)"

lemma agreesD: "agrees f g n \<Longrightarrow> weight us \<le> n \<Longrightarrow> f us sy = g us sy"
  by (simp add: agrees_def)

lemma agrees_mono: "agrees f g n \<Longrightarrow> m \<le> n \<Longrightarrow> agrees f g m"
  by (auto simp: agrees_def)


lemma parse_args_loop_agrees:
  "agrees f g (weight cur + weight ts) \<Longrightarrow> parse_args_loop f n cur ts sy = parse_args_loop g n cur ts sy"
proof (induction f n cur ts sy rule: parse_args_loop.induct)
  case (2 f n cur t ts sy)
  have "f cur sy = g cur sy" using 2(5) agreesD by simp
  then show ?case using 2 agrees_mono[OF 2(5)]
    by (cases "f cur sy") (auto simp: add.assoc add.commute)
qed (simp add: agreesD parse_then_def)

lemma parse_args_agrees:
  "agrees f g n \<Longrightarrow> weight ts \<le> n \<Longrightarrow> parse_args f ts sy = parse_args g ts sy"
  unfolding parse_args_def by (rule parse_args_loop_agrees) (simp add: agrees_mono)

lemma parse_set_args_loop_agrees:
  "agrees f g (weight cur + weight ts) \<Longrightarrow> (\<And>s sy. length s \<le> weight cur + weight ts \<Longrightarrow> str s sy = str' s sy) \<Longrightarrow>
    parse_set_args_loop f str n cp cur ts sy = parse_set_args_loop g str' n cp cur ts sy"
proof (induction f str n cp cur ts sy rule: parse_set_args_loop.induct)
  case (2 f str n cp cur t ts sy)
  have "f cur sy = g cur sy" using 2(6) agreesD by simp
  moreover have "(case cur of [(TOKEN_IDENTIFIER, s)] \<Rightarrow> str s sy | _ \<Rightarrow> f cur sy)
      = (case cur of [(TOKEN_IDENTIFIER, s)] \<Rightarrow> str' s sy | _ \<Rightarrow> g cur sy)"
    using 2(7) calculation by (auto split: list.splits prod.splits FFL_TOKEN_TYPE.splits)
  ultimately show ?case using 2 agrees_mono[OF 2(6)]
    by (cases "f cur sy"; cases "case cur of [(TOKEN_IDENTIFIER, s)] \<Rightarrow> str s sy | _ \<Rightarrow> f cur sy")
      (auto simp: add.assoc add.commute)
qed (simp add: agreesD parse_then_def)

lemma parse_set_args_agrees:
  "agrees f g n \<Longrightarrow> weight ts \<le> n \<Longrightarrow> (\<And>s sy. length s \<le> n \<Longrightarrow> str s sy = str' s sy) \<Longrightarrow>
    parse_set_args f str ts sy = parse_set_args g str' ts sy"
  unfolding parse_set_args_def by (rule parse_set_args_loop_agrees) (auto intro: agrees_mono)

lemma parse_where_loop_agrees:
  "agrees f g (weight cur + weight ts) \<Longrightarrow> parse_where_loop f n v cur ts table sy = parse_where_loop g n v cur ts table sy"
proof (induction f n v cur ts table sy rule: parse_where_loop.induct)
  case (2 f n v cur t ts table sy)
  have "f cur sy = g cur sy" using 2(6) agreesD by simp
  then show ?case using 2 agrees_mono[OF 2(6)]
    by (cases "g cur sy") (auto simp: add.assoc add.commute)
qed (simp add: agreesD parse_then_def)

lemma parse_where_clauses_agrees:
  "agrees f g n \<Longrightarrow> weight ts \<le> n \<Longrightarrow> parse_where_clauses f ts sy = parse_where_clauses g ts sy"
  unfolding parse_where_clauses_def by (rule parse_then_cong[OF parse_where_loop_agrees]) (auto intro: agrees_mono)

lemma base_cases_agrees:
  "agrees f g n \<Longrightarrow> weight ts \<le> n \<Longrightarrow> base_cases f ts bases sy = base_cases g ts bases sy"
proof (induction f ts bases sy rule: base_cases.induct)
  case (1 f ts bases sy)
  show ?case
  proof (cases "ts \<noteq> [] \<and> hd ts = (TOKEN_KEYWORD, ''base'')")
    case b: True
    obtain fc colon where c: "find_match (add_type TOKEN_COLON new_matcher) (tl ts) = (fc, colon)" by fastforce
    obtain fr rest where r: "find_match (add_str ''recursive'' (add_str ''base'' (add_type TOKEN_KEYWORD new_matcher))) colon
        = (fr, rest)" by fastforce
    have w: "weight (before (tl ts) colon) + weight colon \<le> n" "weight (before colon rest) + weight rest = weight colon"
      using weight_find_match[OF c] weight_find_match[OF r] weight_part(4)[of ts] 1(3) by simp_all
    have "weight (before (tl colon) rest) \<le> weight colon"
      using weight_part(1)[of _ "tl colon"] weight_part(4)[of colon] by (metis before_def le_trans)
    then have "f (before (tl ts) colon) sy = g (before (tl ts) colon) sy"
      "\<And>sy. f (before (tl colon) rest) sy = g (before (tl colon) rest) sy"
      using w agreesD[OF 1(2)] by simp_all
    then show ?thesis
      using b c r 1(1)[OF b c[symmetric] _ r[symmetric]] 1(2) w
      by (auto simp: base_cases.simps[of f ts] base_cases.simps[of g ts] parse_then_def split: bool.splits sum.splits)
  next
    case False
    then show ?thesis by (auto simp: base_cases.simps[of _ ts])
  qed
qed

lemma base_cases_rest: "base_cases f us bases sy = Inr ((b, rest), sy') \<Longrightarrow> weight rest \<le> weight us"
proof (induction f us bases sy rule: base_cases.induct)
  case (1 f us bases sy)
  show ?case
  proof (cases "us \<noteq> [] \<and> hd us = (TOKEN_KEYWORD, ''base'')")
    case k: True
    then obtain colon rest' x sy1 y sy2 where
      c: "find_match (add_type TOKEN_COLON new_matcher) (tl us) = (True, colon)"
      "find_match (add_str ''recursive'' (add_str ''base'' (add_type TOKEN_KEYWORD new_matcher))) colon = (True, rest')"
      "f (before (tl us) colon) sy = Inr (x, sy1)" "f (before (tl colon) rest') sy1 = Inr (y, sy2)"
      "base_cases f rest' (bases @ [(x, y)]) sy2 = Inr ((b, rest), sy')"
      using 1(2) by (auto simp: base_cases.simps[of f us] parse_then_def split: prod.splits bool.splits sum.splits)
    have "weight rest \<le> weight rest'"
      using 1(1)[OF k c(1)[symmetric] refl c(2)[symmetric] refl c(3) c(4)] c(5) by simp
    then show ?thesis using weight_find_match[OF c(1)] weight_find_match[OF c(2)] weight_part(4)[of us] by simp
  next
    case False
    then show ?thesis using 1(2) by (auto simp: base_cases.simps[of f us])
  qed
qed

lemma formula_of_tokens_agrees:
  assumes a: "agrees f g n" and "weight ts \<le> n"
  shows "formula_of_tokens f ts sy = formula_of_tokens g ts sy"
proof -
  obtain fr rec where r: "find_match (add_str ''recursive'' (add_type TOKEN_KEYWORD new_matcher)) ts = (fr, rec)" by fastforce
  obtain fw w where w: "find_match (add_str ''where'' (add_type TOKEN_OPERATOR new_matcher)) rec = (fw, w)" by fastforce
  have le: "weight (tl w) \<le> n" "weight (if fw then before ts w else ts) \<le> n"
    using weight_find_match[OF r] weight_find_match[OF w] weight_part(1)[of _ ts] weight_part(4)[of w] assms(2)
    by (auto simp: before_def intro: le_trans)
  have c: "parse_where_clauses f (tl w) sy = parse_where_clauses g (tl w) sy"
    "\<And>sy. base_cases f (if fw then before ts w else ts) [] sy = base_cases g (if fw then before ts w else ts) [] sy"
    "\<And>sy b rest sy'. base_cases g (if fw then before ts w else ts) [] sy = Inr ((b, rest), sy') \<Longrightarrow> weight rest \<le> n"
    using parse_where_clauses_agrees[OF a le(1)] base_cases_agrees[OF a le(2)] base_cases_rest le(2) le_trans by blast+
  have rest: "f (drop 2 rest) sy2 = g (drop 2 rest) sy2"
    if "base_cases g (if fw then before ts w else ts) [] sy0 = Inr ((b, rest), sy1)" for b rest sy0 sy1 sy2
    using agreesD[OF a] c(3)[OF that] weight_part(2)[of 2 rest] by (meson le_trans)
  show ?thesis
    using r w agreesD[OF assms] c(1,2) rest
    by (cases fw) (auto simp: formula_of_tokens_def split: option.splits bool.splits intro!: parse_then_cong)
qed

lemma tokenize_weight: "tokenize s = Inr ts \<Longrightarrow> weight ts \<le> length s"
proof (induction s arbitrary: ts rule: tokenize.induct)
  case (1 s)
  show ?case
  proof (cases "s = []")
    case True
    then show ?thesis using 1(2) by (subst (asm) tokenize.simps) simp
  next
    case False
    obtain t r where t: "get_token s = Inr (t, r)"
      using 1(2) False by (subst (asm) tokenize.simps) (auto split: sum.splits)
    obtain ts' where ts': "tokenize r = Inr ts'"
      "ts = (if fst t = TOKEN_WHITESPACE \<or> fst t = TOKEN_COMMENT then ts' else t # ts')"
      using 1(2) False t by (subst (asm) tokenize.simps) (auto split: sum.splits)
    have "length s = length (snd t) + length r" "snd t \<noteq> []" using get_token_split[of s "fst t" "snd t" r] t by simp_all
    then show ?thesis using "1.IH"[OF False t refl ts'(1)] ts'(2) by (cases "snd t") auto
  qed
qed

lemma parse_formula_tokens_agrees:
  "agrees f g n \<Longrightarrow> weight ts \<le> n \<Longrightarrow> parse_formula_tokens f ts sy = parse_formula_tokens g ts sy"
  using formula_of_tokens_agrees[of f g n ts] by (auto simp: parse_formula_tokens_def split: option.splits)

lemma parse_formula_text_agrees:
  "agrees f g n \<Longrightarrow> length s \<le> n \<Longrightarrow> parse_formula_text f s sy = parse_formula_text g s sy"
  using tokenize_weight[of s] parse_formula_tokens_agrees[of f g n]
  by (auto simp: parse_formula_text_def split: sum.splits)

lemma parse_function_args_loop_agrees:
  "agrees f g n \<Longrightarrow> weight ts \<le> n \<Longrightarrow>
    parse_function_args_loop f args types defaults ts = parse_function_args_loop g args types defaults ts"
proof (induction f args types defaults ts rule: parse_function_args_loop.induct)
  case (1 f args types defaults ts)
  show ?case
  proof (cases ts)
    case (Cons t ts1)
    let ?m = "add_type TOKEN_RPARENS (add_type TOKEN_COMMA new_matcher)"
    obtain fd rest where m: "find_match ?m (tl ts1) = (fd, rest)" by fastforce
    have w: "weight (tl ts1) \<le> n" "weight ts1 \<le> n" using 1(7,8) Cons weight_part(4)[of ts1] by auto
    then have w': "weight (before (tl ts1) rest) \<le> n" "weight rest \<le> n" using weight_find_match[OF m] by simp_all
    have "f (before (tl ts1) rest) None = g (before (tl ts1) rest) None" using agreesD[OF 1(7) w'(1)] .
    then show ?thesis
      unfolding Cons parse_function_args_loop.simps[of f args types defaults "t # ts1"]
        parse_function_args_loop.simps[of g args types defaults "t # ts1"]
      using 1(1-6)[OF Cons] 1(7,8) m w w'
      by (cases ts1; cases fd; cases "g (before (tl ts1) rest) None") auto
  qed (simp add: parse_function_args_loop.simps)
qed

lemma parse_function_args_loop_rest:
  "parse_function_args_loop f args types defaults ts = Inr (a, ty, d, rest) \<Longrightarrow> weight rest \<le> weight ts"
proof (induction f args types defaults ts rule: parse_function_args_loop.induct)
  case (1 f args types defaults ts)
  show ?case
  proof (cases ts)
    case Nil
    then show ?thesis using 1(7) by (simp add: parse_function_args_loop.simps)
  next
    case (Cons t ts1)
    let ?m = "add_type TOKEN_RPARENS (add_type TOKEN_COMMA new_matcher)"
    note step = 1(7)[unfolded Cons parse_function_args_loop.simps[of f args types defaults "t # ts1"], simplified]
    have part: "weight (tl ts1) \<le> weight ts1" by (rule weight_part)
    show ?thesis
    proof (cases "fst t = TOKEN_IDENTIFIER \<and> ts1 \<noteq> [] \<and> snd (hd ts1) = ''=''")
      case True
      then obtain r e sy where r: "tl ts1 \<noteq> []" "find_match ?m (tl ts1) = (True, r)" "f (before (tl ts1) r) None = Inr (e, sy)"
        "parse_function_args_loop f (args @ [snd t]) (types @ [[]]) (defaults @ [e]) r = Inr (a, ty, d, rest)"
        using step by (auto split: if_splits prod.splits bool.splits sum.splits)
      have "weight rest \<le> weight r"
        by (rule 1(1)[OF Cons _ _ _ r(1) r(2)[symmetric] refl r(3) refl r(4)]) (use True in auto)
      then show ?thesis using weight_find_match[OF r(2)] part Cons by simp
    next
      case False
      then show ?thesis using step 1(2-6)[OF Cons] part Cons by (auto split: if_splits)
    qed
  qed
qed

lemma parse_function_args_agrees:
  "agrees f g n \<Longrightarrow> weight ts \<le> n \<Longrightarrow> parse_function_args f ts = parse_function_args g ts"
  unfolding parse_function_args_def using parse_function_args_loop_agrees[of f g n "tl ts"] weight_part(4)[of ts] by simp

lemma parse_function_args_rest: "parse_function_args f ts = Inr (a, ty, d, rest) \<Longrightarrow> weight rest \<le> weight ts"
  using parse_function_args_loop_rest[of f "[]" "[]" "[]" "tl ts" a ty d rest] weight_part(4)[of ts]
  by (auto simp: parse_function_args_def split: if_splits)

lemma weight_retokenized: "weight (retokenized ts) \<le> weight ts"
  by (cases ts rule: rev_cases) (auto simp: retokenized_def)

lemma weight_while:
  "weight (takeWhile P ts) \<le> weight ts" "weight (dropWhile P ts) \<le> weight ts"
  by (metis weight_simps(3) takeWhile_dropWhile_id le_add1 le_add2)+

lemma parse_function_body_agrees:
  assumes "agrees f g n" and "weight ts \<le> n"
  shows "parse_function_body env f name args types defaults ts s = parse_function_body env g name args types defaults ts s"
proof -
  have "weight (retokenized (takeWhile P ts)) \<le> n" for P
    using weight_retokenized weight_while(1) assms(2) by (meson le_trans)
  then show ?thesis
    unfolding parse_function_body_def using parse_formula_tokens_agrees[OF assms(1)] by (simp add: Let_def)
qed

lemma function_name_rest: "function_name ts = (name, rest) \<Longrightarrow> weight rest \<le> weight ts"
  using weight_part(4)[of ts] by (auto simp: function_name_def split: if_splits)

lemma parse_function_def_agrees:
  assumes "agrees f g n" and "weight (tl ts) \<le> n"
  shows "parse_function_def env f ts s = parse_function_def env g ts s"
proof -
  obtain name ts' where n: "function_name (tl ts) = (name, ts')" by fastforce
  then have w: "weight ts' \<le> n" using function_name_rest assms(2) le_trans by blast
  have body: "parse_function_body env f name a ty d rest s = parse_function_body env g name a ty d rest s"
    if "parse_function_args g ts' = Inr (a, ty, d, rest)" for a ty d rest
    using parse_function_body_agrees[OF assms(1)] parse_function_args_rest[OF that] w le_trans by blast
  show ?thesis
    unfolding parse_function_def_def n prod.case parse_function_args_agrees[OF assms(1) w]
    by (auto simp: body split: sum.split)
qed

text \<open>The rest after a definition is lighter than the range.\<close>

lemma parse_function_body_rest:
  "parse_function_body env f name a ty d ts s = Inr ((l, rest), sy) \<Longrightarrow> weight rest \<le> weight ts"
  unfolding parse_function_body_def using weight_while(2)[of _ ts]
  by (auto simp: Let_def parse_then_def split: sum.splits if_splits)

lemma parse_function_def_rest:
  "parse_function_def env f ts s = Inr ((l, rest), sy) \<Longrightarrow> weight rest \<le> weight (tl ts)"
  unfolding parse_function_def_def
  by (auto split: sum.splits prod.splits dest!: parse_function_body_rest parse_function_args_rest function_name_rest)

lemma parse_substitutions_agrees:
  "agrees f g n \<Longrightarrow> (\<And>p s. (p, s) \<in> set subs \<Longrightarrow> length s \<le> n) \<Longrightarrow>
    parse_substitutions f subs sy = parse_substitutions g subs sy"
proof (induction subs arbitrary: sy)
  case (Cons p subs)
  obtain pos s where p: "p = (pos, s)" by fastforce
  then have "parse_formula_text f s sy = parse_formula_text g s sy" for sy
    using parse_formula_text_agrees[OF Cons(2)] Cons(3)[of pos s] by simp
  then show ?case using Cons p by (auto intro!: parse_then_cong)
qed simp

lemma substitutions_length: "substitutions s = (res, subs) \<Longrightarrow> (p, x) \<in> set subs \<Longrightarrow> length x + 3 \<le> length s"
proof (induction s arbitrary: res subs rule: substitutions.induct)
  case (1 s)
  show ?case
  proof (cases "take_substitution s")
    case None
    then show ?thesis using 1(2,3) by (simp add: substitutions.simps[of s])
  next
    case (Some r)
    then obtain pos fml s' where r: "take_substitution s = Some (pos, fml, s')" by (cases r) auto
    obtain res' subs' where s': "substitutions s' = (res', subs')" by fastforce
    have "subs = (pos, fml) # subs'" using 1(2) r s' by (simp add: substitutions.simps[of s])
    then show ?thesis
      using 1(1)[OF r refl refl s'] 1(3) take_substitution_shorter[OF r] by auto
  qed
qed

lemma unescape_newlines_length: "length (unescape_newlines s) \<le> length s"
  by (induction s rule: unescape_newlines.induct) auto

lemma string_expression_agrees:
  assumes "agrees f g n" and "length str \<le> n + 3"
  shows "string_expression env f rec_tr translate str sy = string_expression env g rec_tr translate str sy"
proof -
  let ?s = "filter (\<lambda>c. c \<noteq> CHR 0x09) (unescape_newlines str)"
  have len: "length ?s \<le> n + 3"
    using length_filter_le unescape_newlines_length assms(2) by (meson le_trans)
  obtain res subs where s: "substitutions ?s = (res, subs)" by fastforce
  have "parse_substitutions f subs sy = parse_substitutions g subs sy" for sy
    using parse_substitutions_agrees[OF assms(1)] substitutions_length[OF s] len by fastforce
  then show ?thesis by (simp add: string_expression_def Let_def s split: prod.splits)
qed

lemma parse_generators_agrees:
  "agrees f g n \<Longrightarrow> (\<And>a. a \<in> set args \<Longrightarrow> weight a \<le> n) \<Longrightarrow>
    parse_generators f args gens filters sy = parse_generators g args gens filters sy"
proof (induction args arbitrary: gens filters sy)
  case (Cons arg args)
  obtain found arrow where m: "find_match (add_type TOKEN_LEFT_POINTER new_matcher) arg = (found, arrow)" by fastforce
  have "weight arg \<le> n" "weight (tl arrow) \<le> n"
    using Cons(3)[of arg] weight_find_match[OF m] weight_part(4)[of arrow] by simp_all
  then have "f arg sy = g arg sy" "f (tl arrow) sy = g (tl arrow) sy" for sy using agreesD[OF Cons(2)] by simp_all
  then show ?case using Cons m by (cases found) (auto simp: Let_def intro!: parse_then_cong)
qed simp

lemma split_commas_weight: "a \<in> set (split_commas ts) \<Longrightarrow> weight a \<le> weight ts"
proof (induction ts rule: split_commas.induct)
  case (1 ts)
  obtain found rest where m: "find_match (add_type TOKEN_COMMA new_matcher) ts = (found, rest)" by fastforce
  have w: "weight (before ts rest) + weight rest = weight ts" using weight_find_match[OF m] .
  show ?case
  proof (cases found)
    case True
    then have "a = before ts rest \<or> a \<in> set (split_commas (tl rest))" using 1(2) m by (simp add: split_commas.simps[of ts])
    then show ?thesis using 1(1)[OF m[symmetric]] True w weight_part(4)[of rest] by auto
  next
    case False
    then show ?thesis using 1(2) m by (simp add: split_commas.simps[of ts])
  qed
qed

lemma parse_comprehension_agrees:
  assumes "agrees f g n" and "weight element \<le> n" and "weight args \<le> n"
  shows "parse_comprehension f element args sy = parse_comprehension g element args sy"
proof -
  have "parse_generators f (split_commas args) [] [] sy = parse_generators g (split_commas args) [] [] sy"
    by (rule parse_generators_agrees[OF assms(1)]) (use split_commas_weight assms(3) le_trans in blast)
  then show ?thesis
    using agreesD[OF assms(1,2)] by (auto simp: parse_comprehension_def intro!: parse_then_cong)
qed

lemma parse_bound_agrees:
  "agrees f g n \<Longrightarrow> weight ts \<le> n \<Longrightarrow> parse_bound f ts sy = parse_bound g ts sy"
  by (simp add: parse_bound_def agreesD)

lemma weight_pos: "ts \<noteq> [] \<Longrightarrow> 0 < weight ts"
  by (cases ts) auto

lemma weight_take_drop: "weight (take k ts) + weight (drop k ts) = weight ts"
  using weight_simps(3)[of "take k ts" "drop k ts"] by simp

lemma weight_less:
  assumes "ts \<noteq> []"
  shows "weight (tl ts) < weight ts" "weight (butlast ts) < weight ts"
    "k < length ts \<Longrightarrow> weight (take k ts) < weight ts" "0 < k \<Longrightarrow> weight (drop k ts) < weight ts"
proof -
  show "weight (tl ts) < weight ts" using assms by (cases ts) auto
  show "weight (butlast ts) < weight ts" using assms by (cases ts rule: rev_cases) auto
  show "weight (take k ts) < weight ts" if "k < length ts"
    using weight_take_drop[of k ts] weight_pos[of "drop k ts"] that by simp
  show "weight (drop k ts) < weight ts" if "0 < k"
    using weight_take_drop[of k ts] weight_pos[of "take k ts"] that assms by (cases k) auto
qed

lemma find_colon_weight:
  "find_colon n after ts = Some (l, r) \<Longrightarrow> weight l + weight r \<le> weight ts + weight after"
proof (induction n after ts rule: find_colon.induct)
  case (2 n after t ts)
  have "weight (rev ts) = weight ts" by (simp add: weight_def rev_map[symmetric])
  then show ?case using 2 by (auto split: if_splits)
qed simp

lemma weight_rev [simp]: "weight (rev ts) = weight ts"
  by (induction ts) auto

lemma parse_square_agrees:
  assumes a: "agrees f g n" and "ts \<noteq> []" and w: "weight ts \<le> Suc n"
  shows "parse_square f ts sy = parse_square g ts sy"
proof -
  let ?k = "find_lsquare ts 0 (length ts - 2)"
  obtain found pipe where m: "find_match (add_type TOKEN_PIPE new_matcher) (tl ts) = (found, pipe)" by fastforce
  have tl: "weight (tl ts) \<le> n" using weight_less(1)[OF assms(2)] w by simp
  then have list: "parse_args f (butlast (tl ts)) sy = parse_args g (butlast (tl ts)) sy" for sy
    using parse_args_agrees[OF a] weight_part(3)[of "tl ts"] le_trans by blast
  have "weight (before (tl ts) pipe) \<le> n" "weight (butlast (tl pipe)) \<le> n"
    using weight_find_match[OF m] tl weight_part(4)[of pipe] weight_part(3)[of "tl pipe"] by simp_all
  then have compr: "parse_comprehension f (before (tl ts) pipe) (butlast (tl pipe)) sy
      = parse_comprehension g (before (tl ts) pipe) (butlast (tl pipe)) sy" for sy
    by (rule parse_comprehension_agrees[OF a])
  let ?inner = "butlast (drop (Suc ?k) ts)"
  have inner: "weight ?inner \<le> n" using weight_less(4)[OF assms(2), of "Suc ?k"] weight_part(3)[of "drop (Suc ?k) ts"] w by simp
  have left: "f (take ?k ts) sy = g (take ?k ts) sy" if "fst (ts ! ?k) = TOKEN_LSQUARE" "length ts \<noteq> 1" for sy
  proof -
    have "find_lsquare ts sp k \<le> k" for sp k by (induction ts sp k rule: find_lsquare.induct) auto
    then have "?k \<le> length ts - 2" .
    then have "?k < length ts" using assms(2) by (cases ts) auto
    then show ?thesis using weight_less(3)[OF assms(2)] w agreesD[OF a] by (meson less_Suc_eq_le less_le_trans)
  qed
  have bounds: "parse_bound f l sy = parse_bound g l sy \<and> parse_bound f r sy = parse_bound g r sy"
    if "find_colon 0 [] (rev ?inner) = Some (l, r)" for l r sy
    using find_colon_weight[OF that] inner parse_bound_agrees[OF a] by simp
  have key: "f ?inner sy = g ?inner sy" for sy using agreesD[OF a inner] .
  show ?thesis
    unfolding parse_square_def Let_def m
    by (auto simp: list compr left bounds key split: bool.split option.split intro!: parse_then_cong)
qed

lemma parse_atom_agrees:
  assumes a: "agrees f g n" and ne: "ts \<noteq> []" and w: "weight ts \<le> Suc n"
  shows "parse_atom env f h ts sy = parse_atom env g h ts sy"
proof -
  have inner: "weight (butlast (tl ts)) \<le> n"
    using weight_less(1)[OF ne] weight_part(3)[of "tl ts"] w by simp
  have str: "string_expression env f h tr s sy = string_expression env g h tr s sy" if "length s \<le> n" for tr s sy
    using string_expression_agrees[OF a] that by simp
  have set: "parse_set_args f (string_expression env f h False) (butlast (tl ts)) sy
      = parse_set_args g (string_expression env g h False) (butlast (tl ts)) sy" for sy
    using parse_set_args_agrees[OF a inner] str by blast
  have len: "length (butlast (drop add (snd (hd ts)))) \<le> n" if "0 < add" for add
    using w that weight_pos ne by (cases ts) auto
  have "string_expression env f h tr (butlast (drop (if q then 2 else 1) (snd (hd ts)))) sy
      = string_expression env g h tr (butlast (drop (if q then 2 else 1) (snd (hd ts)))) sy" for tr q sy
    by (rule str, rule len) simp
  then have single: "parse_single env f h (hd ts) sy = parse_single env g h (hd ts) sy" for sy
    unfolding parse_single_def Let_def by (simp only:)
  have "weight (butlast (drop 2 ts)) \<le> n"
    using weight_less(4)[OF ne, of 2] weight_part(3)[of "drop 2 ts"] w by simp
  then have call: "parse_named_call env f ts sy = parse_named_call env g ts sy" for sy
    unfolding parse_named_call_def using parse_args_agrees[OF a] by simp
  show ?thesis
    unfolding parse_atom_def
    using agreesD[OF a inner] parse_square_agrees[OF a ne w] set single call by simp
qed

lemma parse_operator_agrees:
  assumes a: "agrees f g n" and ne: "ts \<noteq> []" and w: "weight ts \<le> Suc n" and k: "fst p < length ts"
  shows "parse_operator f ts p sy = parse_operator g ts p sy"
proof -
  obtain k t where p: "p = (k, t)" by (cases p)
  have d: "weight (drop (Suc k) ts) \<le> n" using weight_less(4)[OF ne, of "Suc k"] w by simp
  have "f (tl ts) sy = g (tl ts) sy" "f (take k ts) sy = g (take k ts) sy" "f (drop (Suc k) ts) sy = g (drop (Suc k) ts) sy" for sy
    using agreesD[OF a] weight_less(1)[OF ne] weight_less(3)[OF ne, of k] w k p d by simp_all
  moreover have "parse_args f (butlast (drop (Suc k) ts)) sy = parse_args g (butlast (drop (Suc k) ts)) sy" for sy
    using parse_args_agrees[OF a] weight_part(3)[of "drop (Suc k) ts"] d le_trans by blast
  ultimately show ?thesis
    unfolding parse_operator_def p prod.case using parse_where_clauses_agrees[OF a d] by simp
qed

text \<open>The places found are in the range.\<close>

lemma scan_operators_places:
  assumes "scan_operators i prev n op fn ts = (op', fn')"
    and "op = None \<or> fst (the op) < i" and "fn = None \<or> fst (the fn) < i"
  shows "(op' = None \<or> fst (the op') < i + length ts) \<and> (fn' = None \<or> fst (the fn') < i + length ts)"
  using assms
proof (induction ts arbitrary: i prev n op fn)
  case (Cons t ts)
  have "op_step i prev n op t = None \<or> fst (the (op_step i prev n op t)) < Suc i"
    "fn_call_step i n fn t (ts = []) = None \<or> fst (the (fn_call_step i n fn t (ts = []))) < Suc i"
    using Cons(3,4) by (auto simp: op_step_def fn_call_step_def Let_def)
  from Cons.IH[OF _ this] show ?case using Cons(2) by simp
qed auto

lemma parse_expression_internal_agrees:
  assumes a: "agrees f g n" and w: "weight ts \<le> Suc n"
  shows "parse_expression_internal env f h ts sy = parse_expression_internal env g h ts sy"
proof (cases "ts = []")
  case ne: False
  obtain op fn where s: "scan_operators 0 TOKEN_INVALID 0 None None ts = (op, fn)" by fastforce
  have "(op = None \<or> fst (the op) < length ts) \<and> (fn = None \<or> fst (the fn) < length ts)"
    using scan_operators_places[OF s] by simp
  then have oper: "parse_operator f ts p sy = parse_operator g ts p sy" if "op = Some p \<or> fn = Some p" for p sy
    using parse_operator_agrees[OF a ne w, of p] that by auto
  have tl: "weight (tl ts) \<le> n" using weight_less(1)[OF ne] w by simp
  have rest: "f (tl r) sy1 = g (tl r) sy1" if "parse_function_def env g ts s = Inr ((l, r), sy0)" for s l r sy0 sy1
    using agreesD[OF a] parse_function_def_rest[OF that] tl weight_part(4)[of r] by (meson le_trans)
  have def: "parse_function_def env f ts s = parse_function_def env g ts s" for s
    by (rule parse_function_def_agrees[OF a tl])
  show ?thesis
    unfolding parse_expression_internal_def s parse_atom_agrees[OF a ne w] def
    by (auto simp: oper rest split: option.split intro!: parse_then_cong)
qed (simp add: parse_expression_internal_def)

lemma parse_expression_internal_cong [fundef_cong]:
  assumes "ts = ts'" and "sy = sy'" and "\<And>us s. weight us < weight ts' \<Longrightarrow> f us s = g us s"
  shows "parse_expression_internal env f h ts sy = parse_expression_internal env g h ts' sy'"
proof (cases "ts' = []")
  case True
  then show ?thesis using assms(1) by (simp add: parse_expression_internal_def)
next
  case False
  have "agrees f g (weight ts' - 1)" using assms(3) weight_pos[OF False] by (simp add: agrees_def less_eq_Suc_le)
  then show ?thesis using parse_expression_internal_agrees[of f g "weight ts' - 1" ts' env h sy'] assms(1,2) by simp
qed

section \<open>The parser\<close>

text \<open>
  The parser calls itself; only the translation of a string can be longer than the string, so its substitutions
  are parsed by another parser, \<open>rec_tr\<close>. \<open>parse_expression\<close> allows a given number of translations in the
  substitutions of translations.
\<close>

function parse_within :: "parse_env \<Rightarrow> parser \<Rightarrow> parser" where
  "parse_within env rec_tr ts sy = parse_expression_internal env (parse_within env rec_tr) rec_tr ts sy"
  by pat_completeness auto
termination
  by (relation "measure (\<lambda>(env, rec_tr, ts, sy). weight ts)") auto

declare parse_within.simps [simp del]

fun parse_expression :: "parse_env \<Rightarrow> nat \<Rightarrow> parser" where
  "parse_expression env 0 = parse_within env (\<lambda>ts sy. Inl Nested_Translations)"
| "parse_expression env (Suc d) = parse_within env (parse_expression env d)"

text \<open>The constructor of \<open>formula\<close>.\<close>

definition parse_formula :: "parse_env \<Rightarrow> nat \<Rightarrow> string \<Rightarrow> symbols option \<Rightarrow> formula parsed" where
  "parse_formula env d s sy = parse_formula_text (parse_expression env d) s sy"

end
