(* ===== verification/CT_Formula_Grammar.thy ===== *)
theory CT_Formula_Grammar
  imports CT_Formula_Parser
begin

text \<open>
  The language of formulas as a grammar with precedences, and the proof that the parser implements it. The grammar
  leaves out definitions of functions, base cases, strings with substitutions, and forms that the parser does not
  accept although they would be natural; some of those are at the end. \<open>seg\<close> describes well-bracketed ranges, the loops and the scan of the parser are followed along such ranges, and
  \<open>derives_within\<close> puts the cases together by induction over the derivation.
\<close>

section \<open>Well-bracketed ranges\<close>

text \<open>\<open>seg P ts\<close>: the brackets of \<open>ts\<close> match, and \<open>P\<close> holds of the tokens outside brackets.\<close>

definition bracket_pair :: "token \<Rightarrow> token \<Rightarrow> bool" where
  "bracket_pair l r \<longleftrightarrow> (l, r) \<in> set [((TOKEN_LPARENS, ''(''), (TOKEN_RPARENS, '')'')),
     ((TOKEN_LSQUARE, ''[''), (TOKEN_RSQUARE, '']'')), ((TOKEN_LBRACKET, ''{''), (TOKEN_RBRACKET, ''}''))]"

inductive seg :: "(token \<Rightarrow> bool) \<Rightarrow> token list \<Rightarrow> bool" where
  seg_Nil: "seg P []"
| seg_plain: "P t \<Longrightarrow> \<not> is_open (fst t) \<Longrightarrow> \<not> is_close (fst t) \<Longrightarrow> seg P ts \<Longrightarrow> seg P (t # ts)"
| seg_nest: "bracket_pair l r \<Longrightarrow> seg (\<lambda>_. True) xs \<Longrightarrow> seg P ys \<Longrightarrow> seg P (l # xs @ r # ys)"

lemma seg_append: "seg P xs \<Longrightarrow> seg P ys \<Longrightarrow> seg P (xs @ ys)"
  by (induction rule: seg.induct) (simp_all add: seg.intros)

lemma seg_mono:
  assumes "seg P xs" and "\<And>t. P t \<Longrightarrow> Q t"
  shows "seg Q xs"
  using assms
proof (induction rule: seg.induct)
  case (seg_plain P t ts)
  have "seg Q ts" by (rule seg_plain.IH[OF seg_plain.prems])
  then show ?case using seg.seg_plain[of Q t ts] seg_plain.prems seg_plain.hyps by simp
next
  case (seg_nest l r xs P ys)
  have "seg Q ys" by (rule seg_nest.IH(2)[OF seg_nest.prems])
  then show ?case using seg.seg_nest[of l r xs Q ys] seg_nest.hyps(1,2) by simp
qed (rule seg_Nil)

lemma seg_single: "P t \<Longrightarrow> \<not> is_open (fst t) \<Longrightarrow> \<not> is_close (fst t) \<Longrightarrow> seg P [t]"
  using seg_plain[of P t "[]"] seg_Nil by simp

lemma seg_bracketed: "bracket_pair l r \<Longrightarrow> seg Q xs \<Longrightarrow> seg P (l # xs @ [r])"
  using seg_nest[of l r xs P "[]"] seg_mono[of Q xs "\<lambda>_. True"] seg_Nil[of P] by simp

lemma bracket_pair_type:
  "bracket_pair l r \<Longrightarrow> is_open (fst l) \<and> is_close (fst r) \<and> bracket_step l = 1 \<and> bracket_step r = - 1
    \<and> \<not> is_close (fst l) \<and> \<not> is_open (fst r)"
  by (auto simp: bracket_pair_def is_open_def is_close_def bracket_step_def)

lemma bracket_pair_cases:
  assumes "bracket_pair l r"
  obtains "l = (TOKEN_LPARENS, ''('')" "r = (TOKEN_RPARENS, '')'')"
    | "l = (TOKEN_LSQUARE, ''['')" "r = (TOKEN_RSQUARE, '']'')"
    | "l = (TOKEN_LBRACKET, ''{'')" "r = (TOKEN_RBRACKET, ''}'')"
  using assms by (auto simp: bracket_pair_def)

lemma plain_step: "\<not> is_open (fst t) \<Longrightarrow> \<not> is_close (fst t) \<Longrightarrow> bracket_step t = 0"
  by (simp add: bracket_step_def)

text \<open>
  What the loops do with a well-bracketed range: they put it into the current argument, or pass over it.
\<close>

lemma parse_args_loop_seg:
  "seg P xs \<Longrightarrow> 0 \<le> n \<Longrightarrow> (n = 0 \<Longrightarrow> \<forall>t. P t \<longrightarrow> fst t \<noteq> TOKEN_COMMA) \<Longrightarrow>
    parse_args_loop f n cur (xs @ ys) sy = parse_args_loop f n (cur @ xs) ys sy"
proof (induction arbitrary: n cur ys rule: seg.induct)
  case (seg_nest l r xs P zs)
  have "parse_args_loop f (n + 1) (cur @ [l]) (xs @ r # zs @ ys) sy = parse_args_loop f (n + 1) (cur @ l # xs) (r # zs @ ys) sy"
    using seg_nest.IH(1)[of "n + 1" "cur @ [l]" "r # zs @ ys"] seg_nest.prems by simp
  then show ?case
    using bracket_pair_type[OF seg_nest.hyps(1)] seg_nest.IH(2)[of n "cur @ l # xs @ [r]" ys] seg_nest.prems by simp
next
  case (seg_plain P t ts)
  have "parse_args_loop f n (cur @ [t]) (ts @ ys) sy = parse_args_loop f n (cur @ t # ts) ys sy"
    using seg_plain.IH[of n "cur @ [t]" ys] seg_plain.prems by simp
  moreover have "n = 0 \<Longrightarrow> fst t \<noteq> TOKEN_COMMA" using seg_plain.prems(2) seg_plain.hyps(1) by blast
  ultimately show ?case using seg_plain.hyps(2,3) by auto
qed simp

lemma parse_set_args_loop_seg:
  "seg P xs \<Longrightarrow> 0 \<le> n \<Longrightarrow> (n = 0 \<Longrightarrow> \<forall>t. P t \<longrightarrow> fst t \<notin> {TOKEN_COMMA, TOKEN_COLON, TOKEN_POINTER}) \<Longrightarrow>
    parse_set_args_loop f str n cp cur (xs @ ys) sy = parse_set_args_loop f str n cp (cur @ xs) ys sy"
proof (induction arbitrary: n cur ys rule: seg.induct)
  case (seg_nest l r xs P zs)
  have "parse_set_args_loop f str (n + 1) cp (cur @ [l]) (xs @ r # zs @ ys) sy
      = parse_set_args_loop f str (n + 1) cp (cur @ l # xs) (r # zs @ ys) sy"
    using seg_nest.IH(1)[of "n + 1" "cur @ [l]" "r # zs @ ys"] seg_nest.prems by simp
  then show ?case
    using bracket_pair_type[OF seg_nest.hyps(1)] seg_nest.IH(2)[of n "cur @ l # xs @ [r]" ys] seg_nest.prems by simp
next
  case (seg_plain P t ts)
  have "parse_set_args_loop f str n cp (cur @ [t]) (ts @ ys) sy = parse_set_args_loop f str n cp (cur @ t # ts) ys sy"
    using seg_plain.IH[of n "cur @ [t]" ys] seg_plain.prems by simp
  moreover have "n = 0 \<Longrightarrow> fst t \<notin> {TOKEN_COMMA, TOKEN_COLON, TOKEN_POINTER}" using seg_plain.prems(2) seg_plain.hyps(1) by blast
  ultimately show ?case using seg_plain.hyps(2,3) by auto
qed simp

lemma parse_where_loop_seg:
  "seg P xs \<Longrightarrow> 0 \<le> n \<Longrightarrow> (n = 0 \<Longrightarrow> \<forall>t. P t \<longrightarrow> fst t \<noteq> TOKEN_COMMA \<and> t \<noteq> (TOKEN_OPERATOR, ''='')) \<Longrightarrow>
    parse_where_loop f n v cur (xs @ ys) table sy = parse_where_loop f n v (cur @ xs) ys table sy"
proof (induction arbitrary: n cur ys rule: seg.induct)
  case (seg_nest l r xs P zs)
  have "parse_where_loop f (n + 1) v (cur @ [l]) (xs @ r # zs @ ys) table sy
      = parse_where_loop f (n + 1) v (cur @ l # xs) (r # zs @ ys) table sy"
    using seg_nest.IH(1)[of "n + 1" "cur @ [l]" "r # zs @ ys"] seg_nest.prems by simp
  then show ?case
    using bracket_pair_type[OF seg_nest.hyps(1)] seg_nest.IH(2)[of n "cur @ l # xs @ [r]" ys] seg_nest.prems by simp
next
  case (seg_plain P t ts)
  have "parse_where_loop f n v (cur @ [t]) (ts @ ys) table sy = parse_where_loop f n v (cur @ t # ts) ys table sy"
    using seg_plain.IH[of n "cur @ [t]" ys] seg_plain.prems by simp
  moreover have "n = 0 \<Longrightarrow> fst t \<noteq> TOKEN_COMMA \<and> t \<noteq> (TOKEN_OPERATOR, ''='')" using seg_plain.prems(2) seg_plain.hyps(1) by blast
  ultimately show ?case using seg_plain.hyps(2,3) by (cases t) auto
qed simp

text \<open>A search for a kind of token that is not a bracket.\<close>

lemma find_match_loop_seg:
  "seg P xs \<Longrightarrow> 0 \<le> n \<Longrightarrow> (n = 0 \<Longrightarrow> \<forall>t. P t \<longrightarrow> \<not> match m t) \<Longrightarrow> (\<And>t. is_open (fst t) \<Longrightarrow> \<not> match m t) \<Longrightarrow>
    find_match_loop m n (xs @ ys) = find_match_loop m n ys"
proof (induction arbitrary: n ys rule: seg.induct)
  case (seg_nest l r xs P zs)
  have "find_match_loop m (n + 1) (xs @ r # zs @ ys) = find_match_loop m (n + 1) (r # zs @ ys)"
    using seg_nest.IH(1)[of "n + 1" "r # zs @ ys"] seg_nest.prems by simp
  then show ?case
    using bracket_pair_type[OF seg_nest.hyps(1)] seg_nest.IH(2)[of n ys] seg_nest.prems by simp
qed (auto simp: plain_step)

lemma match_type [simp]: "match (add_type ty new_matcher) t \<longleftrightarrow> fst t = ty"
  by (simp add: match_def add_type_def new_matcher_def)

lemma find_type_seg:
  assumes "seg P xs" and "\<And>t. P t \<Longrightarrow> fst t \<noteq> ty" and "\<not> is_open ty"
  shows "fst t = ty \<Longrightarrow> find_match (add_type ty new_matcher) (xs @ t # ys) = (True, t # ys)"
    and "find_match (add_type ty new_matcher) xs = (False, [])"
    and "is_close (fst t) \<Longrightarrow> fst t \<noteq> ty \<Longrightarrow> find_match (add_type ty new_matcher) (xs @ [t]) = (False, [])"
proof -
  have loop: "find_match_loop (add_type ty new_matcher) 0 (xs @ ys) = find_match_loop (add_type ty new_matcher) 0 ys" for ys
    by (rule find_match_loop_seg[OF assms(1)]) (use assms(2,3) in auto)
  show "fst t = ty \<Longrightarrow> find_match (add_type ty new_matcher) (xs @ t # ys) = (True, t # ys)"
    by (simp add: find_match_def loop)
  show "find_match (add_type ty new_matcher) xs = (False, [])"
    using loop[of "[]"] by (simp add: find_match_def)
  show "is_close (fst t) \<Longrightarrow> fst t \<noteq> ty \<Longrightarrow> find_match (add_type ty new_matcher) (xs @ [t]) = (False, [])"
    by (simp add: find_match_def loop)
qed

lemma before_append [simp]: "before (xs @ ys) ys = xs"
  by (simp add: before_def)

section \<open>The scan for the operator on well-bracketed ranges\<close>

lemma scan_inner:
  "seg P xs \<Longrightarrow> 1 \<le> n \<Longrightarrow> zs \<noteq> [] \<Longrightarrow>
    scan_operators i prev n op fn (xs @ zs)
      = scan_operators (i + length xs) (if xs = [] then prev else fst (last xs)) n op fn zs"
proof (induction arbitrary: i prev n zs rule: seg.induct)
  case (seg_plain P t ts)
  have "op_step i prev n op t = op" "fn_call_step i n fn t False = fn"
    using seg_plain.prems(1) seg_plain.hyps(3) by (auto simp: op_step_def fn_call_step_def)
  then show ?case using seg_plain plain_step[of t] by simp
next
  case (seg_nest l r xs P ys)
  have step: "op_step i p k op t = op" if "1 \<le> k" for i p k t
    using that by (auto simp: op_step_def)
  have fn: "fn_call_step i n fn l False = fn" "fn_call_step j (n + 1) fn r False = fn" for i j
    using seg_nest.prems(1) bracket_pair_type[OF seg_nest.hyps(1)] by (auto simp: fn_call_step_def)
  have ih1: "scan_operators (Suc i) (fst l) (n + 1) op fn (xs @ r # ys @ zs)
      = scan_operators (Suc i + length xs) (if xs = [] then fst l else fst (last xs)) (n + 1) op fn (r # ys @ zs)"
    using seg_nest.IH(1)[of "n + 1" "r # ys @ zs" "Suc i"] seg_nest.prems by simp
  show ?case
    using bracket_pair_type[OF seg_nest.hyps(1)] seg_nest.prems step fn ih1
      seg_nest.IH(2)[of n zs "Suc (Suc i + length xs)" "fst r"]
    by (simp add: add.commute add.left_commute)
qed simp

text \<open>An invariant of the operator found so far that the tokens outside brackets keep.\<close>

lemma scan_outer:
  assumes "seg P xs"
    and "\<And>i prev op t. I op \<Longrightarrow> (P t \<and> \<not> is_open (fst t)) \<or> (\<exists>r. bracket_pair t r) \<Longrightarrow> I (op_step i prev 0 op t)"
    and "I op"
  shows "\<exists>op' fn'. scan_operators i prev 0 op fn (xs @ zs)
      = scan_operators (i + length xs) (if xs = [] then prev else fst (last xs)) 0 op' fn' zs \<and> I op'"
  using assms
proof (induction arbitrary: i prev op fn rule: seg.induct)
  case (seg_plain P t ts)
  have "I (op_step i prev 0 op t)" using seg_plain.prems seg_plain.hyps by blast
  from seg_plain.IH[OF seg_plain.prems(1) this, of "Suc i" "fst t" "fn_call_step i 0 fn t (ts @ zs = [])"]
  show ?case using seg_plain.hyps plain_step[of t] by (cases "ts = []") simp_all
next
  case (seg_nest l r xs P ys)
  let ?op = "op_step i prev 0 op l"
  let ?fn = "fn_call_step i 0 fn l False"
  have I: "I ?op" using seg_nest.prems seg_nest.hyps(1) by blast
  have inner: "scan_operators (Suc i) (fst l) 1 ?op ?fn (xs @ r # ys @ zs)
      = scan_operators (Suc i + length xs) (if xs = [] then fst l else fst (last xs)) 1 ?op ?fn (r # ys @ zs)"
    using scan_inner[OF seg_nest.hyps(2), of 1 "r # ys @ zs"] by simp
  have r: "op_step j p 1 ?op r = ?op" for j p by (simp add: op_step_def[of j])
  from seg_nest.IH(2)[OF seg_nest.prems(1) I, of "Suc (Suc i + length xs)" "fst r"
      "fn_call_step (Suc i + length xs) 1 ?fn r (ys @ zs = [])"]
  show ?case
    using bracket_pair_type[OF seg_nest.hyps(1)] inner r
    by (cases "ys = []") (simp_all add: add.commute add.left_commute)
qed auto

lemma op_precedence_bracket: "bracket_pair t r \<Longrightarrow> fst t = TOKEN_LSQUARE \<Longrightarrow> operator_precedence t = 14"
  by (auto simp: bracket_pair_def operator_precedence_def precedence_map_def)

text \<open>The operator found is no looser than all operators outside brackets.\<close>

definition no_looser :: "nat \<Rightarrow> token_place \<Rightarrow> bool" where
  "no_looser p op \<longleftrightarrow> (\<forall>k t. op = Some (k, t) \<longrightarrow> p \<le> operator_precedence t)"

lemma scan_left:
  assumes "seg P xs" and "\<And>t. P t \<Longrightarrow> fst t = TOKEN_OPERATOR \<Longrightarrow> p \<le> operator_precedence t" and "p \<le> 14"
  shows "\<exists>op' fn'. scan_operators 0 prev 0 None None (xs @ zs)
      = scan_operators (length xs) (if xs = [] then prev else fst (last xs)) 0 op' fn' zs \<and> no_looser p op'"
proof -
  have "no_looser p (op_step i prev 0 op t)"
    if "no_looser p op" and t: "(P t \<and> \<not> is_open (fst t)) \<or> (\<exists>r. bracket_pair t r)" for i prev op t
  proof -
    have "p \<le> operator_precedence t" if "fst t = TOKEN_LSQUARE \<or> fst t = TOKEN_OPERATOR"
      using t that assms(2)[of t] assms(3) op_precedence_bracket by (auto simp: is_open_def bracket_pair_def)
    then show ?thesis using that(1) by (auto simp: no_looser_def op_step_def)
  qed
  then show ?thesis using scan_outer[OF assms(1), of "no_looser p" None 0 prev None zs] by (simp add: no_looser_def)
qed

text \<open>An operator stays when all that follow bind tighter.\<close>

lemma scan_right:
  assumes "seg P xs" and "\<And>t. P t \<Longrightarrow> fst t = TOKEN_OPERATOR \<Longrightarrow> operator_precedence u < operator_precedence t"
    and "operator_precedence u < 14"
  shows "\<exists>fn'. scan_operators i prev 0 (Some (k, u)) fn xs = (Some (k, u), fn')"
proof -
  have tighter: "operator_precedence u < operator_precedence t"
    if "(P t \<and> \<not> is_open (fst t)) \<or> (\<exists>r. bracket_pair t r)" "fst t = TOKEN_LSQUARE \<or> fst t = TOKEN_OPERATOR" for t
    using that assms(2)[of t] assms(3) op_precedence_bracket by (auto simp: is_open_def bracket_pair_def)
  have "op_step j p 0 (Some (k, u)) t = Some (k, u)" if "(P t \<and> \<not> is_open (fst t)) \<or> (\<exists>r. bracket_pair t r)" for j p t
    using tighter[OF that] by (auto simp: op_step_def binds_looser_def)
  then show ?thesis
    using scan_outer[OF assms(1), of "\<lambda>op. op = Some (k, u)" "Some (k, u)" i prev fn "[]"] by auto
qed

text \<open>A call is only found at a parenthesis, and only if the range ends with one.\<close>

definition paren_place :: "token_place \<Rightarrow> bool" where
  "paren_place fn \<longleftrightarrow> (\<forall>k t. fn = Some (k, t) \<longrightarrow> snd t = ''('')"

lemma scan_fn_call:
  "(\<forall>t \<in> set ts. fst t = TOKEN_LPARENS \<longrightarrow> snd t = ''('') \<Longrightarrow> paren_place fn \<Longrightarrow>
    paren_place (snd (scan_operators i prev n op fn ts))"
proof (induction ts arbitrary: i prev n op fn)
  case (Cons t ts)
  have "paren_place (fn_call_step i n fn t (ts = []))"
    using Cons.prems by (auto simp: fn_call_step_def paren_place_def Let_def)
  then show ?case using Cons by simp
qed simp

lemma scan_no_call:
  "ts \<noteq> [] \<Longrightarrow> fst (last ts) \<noteq> TOKEN_RPARENS \<Longrightarrow> fst (last ts) \<noteq> TOKEN_LPARENS \<Longrightarrow>
    snd (scan_operators i prev n op fn ts) = None"
proof (induction ts arbitrary: i prev n op fn)
  case (Cons t ts)
  then show ?case by (cases "ts = []") (auto simp: fn_call_step_def)
qed simp

lemma seg_parens: "seg P ts \<Longrightarrow> t \<in> set ts \<Longrightarrow> fst t = TOKEN_LPARENS \<Longrightarrow> snd t = ''(''"
  by (induction rule: seg.induct) (auto simp: bracket_pair_def is_open_def is_close_def)

lemma seg_count: "seg P ts \<Longrightarrow> count_type TOKEN_LPARENS ts = count_type TOKEN_RPARENS ts"
  by (induction rule: seg.induct) (auto simp: count_type_def bracket_pair_def is_open_def is_close_def)

text \<open>The searches that run backwards.\<close>

lemma find_lsquare_seg:
  "seg P xs \<Longrightarrow> find_lsquare (a # ts @ xs @ us) sp (length ts + length xs) = find_lsquare (a # ts @ xs @ us) sp (length ts)"
proof (induction arbitrary: ts us sp rule: seg.induct)
  case (seg_plain P t xs)
  have nth: "(a # ts @ t # xs @ us) ! Suc (length ts) = t" by (simp add: nth_append)
  have "find_lsquare (a # ts @ t # xs @ us) sp (Suc (length ts + length xs)) = find_lsquare (a # ts @ t # xs @ us) sp (Suc (length ts))"
    using seg_plain.IH[of "ts @ [t]" us sp] by (simp add: algebra_simps del: find_lsquare.simps)
  also have "\<dots> = find_lsquare (a # ts @ t # xs @ us) sp (length ts)"
    using seg_plain.hyps(2,3) nth by (auto simp: is_open_def is_close_def)
  finally show ?case by simp
next
  case (seg_nest l r xs P ys)
  let ?all = "a # ts @ l # xs @ r # ys @ us"
  let ?sp = "if fst r = TOKEN_RSQUARE then sp + 1 else sp"
  have nth: "?all ! Suc (length ts) = l" "?all ! Suc (Suc (length ts + length xs)) = r" by (simp_all add: nth_append)
  have "find_lsquare ?all sp (length ts + length (l # xs @ r # ys)) = find_lsquare ?all sp (Suc (Suc (length ts + length xs)))"
    using seg_nest.IH(2)[of "ts @ l # xs @ [r]" us sp] by (simp add: algebra_simps del: find_lsquare.simps)
  also have "\<dots> = find_lsquare ?all ?sp (Suc (length ts + length xs))"
    using nth(2) seg_nest.hyps(1) by (auto simp: bracket_pair_def)
  also have "\<dots> = find_lsquare ?all ?sp (Suc (length ts))"
    using seg_nest.IH(1)[of "ts @ [l]" "r # ys @ us" ?sp] by (simp add: algebra_simps del: find_lsquare.simps)
  also have "\<dots> = find_lsquare ?all sp (length ts)"
    using nth(1) seg_nest.hyps(1) by (auto simp: bracket_pair_def)
  finally show ?case by simp
qed simp

lemma find_colon_seg:
  "seg P xs \<Longrightarrow> TOKEN_COLON \<notin> fst ` set xs \<Longrightarrow> find_colon n after (rev xs @ zs) = find_colon n (xs @ after) zs"
proof (induction arbitrary: n after zs rule: seg.induct)
  case (seg_plain P t xs)
  then show ?case by (auto simp: is_open_def is_close_def)
next
  case (seg_nest l r xs P ys)
  have no: "TOKEN_COLON \<notin> fst ` set ys" "TOKEN_COLON \<notin> fst ` set xs" using seg_nest.prems by auto
  note ih = seg_nest.IH(2)[OF no(1), of n "after" "r # rev xs @ l # zs"] seg_nest.IH(1)[OF no(2), of _ _ "l # zs"]
  have eq: "rev (l # xs @ r # ys) @ zs = rev ys @ r # rev xs @ l # zs" by simp
  have pair: "find_colon n as (r # rev xs @ l # zs) = find_colon n (l # xs @ r # as) zs" for as
    using ih(2)[of n "r # as"] ih(2)[of "n + 1" "r # as"]
    by (cases rule: bracket_pair_cases[OF seg_nest.hyps(1)]) simp_all
  show ?case unfolding eq ih(1) pair by simp
qed simp

section \<open>The grammar\<close>

text \<open>Outside brackets there are no separators, and no operator looser than \<open>p\<close>.\<close>

definition tight :: "nat \<Rightarrow> token \<Rightarrow> bool" where
  "tight p t \<longleftrightarrow> fst t \<notin> {TOKEN_COMMA, TOKEN_PIPE, TOKEN_COLON, TOKEN_SEMICOLON, TOKEN_POINTER, TOKEN_LEFT_POINTER}
     \<and> (fst t = TOKEN_OPERATOR \<longrightarrow> p \<le> operator_precedence t)"

fun commas :: "token list list \<Rightarrow> token list" where
  "commas [] = []"
| "commas [ts] = ts"
| "commas (ts # us # tss) = ts @ (TOKEN_COMMA, '','') # commas (us # tss)"

definition infix_operator :: "string \<Rightarrow> bool" where
  "infix_operator s \<longleftrightarrow> s \<in> fst ` set precedence_map - set [''->'', ''not'', ''where'', ''['', ''('', ''.'']"

definition identifier_value :: "symbols option \<Rightarrow> string \<Rightarrow> expr" where
  "identifier_value sy x = EIdent x (Option.bind sy (\<lambda>s. get_formula_function s x))"

text \<open>A text without escapes, substitutions and tabs.\<close>

definition simple_text :: "string \<Rightarrow> bool" where
  "simple_text s \<longleftrightarrow> CHR 0x5C \<notin> set s \<and> CHR ''$'' \<notin> set s \<and> CHR 0x09 \<notin> set s"

definition bindings :: "string list \<Rightarrow> 'a list \<Rightarrow> (string \<times> 'a) list" where
  "bindings xs es = foldl (\<lambda>t (x, e). table_insert x e t) [] (zip xs es)"

abbreviation (input) tok :: "FFL_TOKEN_TYPE \<Rightarrow> string \<Rightarrow> token" where "tok ty s \<equiv> (ty, s)"

definition generator :: "string \<Rightarrow> token list \<Rightarrow> token list" where
  "generator x gs = (TOKEN_IDENTIFIER, x) # (TOKEN_LEFT_POINTER, ''<-'') # gs"

definition where_range :: "token list \<Rightarrow> string list \<Rightarrow> token list list \<Rightarrow> token list" where
  "where_range ts xs gss = ts @ tok TOKEN_OPERATOR ''where''
     # commas (map2 (\<lambda>x gs. tok TOKEN_IDENTIFIER x # tok TOKEN_OPERATOR ''='' # gs) xs gss)"

text \<open>
  \<open>derives env sy p ts e\<close>: the tokens \<open>ts\<close> are the expression \<open>e\<close> where only operators of precedence at least \<open>p\<close>
  may stand outside brackets. Binary operators associate to the left. Several bindings of a \<open>where\<close> are
  separated by commas, so that it needs parentheses inside a list of arguments; without parentheses it has one.
\<close>

inductive derives :: "parse_env \<Rightarrow> symbols option \<Rightarrow> nat \<Rightarrow> token list \<Rightarrow> expr \<Rightarrow> bool" for env sy where
  d_integer: "derives env sy p [tok TOKEN_INTEGER s] (EInt (integer_literal s))"
| d_decimal: "from_string s = Some d \<Longrightarrow> derives env sy p [tok TOKEN_DECIMAL s] (EDecimal (dvalue d))"
| d_string: "simple_text s \<Longrightarrow> derives env sy p [tok TOKEN_STRING_LITERAL (CHR 0x22 # s @ [CHR 0x22])] (EString s False [])"
| d_identifier: "derives env sy p [tok TOKEN_IDENTIFIER x] (identifier_value sy x)"
| d_constant: "derives env sy p [tok TOKEN_CONST_IDENTIFIER x] (EConst x)"
| d_null: "derives env sy p [tok TOKEN_KEYWORD ''null''] ENull"
| d_bool: "derives env sy p [tok TOKEN_KEYWORD (if b then ''true'' else ''false'')] (EBool b)"
| d_parens: "derives env sy 0 ts e \<Longrightarrow> derives env sy p (tok TOKEN_LPARENS ''('' # ts @ [tok TOKEN_RPARENS '')'']) e"
| d_list: "list_all2 (derives env sy 0) tss es \<Longrightarrow>
    derives env sy p (tok TOKEN_LSQUARE ''['' # commas tss @ [tok TOKEN_RSQUARE '']'']) (EList es)"
| d_comprehension: "derives env sy 0 ts e \<Longrightarrow> xs \<noteq> [] \<Longrightarrow> distinct xs \<Longrightarrow> length xs = length gss \<Longrightarrow>
    list_all2 (derives env sy 0) gss ges \<Longrightarrow> list_all2 (derives env sy 0) fss fes \<Longrightarrow>
    derives env sy p
      (tok TOKEN_LSQUARE ''['' # ts @ tok TOKEN_PIPE ''|''
        # commas (map2 generator xs gss @ fss)
        @ [tok TOKEN_RSQUARE '']''])
      (EComprehension e (bindings xs ges) fes)"
| d_map: "list_all2 (\<lambda>k e. (\<exists>x. k = [tok TOKEN_IDENTIFIER x] \<and> simple_text x \<and> e = EString x False [])
        \<or> ((\<forall>x. k \<noteq> [tok TOKEN_IDENTIFIER x]) \<and> derives env sy 0 k e)) kss kes \<Longrightarrow>
    list_all2 (derives env sy 0) vss ves \<Longrightarrow> length kss = length vss \<Longrightarrow>
    derives env sy p
      (tok TOKEN_LBRACKET ''{'' # commas (map2 (\<lambda>k v. k @ tok TOKEN_COLON '':'' # v) kss vss) @ [tok TOKEN_RBRACKET ''}''])
      (EMap (concat (map2 (\<lambda>k v. [k, v]) kes ves)))"
| d_unary: "s = ''not'' \<or> s = ''-'' \<Longrightarrow> q = operator_precedence (tok TOKEN_OPERATOR s) \<Longrightarrow> p \<le> q \<Longrightarrow>
    derives env sy (Suc q) ts e \<Longrightarrow> derives env sy p (tok TOKEN_OPERATOR s # ts) (EUnary s e)"
| d_binary: "infix_operator s \<Longrightarrow> q = operator_precedence (tok TOKEN_OPERATOR s) \<Longrightarrow> p \<le> q \<Longrightarrow>
    derives env sy q ls l \<Longrightarrow> derives env sy (Suc q) rs r \<Longrightarrow>
    derives env sy p (ls @ tok TOKEN_OPERATOR s # rs) (EBinary s l r)"
| d_where: "p \<le> 3 \<Longrightarrow> derives env sy 3 ts e \<Longrightarrow> x \<noteq> [] \<Longrightarrow> derives env sy 8 gs g \<Longrightarrow>
    derives env sy p (where_range ts [x] [gs]) (EWhere e [(x, g)])"
| d_where_parens: "derives env sy 3 ts e \<Longrightarrow> xs \<noteq> [] \<Longrightarrow> [] \<notin> set xs \<Longrightarrow> length xs = length gss \<Longrightarrow>
    list_all2 (derives env sy 8) gss ges \<Longrightarrow>
    derives env sy p (tok TOKEN_LPARENS ''('' # where_range ts xs gss @ [tok TOKEN_RPARENS '')'']) (EWhere e (bindings xs ges))"
| d_dot: "p \<le> 14 \<Longrightarrow> derives env sy 14 ts e \<Longrightarrow>
    derives env sy p (ts @ [tok TOKEN_OPERATOR ''.'', tok TOKEN_IDENTIFIER x]) (EDot e (identifier_value None x))"
| d_index: "p \<le> 14 \<Longrightarrow> derives env sy 14 ts e \<Longrightarrow> derives env sy 0 ks k \<Longrightarrow> TOKEN_COLON \<notin> fst ` set ks \<Longrightarrow>
    derives env sy p (ts @ tok TOKEN_LSQUARE ''['' # ks @ [tok TOKEN_RSQUARE '']'']) (EIndex e k)"
| d_slice: "p \<le> 14 \<Longrightarrow> derives env sy 14 ts e \<Longrightarrow>
    (b = None \<and> bs = []) \<or> (\<exists>be. b = Some be \<and> derives env sy 0 bs be) \<Longrightarrow>
    (c = None \<and> cs = []) \<or> (\<exists>ce. c = Some ce \<and> derives env sy 0 cs ce) \<Longrightarrow> TOKEN_COLON \<notin> fst ` set (bs @ cs) \<Longrightarrow>
    derives env sy p (ts @ tok TOKEN_LSQUARE ''['' # bs @ tok TOKEN_COLON '':'' # cs @ [tok TOKEN_RSQUARE '']'']) (ESlice e b c)"
| d_call: "list_all2 (derives env sy 0) tss es \<Longrightarrow>
    e = (case create_function env x es sy of Some (Inr f) \<Rightarrow> f | _ \<Rightarrow> ECall (identifier_value sy x) es) \<Longrightarrow>
    (\<forall>err. create_function env x es sy \<noteq> Some (Inl err)) \<Longrightarrow>
    derives env sy p (tok TOKEN_IDENTIFIER x # tok TOKEN_LPARENS ''('' # commas tss @ [tok TOKEN_RPARENS '')'']) e"
| d_method: "p \<le> 14 \<Longrightarrow> derives env sy 14 ts e \<Longrightarrow>
    list_all2 (derives env sy 0) tss es \<Longrightarrow>
    derives env sy p (ts @ [tok TOKEN_OPERATOR ''.'', tok TOKEN_IDENTIFIER x]
        @ tok TOKEN_LPARENS ''('' # commas tss @ [tok TOKEN_RPARENS '')'']) (ECall (EDot e (identifier_value None x)) es)"

text \<open>A derived range is well bracketed and keeps to its precedence.\<close>

definition range_ok :: "nat \<Rightarrow> token list \<Rightarrow> bool" where
  "range_ok p ts \<longleftrightarrow> seg (tight p) ts \<and> ts \<noteq> [] \<and> fst (last ts) \<notin> {TOKEN_OPERATOR, TOKEN_LPARENS}
     \<and> hd ts \<noteq> (TOKEN_KEYWORD, ''def'') \<and> hd ts \<noteq> (TOKEN_KEYWORD, ''base'')"

lemma commas_Cons: "tss \<noteq> [] \<Longrightarrow> commas (ts # tss) = ts @ (TOKEN_COMMA, '','') # commas tss"
  by (cases tss) simp_all

lemma seg_commas: "(\<forall>ts \<in> set tss. seg P ts) \<Longrightarrow> P (TOKEN_COMMA, '','') \<Longrightarrow> seg P (commas tss)"
proof (induction tss rule: commas.induct)
  case (3 ts us tss)
  have "seg P ((TOKEN_COMMA, '','') # commas (us # tss))"
    using seg_plain[of P] 3 by (simp add: is_open_def is_close_def)
  then show ?case using seg_append 3(2) by simp
qed (simp_all add: seg_Nil)

lemma seg_any: "seg P ts \<Longrightarrow> seg (\<lambda>_. True) ts"
  using seg_mono[of P ts "\<lambda>_. True"] by simp

lemma seg_plain_append: "seg P xs \<Longrightarrow> P t \<Longrightarrow> \<not> is_open (fst t) \<Longrightarrow> \<not> is_close (fst t) \<Longrightarrow> seg P ys \<Longrightarrow> seg P (xs @ t # ys)"
  using seg_append seg_plain[of P] by blast

lemma tight_le: "tight q t \<Longrightarrow> p \<le> q \<Longrightarrow> tight p t"
  by (auto simp: tight_def)

lemma tight_mono: "seg (tight q) ts \<Longrightarrow> p \<le> q \<Longrightarrow> seg (tight p) ts"
  by (erule seg_mono) (erule tight_le)

lemma seg_tight_single: "fst t \<notin> {TOKEN_COMMA, TOKEN_PIPE, TOKEN_COLON, TOKEN_SEMICOLON, TOKEN_POINTER, TOKEN_LEFT_POINTER,
    TOKEN_OPERATOR} \<Longrightarrow> \<not> is_open (fst t) \<Longrightarrow> \<not> is_close (fst t) \<Longrightarrow> seg (tight p) [t]"
  by (rule seg_single) (auto simp: tight_def)

lemma pair_parens [simp]: "bracket_pair (TOKEN_LPARENS, ''('') (TOKEN_RPARENS, '')'')"
  and pair_square [simp]: "bracket_pair (TOKEN_LSQUARE, ''['') (TOKEN_RSQUARE, '']'')"
  and pair_bracket [simp]: "bracket_pair (TOKEN_LBRACKET, ''{'') (TOKEN_RBRACKET, ''}'')"
  by (simp_all add: bracket_pair_def)

lemma type_simps [simp]:
  "is_open ty \<longleftrightarrow> ty = TOKEN_LPARENS \<or> ty = TOKEN_LSQUARE \<or> ty = TOKEN_LBRACKET"
  "is_close ty \<longleftrightarrow> ty = TOKEN_RPARENS \<or> ty = TOKEN_RSQUARE \<or> ty = TOKEN_RBRACKET"
  by (auto simp: is_open_def is_close_def)

lemma range_group:
  assumes "bracket_pair l r" and "seg P xs"
  shows "range_ok p (l # xs @ [r])"
  using seg_bracketed[OF assms, of "tight p"] bracket_pair_type[OF assms(1)] by (auto simp: range_ok_def)

lemma range_append_group:
  assumes "bracket_pair l r" and "range_ok q ts" and "p \<le> q" and "seg P xs"
  shows "range_ok p (ts @ l # xs @ [r])"
  using seg_append[OF tight_mono[of q ts p] seg_bracketed[OF assms(1,4), of "tight p"]] assms bracket_pair_type[OF assms(1)]
  by (auto simp: range_ok_def)

lemma range_seg: "range_ok p ts \<Longrightarrow> seg (\<lambda>_. True) ts"
  using seg_any by (auto simp: range_ok_def)

lemma commas_any: "(\<And>ts. ts \<in> set tss \<Longrightarrow> seg (\<lambda>_. True) ts) \<Longrightarrow> seg (\<lambda>_. True) (commas tss)"
  by (rule seg_commas) auto

text \<open>In a list related element by element, every element on the left has a property that follows from the relation.\<close>

lemma list_all2_left: "list_all2 R xs ys \<Longrightarrow> (\<And>x y. R x y \<Longrightarrow> Q x) \<Longrightarrow> x \<in> set xs \<Longrightarrow> Q x"
  by (auto simp: list_all2_conv_all_nth in_set_conv_nth)

lemma any_Cons: "fst t \<notin> {TOKEN_LPARENS, TOKEN_LSQUARE, TOKEN_LBRACKET, TOKEN_RPARENS, TOKEN_RSQUARE, TOKEN_RBRACKET} \<Longrightarrow>
    seg (\<lambda>_. True) ts \<Longrightarrow> seg (\<lambda>_. True) (t # ts)"
  by (rule seg_plain) auto

lemma range_dot:
  assumes "p \<le> 14" and "range_ok 14 ts"
  shows "range_ok p (ts @ [(TOKEN_OPERATOR, ''.''), (TOKEN_IDENTIFIER, x)])"
proof -
  have "tight p (TOKEN_OPERATOR, ''.'')" using assms(1) by (simp add: tight_def operator_precedence_def precedence_map_def)
  then have "seg (tight p) (ts @ (TOKEN_OPERATOR, ''.'') # [(TOKEN_IDENTIFIER, x)])"
    using assms tight_mono[of 14 ts p] by (intro seg_plain_append) (auto simp: range_ok_def seg_tight_single)
  then show ?thesis using assms(2) by (auto simp: range_ok_def)
qed

lemma seg_comprehension:
  assumes "seg (\<lambda>_. True) ts" and "\<And>us. us \<in> set gss \<union> set fss \<Longrightarrow> seg (\<lambda>_. True) us"
  shows "seg (\<lambda>_. True) (ts @ (TOKEN_PIPE, ''|'') # commas (map2 generator xs gss @ fss))"
proof -
  have "seg (\<lambda>_. True) us" if "us \<in> set (map2 generator xs gss @ fss)" for us
    using that assms(2) by (auto simp: generator_def intro!: any_Cons dest!: set_zip_rightD)
  then show ?thesis by (intro seg_append[OF assms(1)] any_Cons commas_any) auto
qed

lemma seg_entries:
  assumes "\<And>us. us \<in> set kss \<union> set vss \<Longrightarrow> seg (\<lambda>_. True) us"
  shows "seg (\<lambda>_. True) (commas (map2 (\<lambda>k v. k @ (TOKEN_COLON, '':'') # v) kss vss))"
proof (rule commas_any)
  fix ts assume "ts \<in> set (map2 (\<lambda>k v. k @ (TOKEN_COLON, '':'') # v) kss vss)"
  then obtain k v where "ts = k @ (TOKEN_COLON, '':'') # v" "k \<in> set kss" "v \<in> set vss"
    by (auto dest: set_zip_leftD set_zip_rightD)
  then show "seg (\<lambda>_. True) ts" using assms by (auto intro!: seg_append any_Cons)
qed

lemma seg_where_range:
  assumes "seg (\<lambda>_. True) ts" and "\<And>us. us \<in> set gss \<Longrightarrow> seg (\<lambda>_. True) us"
  shows "seg (\<lambda>_. True) (where_range ts xs gss)"
proof -
  have "seg (\<lambda>_. True) us" if "us \<in> set (map2 (\<lambda>x gs. (TOKEN_IDENTIFIER, x) # (TOKEN_OPERATOR, ''='') # gs) xs gss)" for us
    using that assms(2) by (auto intro!: any_Cons dest!: set_zip_rightD)
  then show ?thesis unfolding where_range_def by (intro seg_append[OF assms(1)] any_Cons commas_any) auto
qed

text \<open>A key of a map as the grammar has it.\<close>

definition key_range :: "token list \<Rightarrow> bool" where
  "key_range k \<longleftrightarrow> (\<exists>x. k = [(TOKEN_IDENTIFIER, x)]) \<or> range_ok 0 k"

lemma key_seg: "key_range k \<Longrightarrow> seg (\<lambda>_. True) k"
  by (auto simp: key_range_def intro: range_seg seg_single)

lemma derives_range: "derives env sy p ts e \<Longrightarrow> range_ok p ts"
proof (induction rule: derives.induct)
  case (d_parens ts e p)
  then show ?case using range_group[OF pair_parens range_seg] by simp
next
  case (d_list tss es p)
  have "seg (\<lambda>_. True) (commas tss)"
    by (rule commas_any, rule list_all2_left[OF d_list]) (auto intro: range_seg)
  then show ?case using range_group[OF pair_square] by simp
next
  case (d_comprehension ts e xs gss ges fss fes p)
  have "seg (\<lambda>_. True) us" if "us \<in> set gss \<union> set fss" for us
    using that list_all2_left[OF d_comprehension.IH(2), of "seg (\<lambda>_. True)" us]
      list_all2_left[OF d_comprehension.IH(3), of "seg (\<lambda>_. True)" us] range_seg by blast
  from range_group[OF pair_square seg_comprehension[OF range_seg[OF d_comprehension.IH(1)] this, where xs = xs], where p = p] show ?case by simp
next
  case (d_map kss kes vss ves p)
  have "seg (\<lambda>_. True) k" if "k \<in> set kss" for k
    by (rule list_all2_left[OF d_map.IH(1) _ that]) (auto simp: key_range_def intro: key_seg)
  moreover have "seg (\<lambda>_. True) v" if "v \<in> set vss" for v
    by (rule list_all2_left[OF d_map.IH(2) _ that]) (auto intro: range_seg)
  ultimately have "seg (\<lambda>_. True) us" if "us \<in> set kss \<union> set vss" for us using that by blast
  from range_group[OF pair_bracket seg_entries[OF this], where p = p] show ?case by simp
next
  case (d_unary s q p ts e)
  then have "seg (tight p) ts" "tight p (TOKEN_OPERATOR, s)"
    using tight_mono[of "Suc q" ts p] by (auto simp: range_ok_def tight_def)
  then show ?case using d_unary seg_plain[of "tight p" "(TOKEN_OPERATOR, s)" ts] by (simp add: range_ok_def)
next
  case (d_binary s q p ls l rs r)
  have "tight p (TOKEN_OPERATOR, s)" using d_binary by (simp add: tight_def)
  then have "seg (tight p) (ls @ (TOKEN_OPERATOR, s) # rs)"
    using d_binary tight_mono[of q ls p] tight_mono[of "Suc q" rs p] by (intro seg_plain_append) (auto simp: range_ok_def)
  then show ?case using d_binary by (auto simp: range_ok_def)
next
  case (d_where p ts e x gs g)
  have op: "tight p (TOKEN_OPERATOR, ''where'')" "tight p (TOKEN_OPERATOR, ''='')"
    using d_where(1) by (simp_all add: tight_def operator_precedence_def precedence_map_def)
  have "seg (tight p) ((TOKEN_IDENTIFIER, x) # (TOKEN_OPERATOR, ''='') # gs)"
    using d_where tight_mono[of 8 gs p] op(2) by (intro seg_plain) (auto simp: range_ok_def tight_def)
  then have "seg (tight p) (where_range ts [x] [gs])"
    using d_where tight_mono[of 3 ts p] op(1) unfolding where_range_def
    by (simp, intro seg_plain_append) (auto simp: range_ok_def)
  then show ?case using d_where by (auto simp: range_ok_def where_range_def)
next
  case (d_where_parens ts e xs gss ges p)
  have "seg (\<lambda>_. True) gs" if "gs \<in> set gss" for gs
    by (rule list_all2_left[OF d_where_parens.IH(2) _ that]) (auto intro: range_seg)
  from range_group[OF pair_parens seg_where_range[OF range_seg[OF d_where_parens.IH(1)] this, where xs = xs], where p = p] show ?case by simp
next
  case (d_dot p ts e x)
  then show ?case by (simp add: range_dot)
next
  case (d_index p ts e ks k)
  then show ?case using range_append_group[OF pair_square _ _ range_seg] by simp
next
  case (d_slice p ts e b bs c cs)
  have "seg (\<lambda>_. True) bs" "seg (\<lambda>_. True) cs" using d_slice range_seg seg_Nil by blast+
  then have "seg (\<lambda>_. True) (bs @ (TOKEN_COLON, '':'') # cs)" by (intro seg_append any_Cons) auto
  from range_append_group[OF pair_square d_slice.IH(1) _ this] show ?case using d_slice(1) by simp
next
  case (d_call tss es e x p)
  have "seg (\<lambda>_. True) (commas tss)"
    by (rule commas_any, rule list_all2_left[OF d_call(1)]) (auto intro: range_seg)
  moreover have "range_ok p [(TOKEN_IDENTIFIER, x)]" by (simp add: range_ok_def seg_tight_single)
  ultimately show ?case using range_append_group[OF pair_parens] by fastforce
next
  case (d_method p ts e tss es x)
  have "seg (\<lambda>_. True) (commas tss)"
    by (rule commas_any, rule list_all2_left[OF d_method.IH(2)]) (auto intro: range_seg)
  from range_append_group[OF pair_parens range_dot[OF d_method(1) d_method.IH(1)] _ this] show ?case by simp
qed (simp_all add: range_ok_def seg_tight_single)

section \<open>Lists of parts\<close>

text \<open>\<open>reads f sy ts e\<close>: the parser reads the range as the expression and leaves the symbols alone.\<close>

definition reads :: "parser \<Rightarrow> symbols option \<Rightarrow> nat \<Rightarrow> token list \<Rightarrow> expr \<Rightarrow> bool" where
  "reads f sy p ts e \<longleftrightarrow> range_ok p ts \<and> f ts sy = Inr (e, sy)"

lemma readsD:
  assumes "reads f sy p ts e"
  shows "ts \<noteq> []" "seg (tight p) ts" "f ts sy = Inr (e, sy)" "fst (last ts) \<noteq> TOKEN_OPERATOR"
    "fst (last ts) \<noteq> TOKEN_LPARENS" "hd ts \<noteq> (TOKEN_KEYWORD, ''def'')" "hd ts \<noteq> (TOKEN_KEYWORD, ''base'')"
  using assms by (auto simp: reads_def range_ok_def)

lemma tightD: "tight p t \<Longrightarrow> fst t \<notin> {TOKEN_COMMA, TOKEN_PIPE, TOKEN_COLON, TOKEN_SEMICOLON, TOKEN_POINTER, TOKEN_LEFT_POINTER}"
  by (simp add: tight_def)

lemma args_loop_tight:
  "seg (tight p) ts \<Longrightarrow> parse_args_loop f 0 cur (ts @ ys) sy = parse_args_loop f 0 (cur @ ts) ys sy"
  using parse_args_loop_seg[of "tight p" ts 0 f cur ys sy] tightD by blast

lemma parse_args_commas:
  "list_all2 (reads f sy 0) tss es \<Longrightarrow> parse_args f (commas tss) sy = Inr (es, sy)"
  unfolding parse_args_def
proof (induction tss arbitrary: es rule: commas.induct)
  case (2 ts)
  then obtain e where "es = [e]" "reads f sy 0 ts e" by (auto simp: list_all2_Cons1)
  then show ?case using args_loop_tight[of 0 ts f "[]" "[]" sy] readsD[of f sy 0 ts e] by simp
next
  case (3 ts us tss)
  then obtain e es' where e: "es = e # es'" "reads f sy 0 ts e" "list_all2 (reads f sy 0) (us # tss) es'"
    by (auto simp: list_all2_Cons1)
  show ?case
    using args_loop_tight[OF readsD(2)[OF e(2)], of f "[]" "(TOKEN_COMMA, '','') # commas (us # tss)" sy] "3.IH"[OF e(3)]
      readsD(3)[OF e(2)] e(1) by simp
qed simp

lemma set_args_loop_tight:
  "seg (tight p) ts \<Longrightarrow> parse_set_args_loop f str 0 cp cur (ts @ ys) sy = parse_set_args_loop f str 0 cp (cur @ ts) ys sy"
  using parse_set_args_loop_seg[of "tight p" ts 0 f str cp cur ys sy] tightD by blast

text \<open>A key of a map: an identifier stands for its name.\<close>

definition reads_key :: "parser \<Rightarrow> (string \<Rightarrow> symbols option \<Rightarrow> expr parsed) \<Rightarrow> symbols option \<Rightarrow> token list \<Rightarrow> expr \<Rightarrow> bool" where
  "reads_key f str sy k e \<longleftrightarrow> (\<exists>x. k = [(TOKEN_IDENTIFIER, x)] \<and> str x sy = Inr (e, sy))
     \<or> ((\<forall>x. k \<noteq> [(TOKEN_IDENTIFIER, x)]) \<and> reads f sy 0 k e)"

lemma set_args_entry:
  assumes "reads_key f str sy k e" and "reads f sy 0 v e'"
  shows "parse_set_args_loop f str 0 False [] (k @ (TOKEN_COLON, '':'') # v @ ys) sy
    = parse_then (parse_set_args_loop f str 0 True v ys sy) (\<lambda>es sy. Inr (e # es, sy))"
proof -
  have k: "seg (tight 0) k" using assms(1) by (auto simp: reads_key_def seg_tight_single dest: readsD)
  have key: "(case k of [(TOKEN_IDENTIFIER, s)] \<Rightarrow> str s sy | _ \<Rightarrow> f k sy) = Inr (e, sy)"
    using assms(1) by (auto simp: reads_key_def dest: readsD(3) split: list.splits prod.splits FFL_TOKEN_TYPE.splits)
  show ?thesis
    using set_args_loop_tight[OF k, of f str False "[]" "(TOKEN_COLON, '':'') # v @ ys" sy]
      set_args_loop_tight[OF readsD(2)[OF assms(2)], of f str True "[]" ys sy] key by simp
qed

lemma parse_set_args_entries:
  "list_all2 (reads_key f str sy) kss kes \<Longrightarrow> list_all2 (reads f sy 0) vss ves \<Longrightarrow> length kss = length vss \<Longrightarrow>
    parse_set_args f str (commas (map2 (\<lambda>k v. k @ (TOKEN_COLON, '':'') # v) kss vss)) sy
      = Inr (concat (map2 (\<lambda>k v. [k, v]) kes ves), sy)"
  unfolding parse_set_args_def
proof (induction kss arbitrary: kes vss ves)
  case (Cons k kss)
  then obtain v vss' e kes' e' ves' where l: "vss = v # vss'" "kes = e # kes'" "ves = e' # ves'"
    "reads_key f str sy k e" "reads f sy 0 v e'" "list_all2 (reads_key f str sy) kss kes'" "list_all2 (reads f sy 0) vss' ves'"
    by (cases vss) (auto simp: list_all2_Cons1)
  note v = readsD(1,3)[OF l(5)]
  show ?case
  proof (cases "kss = []")
    case True
    then show ?thesis using l v set_args_entry[OF l(4,5), of "[]"] Cons.prems(3) by simp
  next
    case False
    then have "vss' \<noteq> []" using Cons.prems(3) l(1) by auto
    then show ?thesis
      using False l v set_args_entry[OF l(4,5), of "(TOKEN_COMMA, '','') # commas (map2 (\<lambda>k v. k @ (TOKEN_COLON, '':'') # v) kss vss')"]
        Cons.IH[OF l(6,7)] Cons.prems(3) by (simp add: commas_Cons zip_eq_Nil_iff)
  qed
qed simp

lemma where_loop_tight:
  "seg (tight 8) ts \<Longrightarrow> parse_where_loop f 0 v cur (ts @ ys) table sy = parse_where_loop f 0 v (cur @ ts) ys table sy"
proof (rule parse_where_loop_seg[of "tight 8"])
  show "\<forall>t. tight 8 t \<longrightarrow> fst t \<noteq> TOKEN_COMMA \<and> t \<noteq> (TOKEN_OPERATOR, ''='')"
    by (auto simp: tight_def operator_precedence_def precedence_map_def)
qed simp_all

lemma where_loop_binding:
  assumes "x \<noteq> []" and "reads f sy 8 g e"
  shows "parse_where_loop f 0 [] [] ((TOKEN_IDENTIFIER, x) # (TOKEN_OPERATOR, ''='') # g @ ys) table sy
    = parse_where_loop f 0 x g ys table sy"
  using where_loop_tight[OF readsD(2)[OF assms(2)], of f x "[]" ys table sy] by simp

lemma parse_where_bindings:
  "list_all2 (reads f sy 8) gss ges \<Longrightarrow> [] \<notin> set xs \<Longrightarrow> length xs = length gss \<Longrightarrow>
    parse_where_loop f 0 [] [] (commas (map2 (\<lambda>x g. (TOKEN_IDENTIFIER, x) # (TOKEN_OPERATOR, ''='') # g) xs gss)) table sy
      = Inr (foldl (\<lambda>t (x, e). table_insert x e t) table (zip xs ges), sy)"
proof (induction xs arbitrary: gss ges table)
  case (Cons x xs)
  then obtain g gss' e ges' where l: "gss = g # gss'" "ges = e # ges'" "reads f sy 8 g e" "list_all2 (reads f sy 8) gss' ges'"
    by (cases gss) (auto simp: list_all2_Cons1)
  have x: "x \<noteq> []" "[] \<notin> set xs" "length xs = length gss'" using Cons.prems l by auto
  note g = readsD(1,3)[OF l(3)]
  show ?case
  proof (cases "xs = []")
    case True
    then show ?thesis using l x g where_loop_binding[OF x(1) l(3), of "[]"] by simp
  next
    case False
    then have "gss' \<noteq> []" using x(3) by auto
    then show ?thesis
      using False l x g where_loop_binding[OF x(1) l(3), of "(TOKEN_COMMA, '','') # commas (map2 (\<lambda>x g. (TOKEN_IDENTIFIER, x) # (TOKEN_OPERATOR, ''='') # g) xs gss')"]
        Cons.IH[OF l(4) x(2,3)] by (simp add: commas_Cons zip_eq_Nil_iff)
  qed
qed simp

lemma map_of_table_insert [simp]: "map_of (table_insert x e t) = (map_of t)(x \<mapsto> e)"
  by (induction x e t rule: table_insert.induct) auto

lemma table_insert_nonempty [simp]: "table_insert x e t \<noteq> []"
  by (induction x e t rule: table_insert.induct) auto

lemma bindings_nonempty: "xs \<noteq> [] \<Longrightarrow> length xs = length es \<Longrightarrow> bindings xs es \<noteq> []"
proof -
  assume "xs \<noteq> []" "length xs = length es"
  then obtain ps p where "zip xs es = ps @ [p]" by (cases "zip xs es" rule: rev_cases) auto
  then show ?thesis by (simp add: bindings_def split: prod.splits)
qed

lemma parse_where:
  assumes "list_all2 (reads f sy 8) gss ges" and "[] \<notin> set xs" and "length xs = length gss" and "xs \<noteq> []"
  shows "parse_where_clauses f (commas (map2 (\<lambda>x g. (TOKEN_IDENTIFIER, x) # (TOKEN_OPERATOR, ''='') # g) xs gss)) sy
    = Inr (bindings xs ges, sy)"
  using parse_where_bindings[OF assms(1-3), of "[]"] bindings_nonempty[of xs ges] assms list_all2_lengthD[OF assms(1)]
  by (simp add: parse_where_clauses_def bindings_def)

text \<open>Comprehensions.\<close>

lemma split_commas_commas:
  "tss \<noteq> [] \<Longrightarrow> (\<And>ts. ts \<in> set tss \<Longrightarrow> seg (\<lambda>t. fst t \<noteq> TOKEN_COMMA) ts) \<Longrightarrow> split_commas (commas tss) = tss"
proof (induction tss rule: commas.induct)
  case (2 ts)
  then have "seg (\<lambda>t. fst t \<noteq> TOKEN_COMMA) ts" by simp
  then show ?case using find_type_seg(2)[of _ ts TOKEN_COMMA] by (simp add: split_commas.simps[of ts])
next
  case (3 ts us tss)
  then have ts: "seg (\<lambda>t. fst t \<noteq> TOKEN_COMMA) ts" by simp
  have "find_match (add_type TOKEN_COMMA new_matcher) (ts @ (TOKEN_COMMA, '','') # commas (us # tss))
      = (True, (TOKEN_COMMA, '','') # commas (us # tss))"
    by (rule find_type_seg(1)[OF ts]) simp_all
  then show ?case using "3.IH" "3.prems" by (subst split_commas.simps) simp
qed simp

lemma generator_step:
  assumes "reads f sy 0 g e" and "map_of gens x = None"
  shows "parse_generators f (generator x g # args) gens [] sy = parse_generators f args (table_insert x e gens) [] sy"
proof -
  have "seg (\<lambda>t. fst t \<noteq> TOKEN_LEFT_POINTER) [(TOKEN_IDENTIFIER, x)]" by (rule seg_single) simp_all
  from find_type_seg(1)[OF this, of TOKEN_LEFT_POINTER "(TOKEN_LEFT_POINTER, ''<-'')" g]
  have "find_match (add_type TOKEN_LEFT_POINTER new_matcher) (generator x g) = (True, (TOKEN_LEFT_POINTER, ''<-'') # g)"
    by (simp add: generator_def)
  moreover have "before (generator x g) ((TOKEN_LEFT_POINTER, ''<-'') # g) = [(TOKEN_IDENTIFIER, x)]"
    by (simp add: generator_def before_def)
  ultimately show ?thesis using assms(2) readsD(3)[OF assms(1)] by (simp add: Let_def generator_def)
qed

lemma parse_generators_list:
  "list_all2 (reads f sy 0) gss ges \<Longrightarrow> length xs = length gss \<Longrightarrow> distinct xs \<Longrightarrow> (\<And>x. x \<in> set xs \<Longrightarrow> map_of gens x = None) \<Longrightarrow>
    parse_generators f (map2 generator xs gss @ args) gens [] sy
      = parse_generators f args (foldl (\<lambda>t (x, e). table_insert x e t) gens (zip xs ges)) [] sy"
proof (induction xs arbitrary: gss ges gens)
  case (Cons x xs)
  then obtain g gss' e ges' where l: "gss = g # gss'" "ges = e # ges'" "reads f sy 0 g e" "list_all2 (reads f sy 0) gss' ges'"
    by (cases gss) (auto simp: list_all2_Cons1)
  have "map_of (table_insert x e gens) y = None" if "y \<in> set xs" for y
    using Cons.prems(3,4) that by auto
  then have "parse_generators f (map2 generator xs gss' @ args) (table_insert x e gens) [] sy
      = parse_generators f args (foldl (\<lambda>t (x, e). table_insert x e t) (table_insert x e gens) (zip xs ges')) [] sy"
    using Cons.IH[OF l(4)] Cons.prems(2,3) l(1) by simp
  then show ?case using l generator_step[OF l(3)] Cons.prems(4) by simp
qed simp

lemma parse_filters_list:
  "list_all2 (reads f sy 0) fss fes \<Longrightarrow> gens \<noteq> [] \<Longrightarrow>
    parse_generators f fss gens filters sy = Inr ((gens, filters @ fes), sy)"
proof (induction fss arbitrary: fes filters)
  case (Cons ts fss)
  then obtain e fes' where l: "fes = e # fes'" "reads f sy 0 ts e" "list_all2 (reads f sy 0) fss fes'"
    by (auto simp: list_all2_Cons1)
  have "find_match (add_type TOKEN_LEFT_POINTER new_matcher) ts = (False, [])"
    by (rule find_type_seg(2)[OF readsD(2)[OF l(2)]]) (auto dest: tightD)
  then show ?case using Cons.IH[OF l(3) Cons.prems(2)] Cons.prems(2) l(1) readsD(1,3)[OF l(2)] by simp
qed simp

lemma seg_no_comma: "seg (tight p) ts \<Longrightarrow> seg (\<lambda>t. fst t \<noteq> TOKEN_COMMA) ts"
  by (erule seg_mono) (simp add: tight_def)

lemma seg_generator: "seg (tight p) gs \<Longrightarrow> seg (\<lambda>t. fst t \<noteq> TOKEN_COMMA) (generator x gs)"
  unfolding generator_def by (intro seg_plain seg_no_comma) auto

lemma parse_comprehension_list:
  assumes "reads f sy 0 ts e" and "xs \<noteq> []" and "distinct xs" and "length xs = length gss"
    and g: "list_all2 (reads f sy 0) gss ges" and fs: "list_all2 (reads f sy 0) fss fes"
  shows "parse_comprehension f ts (commas (map2 generator xs gss @ fss)) sy = Inr (EComprehension e (bindings xs ges) fes, sy)"
proof -
  have seg: "seg (tight 0) gs" if "gs \<in> set gss" for gs
    by (rule list_all2_left[OF g _ that]) (rule readsD)
  have gen: "seg (\<lambda>t. fst t \<noteq> TOKEN_COMMA) (generator x gs)" if "gs \<in> set gss" for x gs
    by (rule seg_generator[OF seg[OF that]])
  have f: "seg (\<lambda>t. fst t \<noteq> TOKEN_COMMA) us" if "us \<in> set fss" for us
    by (rule list_all2_left[OF fs _ that]) (rule seg_no_comma[OF readsD(2)])
  have "split_commas (commas (map2 generator xs gss @ fss)) = map2 generator xs gss @ fss"
    by (rule split_commas_commas) (use assms(2,4) f gen in \<open>auto simp: zip_eq_Nil_iff dest!: set_zip_rightD\<close>)
  moreover have "parse_generators f (map2 generator xs gss @ fss) [] [] sy = parse_generators f fss (bindings xs ges) [] sy"
    using parse_generators_list[OF g assms(4,3), of "[]" fss] by (simp add: bindings_def)
  moreover have "bindings xs ges \<noteq> []" using bindings_nonempty assms(2,4) list_all2_lengthD[OF g] by simp
  ultimately show ?thesis
    using parse_filters_list[OF fs, of "bindings xs ges" "[]"] readsD(3)[OF assms(1)] by (simp add: parse_comprehension_def)
qed

section \<open>The parser on each form\<close>

text \<open>Which case of the parser a range reaches, by the result of the scan.\<close>

lemma within_operator:
  assumes "ts \<noteq> []" and "hd ts \<noteq> (TOKEN_KEYWORD, ''def'')" and "fst t \<noteq> TOKEN_LSQUARE"
    and "scan_operators 0 TOKEN_INVALID 0 None None ts = (Some (k, t), fn)"
    and "fn = None \<or> (paren_place fn \<and> operator_precedence t < 14)"
  shows "parse_within env h ts sy = parse_operator (parse_within env h) ts (k, t) sy"
proof -
  have "\<not> operator_precedence (snd q) \<le> operator_precedence t" if "fn = Some q" for q
    using assms(5) that by (cases q) (auto simp: paren_place_def operator_precedence_def precedence_map_def)
  then show ?thesis
    using assms by (subst parse_within.simps) (auto simp: parse_expression_internal_def split: option.split)
qed

lemma within_atom:
  assumes "ts \<noteq> []" and "hd ts \<noteq> (TOKEN_KEYWORD, ''def'')"
    and "scan_operators 0 TOKEN_INVALID 0 None None ts = (op, fn)" and "\<And>k t. op = Some (k, t) \<Longrightarrow> fst t = TOKEN_LSQUARE"
    and "parse_atom env (parse_within env h) h ts sy = Inr (r, sy)"
  shows "parse_within env h ts sy = (case r of Some e \<Rightarrow> Inr (e, sy)
    | None \<Rightarrow> (case fn of None \<Rightarrow> Inl (call_error ts) | Some p \<Rightarrow> parse_operator (parse_within env h) ts p sy))"
  using assms by (subst parse_within.simps) (auto simp: parse_expression_internal_def split: option.split)

lemma range_parens:
  assumes "range_ok p ts"
  shows "paren_place (snd (scan_operators 0 TOKEN_INVALID 0 None None ts))"
  by (rule scan_fn_call) (use assms seg_parens in \<open>auto simp: range_ok_def paren_place_def\<close>)

text \<open>Groups in brackets.\<close>

lemma scan_group:
  assumes "bracket_pair l r" and "seg P xs"
  shows "scan_operators 0 prev 0 None None (l # xs @ [r]) = (None, None)"
proof -
  have "op_step 0 prev 0 None l = None" "fn_call_step 0 0 None l False = None"
    using bracket_pair_type[OF assms(1)] by (auto simp: op_step_def fn_call_step_def)
  moreover have "op_step i p 1 None r = None" "fn_call_step i 1 None r True = None" for i p
    using bracket_pair_type[OF assms(1)] by (auto simp: op_step_def fn_call_step_def)
  ultimately show ?thesis
    using scan_inner[OF assms(2), of 1 "[r]"] bracket_pair_type[OF assms(1)] by simp
qed

lemma within_group:
  assumes "bracket_pair l r" and "seg P xs" and "parse_atom env (parse_within env h) h (l # xs @ [r]) sy = Inr (Some e, sy)"
  shows "parse_within env h (l # xs @ [r]) sy = Inr (e, sy)"
proof -
  have "l \<noteq> (TOKEN_KEYWORD, ''def'')" using assms(1) by (auto simp: bracket_pair_def)
  then show ?thesis using within_atom[OF _ _ scan_group[OF assms(1,2)] _ assms(3)] by simp
qed

lemma within_parens:
  assumes "reads (parse_within env h) sy p ts e"
  shows "parse_within env h ((TOKEN_LPARENS, ''('') # ts @ [(TOKEN_RPARENS, '')'')]) sy = Inr (e, sy)"
  by (rule within_group[OF pair_parens readsD(2)[OF assms]]) (simp add: parse_atom_def readsD(3)[OF assms])

lemma find_lsquare_group:
  assumes "seg P xs"
  shows "find_lsquare (l # xs @ [r]) 0 (length xs) = 0"
  using find_lsquare_seg[OF assms, of l "[]" "[r]" 0] by simp

lemma seg_commas_reads:
  assumes "list_all2 (reads f sy p) tss es"
  shows "seg (\<lambda>_. True) (commas tss)"
proof (rule commas_any)
  show "seg (\<lambda>_. True) ts" if "ts \<in> set tss" for ts
    by (rule list_all2_left[OF assms _ that]) (rule seg_any[OF readsD(2)])
qed

lemma find_pipe_args:
  assumes "list_all2 (reads f sy p) tss es"
  shows "find_match (add_type TOKEN_PIPE new_matcher) (commas tss @ [(TOKEN_RSQUARE, '']'')]) = (False, [])"
proof (rule find_type_seg(3)[of "\<lambda>t. fst t \<noteq> TOKEN_PIPE"])
  show "seg (\<lambda>t. fst t \<noteq> TOKEN_PIPE) (commas tss)"
  proof (rule seg_commas, rule ballI)
    fix ts assume "ts \<in> set tss"
    then show "seg (\<lambda>t. fst t \<noteq> TOKEN_PIPE) ts"
      by (rule list_all2_left[OF assms, rotated]) (auto intro!: seg_mono[OF readsD(2)] dest: tightD)
  qed simp
qed simp_all

lemma within_list:
  assumes "list_all2 (reads (parse_within env h) sy 0) tss es"
  shows "parse_within env h ((TOKEN_LSQUARE, ''['') # commas tss @ [(TOKEN_RSQUARE, '']'')]) sy = Inr (EList es, sy)"
proof (rule within_group[OF pair_square seg_commas_reads[OF assms]])
  show "parse_atom env (parse_within env h) h ((TOKEN_LSQUARE, ''['') # commas tss @ [(TOKEN_RSQUARE, '']'')]) sy
      = Inr (Some (EList es), sy)"
    using find_lsquare_group[OF seg_commas_reads[OF assms]] find_pipe_args[OF assms] parse_args_commas[OF assms]
    by (simp add: parse_atom_def parse_square_def Let_def del: find_lsquare.simps)
qed

lemma within_comprehension:
  assumes e: "reads (parse_within env h) sy 0 ts e" and xs: "xs \<noteq> []" "distinct xs" "length xs = length gss"
    and "list_all2 (reads (parse_within env h) sy 0) gss ges" and "list_all2 (reads (parse_within env h) sy 0) fss fes"
    and seg: "seg P (ts @ (TOKEN_PIPE, ''|'') # commas (map2 generator xs gss @ fss))"
  shows "parse_within env h ((TOKEN_LSQUARE, ''['') # ts @ (TOKEN_PIPE, ''|'') # commas (map2 generator xs gss @ fss)
      @ [(TOKEN_RSQUARE, '']'')]) sy = Inr (EComprehension e (bindings xs ges) fes, sy)"
proof -
  let ?args = "commas (map2 generator xs gss @ fss)"
  let ?in = "ts @ (TOKEN_PIPE, ''|'') # ?args"
  have pipe: "find_match (add_type TOKEN_PIPE new_matcher) (ts @ (TOKEN_PIPE, ''|'') # ?args @ [(TOKEN_RSQUARE, '']'')])
      = (True, (TOKEN_PIPE, ''|'') # ?args @ [(TOKEN_RSQUARE, '']'')])"
    by (rule find_type_seg(1)[OF readsD(2)[OF e]]) (auto dest: tightD)
  have "parse_atom env (parse_within env h) h ((TOKEN_LSQUARE, ''['') # ?in @ [(TOKEN_RSQUARE, '']'')]) sy
      = Inr (Some (EComprehension e (bindings xs ges) fes), sy)"
    using find_lsquare_group[OF seg, of "(TOKEN_LSQUARE, ''['')" "(TOKEN_RSQUARE, '']'')"] pipe
      parse_comprehension_list[OF e xs assms(5,6)]
    by (simp add: parse_atom_def parse_square_def Let_def del: find_lsquare.simps)
  from within_group[OF pair_square seg this] show ?thesis by simp
qed

text \<open>Texts without escapes are themselves.\<close>

lemma unescape_newlines_id: "CHR 0x5C \<notin> set s \<Longrightarrow> unescape_newlines s = s"
  by (induction s rule: unescape_newlines.induct) auto

lemma substitutions_none: "CHR ''$'' \<notin> set s \<Longrightarrow> substitutions s = (s, [])"
proof -
  assume s: "CHR ''$'' \<notin> set s"
  have "strstr ''${'' s = None"
  proof (cases "strstr ''${'' s")
    case (Some r)
    then have "starts_at ''${'' (snd r)" "s = fst r @ snd r" using strstr_Some[of "''${''" s "fst r" "snd r"] by auto
    then have "CHR ''$'' \<in> set s" using starts_at_append[of "''${''" "snd r"] by (metis Un_iff append_Cons list.set_intros(1) set_append)
    then show ?thesis using s by simp
  qed
  then show ?thesis by (simp add: substitutions.simps[of s] take_substitution_def)
qed

lemma string_expression_simple:
  "simple_text s \<Longrightarrow> string_expression env f h False s sy = Inr (EString s False [], sy)"
  by (auto simp: string_expression_def simple_text_def Let_def unescape_newlines_id substitutions_none filter_id_conv)

lemma within_single:
  assumes "fst t \<notin> {TOKEN_OPERATOR, TOKEN_LPARENS, TOKEN_LSQUARE, TOKEN_LBRACKET, TOKEN_RPARENS, TOKEN_RSQUARE, TOKEN_RBRACKET}"
    and "t \<noteq> (TOKEN_KEYWORD, ''def'')" and "parse_single env (parse_within env h) h t sy = Some (Inr (e, sy))"
  shows "parse_within env h [t] sy = Inr (e, sy)"
proof -
  have "scan_operators 0 TOKEN_INVALID 0 None None [t] = (None, None)"
    using assms(1) by (auto simp: op_step_def fn_call_step_def)
  moreover have "parse_atom env (parse_within env h) h [t] sy = Inr (Some e, sy)"
    using assms(1,3) by (auto simp: parse_atom_def)
  ultimately show ?thesis using within_atom[of "[t]"] assms(2) by simp
qed

lemma within_map:
  assumes k: "list_all2 (reads_key (parse_within env h) (string_expression env (parse_within env h) h False) sy) kss kes"
    and v: "list_all2 (reads (parse_within env h) sy 0) vss ves" and len: "length kss = length vss"
    and seg: "seg P (commas (map2 (\<lambda>k v. k @ (TOKEN_COLON, '':'') # v) kss vss))"
  shows "parse_within env h ((TOKEN_LBRACKET, ''{'') # commas (map2 (\<lambda>k v. k @ (TOKEN_COLON, '':'') # v) kss vss)
      @ [(TOKEN_RBRACKET, ''}'')]) sy = Inr (EMap (concat (map2 (\<lambda>k v. [k, v]) kes ves)), sy)"
  by (rule within_group[OF pair_bracket seg]) (simp add: parse_atom_def parse_set_args_entries[OF k v len])

section \<open>Operators\<close>

lemma infix_precedence:
  assumes "infix_operator s"
  shows "operator_precedence (TOKEN_OPERATOR, s) < 14" "s \<notin> {''not'', ''where'', ''.'', ''(''}"
  using assms by (auto simp: infix_operator_def precedence_map_def operator_precedence_def)

text \<open>A range \<open>ls\<close>, an operator, and operators that bind tighter.\<close>

lemma scan_operator:
  assumes ls: "seg (tight q) ls" "ls \<noteq> []" and t: "fst t = TOKEN_OPERATOR" "snd t \<noteq> ''not''" "q = operator_precedence t" "q < 14"
    and rs: "seg P rs" "\<And>u. P u \<Longrightarrow> fst u = TOKEN_OPERATOR \<Longrightarrow> q < operator_precedence u"
  shows "\<exists>fn. scan_operators 0 prev 0 None None (ls @ t # rs) = (Some (length ls, t), fn)"
proof -
  obtain op' fn' where l: "scan_operators 0 prev 0 None None (ls @ t # rs)
      = scan_operators (length ls) (fst (last ls)) 0 op' fn' (t # rs)" "no_looser q op'"
    using scan_left[OF ls(1), of q prev "t # rs"] t(4) ls(2) by (auto simp: tight_def)
  have "binds_looser op' t" using l(2) t(3) by (auto simp: binds_looser_def no_looser_def split: option.splits)
  then have "op_step (length ls) (fst (last ls)) 0 op' t = Some (length ls, t)" using t(1,2) by (simp add: op_step_def)
  moreover have "bracket_step t = 0" using t(1) by (simp add: plain_step)
  ultimately show ?thesis
    using l(1) scan_right[OF rs(1), of t "Suc (length ls)"] rs(2) t(3,4) by auto
qed

lemma within_binary:
  assumes s: "infix_operator s" and q: "q = operator_precedence (TOKEN_OPERATOR, s)"
    and l: "reads (parse_within env h) sy q ls e" and r: "reads (parse_within env h) sy (Suc q) rs e'"
    and ok: "range_ok p (ls @ (TOKEN_OPERATOR, s) # rs)"
  shows "parse_within env h (ls @ (TOKEN_OPERATOR, s) # rs) sy = Inr (EBinary s e e', sy)"
proof -
  note ls = readsD[OF l] and rs = readsD[OF r]
  obtain fn where scan: "scan_operators 0 TOKEN_INVALID 0 None None (ls @ (TOKEN_OPERATOR, s) # rs)
      = (Some (length ls, (TOKEN_OPERATOR, s)), fn)"
    using scan_operator[OF ls(2,1) _ _ _ _ rs(2), of "(TOKEN_OPERATOR, s)"] infix_precedence[OF s] q
    by (auto simp: tight_def)
  have "paren_place fn" using range_parens[OF ok] scan by simp
  then have "parse_within env h (ls @ (TOKEN_OPERATOR, s) # rs) sy
      = parse_operator (parse_within env h) (ls @ (TOKEN_OPERATOR, s) # rs) (length ls, (TOKEN_OPERATOR, s)) sy"
    using within_operator[OF _ _ _ scan] infix_precedence(1)[OF s] ls(1,6) by simp
  then show ?thesis using ls(1,3) rs(3) infix_precedence(2)[OF s] by (simp add: parse_operator_def)
qed

lemma within_unary:
  assumes s: "s = ''not'' \<or> s = ''-''" and q: "q = operator_precedence (TOKEN_OPERATOR, s)"
    and r: "reads (parse_within env h) sy (Suc q) rs e" and ok: "range_ok p ((TOKEN_OPERATOR, s) # rs)"
  shows "parse_within env h ((TOKEN_OPERATOR, s) # rs) sy = Inr (EUnary s e, sy)"
proof -
  note rs = readsD[OF r]
  have q14: "q < 14" using s q by (auto simp: operator_precedence_def precedence_map_def)
  have "op_step 0 TOKEN_INVALID 0 None (TOKEN_OPERATOR, s) = Some (0, (TOKEN_OPERATOR, s))"
    by (simp add: op_step_def binds_looser_def)
  then obtain fn where scan: "scan_operators 0 TOKEN_INVALID 0 None None ((TOKEN_OPERATOR, s) # rs)
      = (Some (0, (TOKEN_OPERATOR, s)), fn)"
    using scan_right[OF rs(2), of "(TOKEN_OPERATOR, s)" "Suc 0" TOKEN_OPERATOR 0
        "fn_call_step 0 0 None (TOKEN_OPERATOR, s) (rs = [])"] q q14
    by (auto simp: tight_def bracket_step_def)
  have "paren_place fn" using range_parens[OF ok] scan by simp
  then have "parse_within env h ((TOKEN_OPERATOR, s) # rs) sy
      = parse_operator (parse_within env h) ((TOKEN_OPERATOR, s) # rs) (0, (TOKEN_OPERATOR, s)) sy"
    using within_operator[OF _ _ _ scan] q14 q by simp
  then show ?thesis using rs(3) s by (auto simp: parse_operator_def)
qed

lemma where_precedence [simp]: "operator_precedence (TOKEN_OPERATOR, ''where'') = 3"
  and dot_precedence [simp]: "operator_precedence (TOKEN_OPERATOR, ''.'') = 14"
  and equals_precedence [simp]: "operator_precedence (TOKEN_OPERATOR, ''='') = 7"
  and square_precedence [simp]: "operator_precedence (TOKEN_LSQUARE, ''['') = 14"
  and paren_precedence [simp]: "operator_precedence (TOKEN_LPARENS, ''('') = 14"
  by (simp_all add: operator_precedence_def precedence_map_def)

definition tighter :: "nat \<Rightarrow> token \<Rightarrow> bool" where
  "tighter q t \<longleftrightarrow> (fst t = TOKEN_OPERATOR \<longrightarrow> q < operator_precedence t)"

lemma seg_where:
  assumes "list_all2 (reads f sy 8) gss ges"
  shows "seg (tighter 3) (commas (map2 (\<lambda>x g. (TOKEN_IDENTIFIER, x) # (TOKEN_OPERATOR, ''='') # g) xs gss))"
proof (rule seg_commas, rule ballI)
  fix ts assume "ts \<in> set (map2 (\<lambda>x g. (TOKEN_IDENTIFIER, x) # (TOKEN_OPERATOR, ''='') # g) xs gss)"
  then obtain x g where t: "ts = (TOKEN_IDENTIFIER, x) # (TOKEN_OPERATOR, ''='') # g" "g \<in> set gss"
    by (auto dest: set_zip_rightD)
  have "seg (tight 8) g" by (rule list_all2_left[OF assms _ t(2)]) (rule readsD)
  then have "seg (tighter 3) g" by (rule seg_mono) (auto simp: tight_def tighter_def)
  then show "seg (tighter 3) ts" unfolding t(1) by (intro seg_plain) (simp_all add: tighter_def)
qed (simp add: tighter_def)

lemma within_where:
  assumes b: "reads (parse_within env h) sy 3 ts e" and xs: "xs \<noteq> []" "[] \<notin> set xs" "length xs = length gss"
    and g: "list_all2 (reads (parse_within env h) sy 8) gss ges"
  shows "parse_within env h (where_range ts xs gss) sy = Inr (EWhere e (bindings xs ges), sy)"
proof -
  note ts = readsD[OF b]
  let ?rs = "commas (map2 (\<lambda>x g. (TOKEN_IDENTIFIER, x) # (TOKEN_OPERATOR, ''='') # g) xs gss)"
  obtain fn where scan: "scan_operators 0 TOKEN_INVALID 0 None None (ts @ (TOKEN_OPERATOR, ''where'') # ?rs)
      = (Some (length ts, (TOKEN_OPERATOR, ''where'')), fn)"
    using scan_operator[OF ts(2,1) _ _ _ _ seg_where[OF g, of xs], of "(TOKEN_OPERATOR, ''where'')"] by (auto simp: tighter_def)
  have "paren_place (snd (scan_operators 0 TOKEN_INVALID 0 None None (ts @ (TOKEN_OPERATOR, ''where'') # ?rs)))"
    by (rule scan_fn_call) (use seg_parens[OF ts(2)] seg_parens[OF seg_where[OF g, of xs]] in \<open>auto simp: paren_place_def\<close>)
  then have "paren_place fn" using scan by simp
  then have "parse_within env h (ts @ (TOKEN_OPERATOR, ''where'') # ?rs) sy
      = parse_operator (parse_within env h) (ts @ (TOKEN_OPERATOR, ''where'') # ?rs) (length ts, (TOKEN_OPERATOR, ''where'')) sy"
    using within_operator[OF _ _ _ scan] ts(1,6) by simp
  then show ?thesis
    using ts(1,3) parse_where[OF g xs(2,3,1)] by (simp add: where_range_def parse_operator_def)
qed

lemma scan_dot:
  assumes "seg (tight 14) ts" and "ts \<noteq> []"
  shows "\<exists>fn. scan_operators 0 prev 0 None None (ts @ (TOKEN_OPERATOR, ''.'') # (TOKEN_IDENTIFIER, x) # rest)
    = scan_operators (length ts + 2) TOKEN_IDENTIFIER 0 (Some (length ts, (TOKEN_OPERATOR, ''.''))) fn rest"
proof -
  let ?rest = "(TOKEN_OPERATOR, ''.'') # (TOKEN_IDENTIFIER, x) # rest"
  obtain op' fn' where l: "scan_operators 0 prev 0 None None (ts @ ?rest)
      = scan_operators (length ts) (fst (last ts)) 0 op' fn' ?rest" "no_looser 14 op'"
    using scan_left[OF assms(1), of 14 prev ?rest] assms(2) by (auto simp: tight_def)
  have "binds_looser op' (TOKEN_OPERATOR, ''.'')"
    using l(2) by (auto simp: binds_looser_def no_looser_def split: option.splits)
  then have "op_step (length ts) (fst (last ts)) 0 op' (TOKEN_OPERATOR, ''.'') = Some (length ts, (TOKEN_OPERATOR, ''.''))"
    by (simp add: op_step_def)
  then show ?thesis using l(1) by (simp add: bracket_step_def op_step_def) (rule exI, rule refl)
qed

lemma within_identifier: "parse_within env h [(TOKEN_IDENTIFIER, x)] sy = Inr (identifier_value sy x, sy)"
  by (rule within_single) (simp_all add: parse_single_def identifier_value_def)

lemma within_dot:
  assumes l: "reads (parse_within env h) sy 14 ts e"
  shows "parse_within env h (ts @ [(TOKEN_OPERATOR, ''.''), (TOKEN_IDENTIFIER, x)]) sy
    = Inr (EDot e (identifier_value None x), sy)"
proof -
  note ts = readsD[OF l]
  let ?ts = "ts @ [(TOKEN_OPERATOR, ''.''), (TOKEN_IDENTIFIER, x)]"
  obtain fn where "scan_operators 0 TOKEN_INVALID 0 None None ?ts = (Some (length ts, (TOKEN_OPERATOR, ''.'')), fn)"
    using scan_dot[OF ts(2,1), of TOKEN_INVALID x "[]"] by auto
  moreover have "snd (scan_operators 0 TOKEN_INVALID 0 None None ?ts) = None" by (rule scan_no_call) simp_all
  ultimately have scan: "scan_operators 0 TOKEN_INVALID 0 None None ?ts = (Some (length ts, (TOKEN_OPERATOR, ''.'')), None)"
    by simp
  have "parse_within env h ?ts sy = parse_operator (parse_within env h) ?ts (length ts, (TOKEN_OPERATOR, ''.'')) sy"
    using within_operator[OF _ _ _ scan] ts(1,6) by simp
  then show ?thesis using ts(1,3) within_identifier[of env h x None] by (simp add: parse_operator_def)
qed

text \<open>Brackets behind a range: the bracket is the operator.\<close>

lemma scan_square:
  assumes "seg (tight 14) ts" and "ts \<noteq> []" and "fst (last ts) \<noteq> TOKEN_OPERATOR" and "seg P xs"
  shows "scan_operators 0 prev 0 None None (ts @ (TOKEN_LSQUARE, ''['') # xs @ [(TOKEN_RSQUARE, '']'')])
    = (Some (length ts, (TOKEN_LSQUARE, ''['')), None)"
proof -
  let ?rest = "(TOKEN_LSQUARE, ''['') # xs @ [(TOKEN_RSQUARE, '']'')]"
  obtain op' fn' where l: "scan_operators 0 prev 0 None None (ts @ ?rest)
      = scan_operators (length ts) (fst (last ts)) 0 op' fn' ?rest" "no_looser 14 op'"
    using scan_left[OF assms(1), of 14 prev ?rest] assms(2) by (auto simp: tight_def)
  have "binds_looser op' (TOKEN_LSQUARE, ''['')"
    using l(2) by (auto simp: binds_looser_def no_looser_def split: option.splits)
  then have "op_step (length ts) (fst (last ts)) 0 op' (TOKEN_LSQUARE, ''['') = Some (length ts, (TOKEN_LSQUARE, ''[''))"
    using assms(2,3) by (simp add: op_step_def)
  then have "fst (scan_operators 0 prev 0 None None (ts @ ?rest)) = Some (length ts, (TOKEN_LSQUARE, ''[''))"
    using l(1) scan_inner[OF assms(4), of 1 "[(TOKEN_RSQUARE, '']'')]"] by (simp add: bracket_step_def op_step_def)
  moreover have "snd (scan_operators 0 prev 0 None None (ts @ ?rest)) = None" by (rule scan_no_call) simp_all
  ultimately show ?thesis by (simp add: prod_eq_iff)
qed

lemma find_lsquare_behind:
  assumes "seg P xs" and "ts \<noteq> []"
  shows "find_lsquare (ts @ (TOKEN_LSQUARE, ''['') # xs @ [r]) 0 (length ts + length xs) = length ts"
proof -
  obtain a us where ts: "ts = a # us" using assms(2) by (cases ts) auto
  show ?thesis
    using find_lsquare_seg[OF assms(1), of a "us @ [(TOKEN_LSQUARE, ''['')]" "[r]" 0] by (simp add: ts nth_append)
qed

lemma within_square:
  assumes l: "reads (parse_within env h) sy 14 ts e" and xs: "seg P xs"
    and r: "parse_square (parse_within env h) (ts @ (TOKEN_LSQUARE, ''['') # xs @ [(TOKEN_RSQUARE, '']'')]) sy = Inr (Some e', sy)"
  shows "parse_within env h (ts @ (TOKEN_LSQUARE, ''['') # xs @ [(TOKEN_RSQUARE, '']'')]) sy = Inr (e', sy)"
proof -
  note ts = readsD[OF l]
  have "parse_atom env (parse_within env h) h (ts @ (TOKEN_LSQUARE, ''['') # xs @ [(TOKEN_RSQUARE, '']'')]) sy = Inr (Some e', sy)"
    using r by (simp add: parse_atom_def)
  then show ?thesis using within_atom[OF _ _ scan_square[OF ts(2,1,4) xs]] ts(1,6) by simp
qed

lemma parse_square_behind:
  assumes "seg P xs" and "ts \<noteq> []"
  shows "parse_square f (ts @ (TOKEN_LSQUARE, ''['') # xs @ [(TOKEN_RSQUARE, '']'')]) sy
    = (case find_colon 0 [] (rev xs) of
         Some (start, final) \<Rightarrow> parse_then (parse_bound f start sy) (\<lambda>b sy. parse_then (parse_bound f final sy) (\<lambda>e sy.
           parse_then (f ts sy) (\<lambda>left sy. Inr (Some (ESlice left b e), sy))))
       | None \<Rightarrow> parse_then (f ts sy) (\<lambda>left sy. parse_then (f xs sy) (\<lambda>key sy. Inr (Some (EIndex left key), sy))))"
  using find_lsquare_behind[OF assms, of "(TOKEN_RSQUARE, '']'')"] assms(2)
  by (simp add: parse_square_def Let_def nth_append del: find_lsquare.simps cong: option.case_cong)

lemma within_index:
  assumes l: "reads (parse_within env h) sy 14 ts e" and k: "reads (parse_within env h) sy 0 ks e'"
    and "TOKEN_COLON \<notin> fst ` set ks"
  shows "parse_within env h (ts @ (TOKEN_LSQUARE, ''['') # ks @ [(TOKEN_RSQUARE, '']'')]) sy = Inr (EIndex e e', sy)"
proof (rule within_square[OF l readsD(2)[OF k]])
  have "find_colon 0 [] (rev ks) = None" using find_colon_seg[OF readsD(2)[OF k] assms(3), of 0 "[]" "[]"] by simp
  then show "parse_square (parse_within env h) (ts @ (TOKEN_LSQUARE, ''['') # ks @ [(TOKEN_RSQUARE, '']'')]) sy
      = Inr (Some (EIndex e e'), sy)"
    unfolding parse_square_behind[OF readsD(2)[OF k] readsD(1)[OF l]] using readsD(3)[OF l] readsD(3)[OF k] by simp
qed

definition reads_bound :: "parser \<Rightarrow> symbols option \<Rightarrow> token list \<Rightarrow> expr option \<Rightarrow> bool" where
  "reads_bound f sy bs b \<longleftrightarrow> (b = None \<and> bs = []) \<or> (\<exists>e. b = Some e \<and> reads f sy 0 bs e)"

lemma reads_boundD:
  "reads_bound f sy bs b \<Longrightarrow> seg (\<lambda>_. True) bs"
  "reads_bound f sy bs b \<Longrightarrow> parse_bound f bs sy = Inr (b, sy)"
  by (auto simp: reads_bound_def parse_bound_def seg_Nil dest: readsD(1,3) seg_any[OF readsD(2)])

lemma within_slice:
  assumes l: "reads (parse_within env h) sy 14 ts e" and b: "reads_bound (parse_within env h) sy bs b"
    and c: "reads_bound (parse_within env h) sy cs c" and "TOKEN_COLON \<notin> fst ` set (bs @ cs)"
  shows "parse_within env h (ts @ (TOKEN_LSQUARE, ''['') # bs @ (TOKEN_COLON, '':'') # cs @ [(TOKEN_RSQUARE, '']'')]) sy
    = Inr (ESlice e b c, sy)"
proof -
  let ?in = "bs @ (TOKEN_COLON, '':'') # cs"
  have seg: "seg (\<lambda>_. True) ?in" using seg_append[OF reads_boundD(1)[OF b] any_Cons[OF _ reads_boundD(1)[OF c]]] by simp
  have "TOKEN_COLON \<notin> fst ` set cs" using assms(4) by auto
  then have "find_colon 0 [] (rev ?in) = Some (bs, cs)"
    using find_colon_seg[OF reads_boundD(1)[OF c], of 0 "[]" "(TOKEN_COLON, '':'') # rev bs"] by simp
  then have "parse_square (parse_within env h) (ts @ (TOKEN_LSQUARE, ''['') # ?in @ [(TOKEN_RSQUARE, '']'')]) sy
      = Inr (Some (ESlice e b c), sy)"
    unfolding parse_square_behind[OF seg readsD(1)[OF l]]
    using reads_boundD(2)[OF b] reads_boundD(2)[OF c] readsD(3)[OF l] by simp
  from within_square[OF l seg this] show ?thesis by simp
qed

text \<open>Calls.\<close>

lemma count_type_append: "count_type ty (xs @ ys) = count_type ty xs + count_type ty ys"
  by (simp add: count_type_def)

lemma scan_call_group:
  assumes "seg P xs" and "0 < i"
  shows "scan_operators i prev 0 op None ((TOKEN_LPARENS, ''('') # xs @ [(TOKEN_RPARENS, '')'')])
    = (op, Some (i, (TOKEN_LPARENS, ''('')))"
proof -
  have "op_step i prev 0 op (TOKEN_LPARENS, ''('') = op" "op_step j p 1 op (TOKEN_RPARENS, '')'') = op" for j p
    by (simp_all add: op_step_def)
  then show ?thesis
    using scan_inner[OF assms(1), of 1 "[(TOKEN_RPARENS, '')'')]"] assms(2) by (simp add: bracket_step_def fn_call_step_def)
qed

lemma within_call:
  assumes tss: "list_all2 (reads (parse_within env h) sy 0) tss es"
    and e: "e = (case create_function env x es sy of Some (Inr f) \<Rightarrow> f | _ \<Rightarrow> ECall (identifier_value sy x) es)"
    and err: "\<forall>err. create_function env x es sy \<noteq> Some (Inl err)"
  shows "parse_within env h ((TOKEN_IDENTIFIER, x) # (TOKEN_LPARENS, ''('') # commas tss @ [(TOKEN_RPARENS, '')'')]) sy = Inr (e, sy)"
proof -
  let ?ts = "(TOKEN_IDENTIFIER, x) # (TOKEN_LPARENS, ''('') # commas tss @ [(TOKEN_RPARENS, '')'')]"
  note seg = seg_commas_reads[OF tss]
  have "op_step 0 TOKEN_INVALID 0 None (TOKEN_IDENTIFIER, x) = None" "fn_call_step 0 0 None (TOKEN_IDENTIFIER, x) False = None"
    by (simp_all add: op_step_def fn_call_step_def)
  then have scan: "scan_operators 0 TOKEN_INVALID 0 None None ?ts = (None, Some (1, (TOKEN_LPARENS, ''('')))"
    using scan_call_group[OF seg, of 1 TOKEN_IDENTIFIER None] by (simp add: bracket_step_def)
  have count: "count_type TOKEN_LPARENS ?ts = count_type TOKEN_RPARENS ?ts"
    using seg_count[OF seg] by (simp add: count_type_def)
  have args: "parse_args (parse_within env h) (commas tss) sy = Inr (es, sy)" by (rule parse_args_commas[OF tss])
  have "parse_atom env (parse_within env h) h ?ts sy = (case create_function env x es sy of
      Some (Inr f) \<Rightarrow> Inr (Some f, sy) | _ \<Rightarrow> Inr (None, sy))"
    using count args err
    by (auto simp: parse_atom_def parse_named_call_def numeral_2_eq_2 split: option.split sum.split)
  moreover have "parse_operator (parse_within env h) ?ts (1, (TOKEN_LPARENS, ''('')) sy = Inr (ECall (identifier_value sy x) es, sy)"
    using args within_identifier[of env h x sy] by (simp add: parse_operator_def)
  ultimately show ?thesis
    using within_atom[OF _ _ scan] e err by (auto split: option.splits sum.splits)
qed

lemma within_method:
  assumes l: "reads (parse_within env h) sy 14 ts e" and tss: "list_all2 (reads (parse_within env h) sy 0) tss es"
  shows "parse_within env h (ts @ [(TOKEN_OPERATOR, ''.''), (TOKEN_IDENTIFIER, x)]
    @ (TOKEN_LPARENS, ''('') # commas tss @ [(TOKEN_RPARENS, '')'')]) sy = Inr (ECall (EDot e (identifier_value None x)) es, sy)"
proof -
  let ?group = "(TOKEN_LPARENS, ''('') # commas tss @ [(TOKEN_RPARENS, '')'')]"
  let ?ts = "ts @ [(TOKEN_OPERATOR, ''.''), (TOKEN_IDENTIFIER, x)] @ ?group"
  have fn: "fn_call_step i 0 fn (TOKEN_LPARENS, ''('') False = fn_call_step i 0 None (TOKEN_LPARENS, ''('') False" if "0 < i" for i fn
    using that by (simp add: fn_call_step_def)
  obtain fn' where "scan_operators 0 TOKEN_INVALID 0 None None ?ts
      = scan_operators (length ts + 2) TOKEN_IDENTIFIER 0 (Some (length ts, (TOKEN_OPERATOR, ''.''))) fn' ?group"
    using scan_dot[OF readsD(2,1)[OF l], of TOKEN_INVALID x ?group] by auto
  also have "\<dots> = scan_operators (length ts + 2) TOKEN_IDENTIFIER 0 (Some (length ts, (TOKEN_OPERATOR, ''.''))) None ?group"
    using fn[of "length ts + 2" fn'] by simp
  also have "\<dots> = (Some (length ts, (TOKEN_OPERATOR, ''.'')), Some (length ts + 2, (TOKEN_LPARENS, ''('')))"
    by (rule scan_call_group[OF seg_commas_reads[OF tss]]) simp
  finally have scan: "scan_operators 0 TOKEN_INVALID 0 None None ?ts = \<dots>" .
  have "parse_within env h ?ts sy = parse_operator (parse_within env h) ?ts (length ts + 2, (TOKEN_LPARENS, ''('')) sy"
    by (subst parse_within.simps) (use readsD(1,6)[OF l] scan in \<open>simp add: parse_expression_internal_def\<close>)
  then show ?thesis
    using parse_args_commas[OF tss] within_dot[OF l, of x] by (simp add: parse_operator_def)
qed

section \<open>The parser reads the grammar\<close>

lemma derived_reads:
  "derives env sy p ts e \<Longrightarrow> parse_within env h ts sy = Inr (e, sy) \<Longrightarrow> reads (parse_within env h) sy p ts e"
  using derives_range by (auto simp: reads_def)

lemma all_reads:
  "list_all2 (\<lambda>ts e. derives env sy p ts e \<and> parse_within env h ts sy = Inr (e, sy)) tss es \<Longrightarrow>
    list_all2 (reads (parse_within env h) sy p) tss es"
  by (erule list_all2_mono) (auto intro: derived_reads)

lemma reads_seg: "list_all2 (reads f sy p) tss es \<Longrightarrow> ts \<in> set tss \<Longrightarrow> seg (\<lambda>_. True) ts"
  by (erule list_all2_left) (rule seg_any[OF readsD(2)])

lemma derives_within: "derives env sy p ts e \<Longrightarrow> parse_within env h ts sy = Inr (e, sy)"
proof (induction rule: derives.induct)
  case (d_integer p s)
  show ?case by (rule within_single) (simp_all add: parse_single_def)
next
  case (d_decimal s d p)
  then show ?case by (intro within_single) (simp_all add: parse_single_def)
next
  case (d_string s p)
  then show ?case by (intro within_single) (simp_all add: parse_single_def string_expression_simple)
next
  case (d_identifier p x)
  show ?case by (rule within_identifier)
next
  case (d_constant p x)
  show ?case by (rule within_single) (simp_all add: parse_single_def)
next
  case (d_null p)
  show ?case by (rule within_single) (simp_all add: parse_single_def)
next
  case (d_bool p b)
  show ?case by (rule within_single) (simp_all add: parse_single_def)
next
  case (d_parens ts e p)
  then show ?case using within_parens[OF derived_reads] by blast
next
  case (d_list tss es p)
  then show ?case by (intro within_list all_reads)
next
  case (d_comprehension ts e xs gss ges fss fes p)
  note e = derived_reads[OF d_comprehension.hyps(1) d_comprehension.IH(1)]
  note g = all_reads[OF d_comprehension.IH(2)]
  note f = all_reads[OF d_comprehension.IH(3)]
  have "seg (\<lambda>_. True) us" if "us \<in> set gss \<union> set fss" for us using that reads_seg[OF g] reads_seg[OF f] by blast
  from within_comprehension[OF e d_comprehension.hyps(2-4) g f seg_comprehension[OF seg_any[OF readsD(2)[OF e]] this]]
  show ?case by simp
next
  case (d_map kss kes vss ves p)
  let ?str = "string_expression env (parse_within env h) h False"
  have k: "list_all2 (reads_key (parse_within env h) ?str sy) kss kes"
    using d_map.IH(1) by (rule list_all2_mono) (auto simp: reads_key_def string_expression_simple derived_reads)
  note v = all_reads[OF d_map.IH(2)]
  have "seg (\<lambda>_. True) us" if "us \<in> set kss" for us
    using that by (rule list_all2_left[OF k, rotated]) (auto simp: reads_key_def intro!: seg_single dest: seg_any[OF readsD(2)])
  then have "seg (\<lambda>_. True) us" if "us \<in> set kss \<union> set vss" for us using that reads_seg[OF v] by blast
  from within_map[OF k v d_map.hyps seg_entries[OF this]] show ?case by simp
next
  case (d_unary s q p ts e)
  have "range_ok p ((TOKEN_OPERATOR, s) # ts)" using derives.d_unary[OF d_unary.hyps] derives_range by blast
  then show ?case using within_unary[OF d_unary.hyps(1,2) derived_reads[OF d_unary.hyps(4) d_unary.IH]] by blast
next
  case (d_binary s q p ls l rs r)
  have "range_ok p (ls @ (TOKEN_OPERATOR, s) # rs)" using derives.d_binary[OF d_binary.hyps] derives_range by blast
  then show ?case
    using within_binary[OF d_binary.hyps(1,2) derived_reads[OF d_binary.hyps(4) d_binary.IH(1)]
        derived_reads[OF d_binary.hyps(5) d_binary.IH(2)]] by blast
next
  case (d_where p ts e x gs g)
  then show ?case
    using within_where[OF derived_reads[OF d_where.hyps(2) d_where.IH(1)], of "[x]" "[gs]" "[g]"]
      derived_reads[OF d_where.hyps(4) d_where.IH(2)] by (simp add: bindings_def)
next
  case (d_where_parens ts e xs gss ges p)
  note e = derived_reads[OF d_where_parens.hyps(1) d_where_parens.IH(1)]
  note g = all_reads[OF d_where_parens.IH(2)]
  note seg = seg_where_range[OF seg_any[OF readsD(2)[OF e]] reads_seg[OF g], where xs = xs]
  have "parse_atom env (parse_within env h) h (tok TOKEN_LPARENS ''('' # where_range ts xs gss @ [tok TOKEN_RPARENS '')'']) sy
      = Inr (Some (EWhere e (bindings xs ges)), sy)"
    by (simp add: parse_atom_def within_where[OF e d_where_parens.hyps(2-4) g])
  from within_group[OF pair_parens seg this] show ?case by simp
next
  case (d_dot p ts e x)
  show ?case by (rule within_dot[OF derived_reads[OF d_dot.hyps(2) d_dot.IH]])
next
  case (d_index p ts e ks k)
  show ?case
    by (rule within_index[OF derived_reads[OF d_index.hyps(2) d_index.IH(1)] derived_reads[OF d_index.hyps(3) d_index.IH(2)]
          d_index.hyps(4)])
next
  case (d_slice p ts e b bs c cs)
  have "reads_bound (parse_within env h) sy bs b" "reads_bound (parse_within env h) sy cs c"
    using d_slice.hyps d_slice.IH derived_reads unfolding reads_bound_def by blast+
  from within_slice[OF derived_reads[OF d_slice.hyps(2) d_slice.IH(1)] this] show ?case using d_slice by simp
next
  case (d_call tss es e x p)
  show ?case by (rule within_call[OF all_reads[OF d_call.IH] d_call.hyps(1,2)])
next
  case (d_method p ts e tss es x)
  show ?case by (rule within_method[OF derived_reads[OF d_method.hyps(2) d_method.IH(1)] all_reads[OF d_method.IH(2)]])
qed

text \<open>A whole formula: an expression, where several bindings need no parentheses.\<close>

inductive derives_formula :: "parse_env \<Rightarrow> symbols \<Rightarrow> token list \<Rightarrow> formula \<Rightarrow> bool" for env sy where
  f_expression: "derives env (Some sy) 0 ts e \<Longrightarrow> derives_formula env sy ts (Formula [] e)"
| f_where: "derives env (Some sy) 3 ts e \<Longrightarrow> xs \<noteq> [] \<Longrightarrow> [] \<notin> set xs \<Longrightarrow> length xs = length gss \<Longrightarrow>
    list_all2 (derives env (Some sy) 8) gss ges \<Longrightarrow>
    derives_formula env sy (where_range ts xs gss) (Formula [] (EWhere e (bindings xs ges)))"

lemma seg_balanced: "seg P ts \<Longrightarrow> balanced (map fst ts)"
proof (induction rule: seg.induct)
  case (seg_nest l r xs P ys)
  have "is_close (fst r)" "fst l = opener (fst r)" using seg_nest.hyps(1) by (auto simp: bracket_pair_def opener_def)
  then show ?case using balanced_nest[of "fst r"] seg_nest.IH by simp
qed (auto intro: balanced.intros)

lemma seg_brackets_match: "seg P ts \<Longrightarrow> check_brackets_match ts = None"
proof -
  assume "seg P ts"
  then have "accepts [] (map fst ts)" using balanced_accepts[OF seg_balanced, of P ts "[]" "[]"] by simp
  then show ?thesis using check_brackets_accepts[of 0 "[]" ts] by (auto simp: check_brackets_match_def split: prod.splits list.splits)
qed

lemma derives_formula_within:
  assumes "derives_formula env sy ts f"
  shows "\<exists>e. f = Formula [] e \<and> seg (\<lambda>_. True) ts \<and> ts \<noteq> [] \<and> hd ts \<noteq> (TOKEN_KEYWORD, ''base'')
    \<and> parse_within env h ts (Some sy) = Inr (e, Some sy)"
  using assms
proof cases
  case (f_expression e)
  then show ?thesis
    using derives_within[OF f_expression(2)] derives_range[OF f_expression(2)] range_seg[of 0 ts] by (simp add: range_ok_def)
next
  case (f_where us e xs gss ges)
  note e = derived_reads[OF f_where(3) derives_within[OF f_where(3)], of h]
  have g: "list_all2 (reads (parse_within env h) (Some sy) 8) gss ges"
    using f_where(7) by (rule list_all2_mono) (auto intro: derived_reads derives_within)
  have "seg (\<lambda>_. True) ts" unfolding f_where(1) by (rule seg_where_range[OF seg_any[OF readsD(2)[OF e]] reads_seg[OF g]])
  moreover have "ts \<noteq> []" "hd ts \<noteq> (TOKEN_KEYWORD, ''base'')" using readsD(1,7)[OF e] f_where(1) by (auto simp: where_range_def)
  ultimately show ?thesis using within_where[OF e f_where(4-6) g] f_where(1,2) by auto
qed

lemma parse_expression_within: "\<exists>h. parse_expression env d = parse_within env h"
  by (cases d) auto

text \<open>C2: A formula whose tokens the grammar derives is parsed to the tree that the grammar gives it: operators by
  their precedence, equal ones to the left, calls, lists, maps, comprehensions, indexes, slices, members and
  \<open>where\<close> clauses. In particular the parser accepts it, the tree is the only one the grammar has for it, and the
  symbol table is unchanged.\<close>

theorem parser_follows_grammar:
  assumes "tokenize s = Inr ts"
    and "derives_formula env (case sy of None \<Rightarrow> new_symbols | Some table \<Rightarrow> table) ts f"
  shows "parse_formula env d s sy = Inr (f, sy)"
proof -
  obtain h where h: "parse_expression env d = parse_within env h" using parse_expression_within by blast
  let ?table = "case sy of None \<Rightarrow> new_symbols | Some table \<Rightarrow> table"
  obtain e where e: "f = Formula [] e" "seg (\<lambda>_. True) ts" "ts \<noteq> []" "hd ts \<noteq> (TOKEN_KEYWORD, ''base'')"
    "parse_within env h ts (Some ?table) = Inr (e, Some ?table)"
    using derives_formula_within[OF assms(2)] by blast
  have "formula_of_tokens (parse_within env h) ts (Some ?table) = Inr (f, Some ?table)"
    using e seg_brackets_match[OF e(2)] by (simp add: formula_of_tokens_def)
  then show ?thesis
    using assms(1) h by (cases sy) (simp_all add: parse_formula_def parse_formula_text_def parse_formula_tokens_def)
qed

text \<open>An environment without types, translations and functions of the engine, for the examples.\<close>

definition plain_env :: parse_env where
  "plain_env = \<lparr>verbatim_strings = False, translated = (\<lambda>s. s), known_type = (\<lambda>_. False), builtin_limits = (\<lambda>_. None)\<rparr>"

lemma parser_follows_grammar_witness:
  "parse_formula plain_env 0 ''a + b * 2 where b = c[0]'' None
    = Inr (Formula [] (EWhere (EBinary ''+'' (EIdent ''a'' None) (EBinary ''*'' (EIdent ''b'' None) (EInt 2)))
        [(''b'', EIndex (EIdent ''c'' None) (EInt 0))]), None)"
proof (rule parser_follows_grammar)
  let ?sy = "Some new_symbols"
  let ?body = "[(TOKEN_IDENTIFIER, ''a''), (TOKEN_OPERATOR, ''+''), (TOKEN_IDENTIFIER, ''b''), (TOKEN_OPERATOR, ''*''),
    (TOKEN_INTEGER, ''2'')]"
  let ?bound = "[(TOKEN_IDENTIFIER, ''c''), (TOKEN_LSQUARE, ''[''), (TOKEN_INTEGER, ''0''), (TOKEN_RSQUARE, '']'')]"
  show "tokenize ''a + b * 2 where b = c[0]'' = Inr (where_range ?body [''b''] [?bound])" by code_simp
  have ident: "derives plain_env ?sy p [(TOKEN_IDENTIFIER, x)] (EIdent x None)" for p x
    using d_identifier[of plain_env ?sy p x] by (simp add: identifier_value_def get_formula_function_def new_symbols_def)
  have number: "derives plain_env ?sy p [(TOKEN_INTEGER, ''2'')] (EInt 2)" "derives plain_env ?sy p [(TOKEN_INTEGER, ''0'')] (EInt 0)" for p
  proof -
    have "integer_literal ''2'' = 2" "integer_literal ''0'' = 0" by code_simp+
    then show "derives plain_env ?sy p [(TOKEN_INTEGER, ''2'')] (EInt 2)" "derives plain_env ?sy p [(TOKEN_INTEGER, ''0'')] (EInt 0)"
      using d_integer[of plain_env ?sy p "''2''"] d_integer[of plain_env ?sy p "''0''"] by simp_all
  qed
  have "derives plain_env ?sy 9 ([(TOKEN_IDENTIFIER, ''b'')] @ (TOKEN_OPERATOR, ''*'') # [(TOKEN_INTEGER, ''2'')])
      (EBinary ''*'' (EIdent ''b'' None) (EInt 2))"
    by (rule d_binary[OF _ _ _ ident number(1)]) code_simp+
  then have "derives plain_env ?sy 3 ([(TOKEN_IDENTIFIER, ''a'')] @ (TOKEN_OPERATOR, ''+'')
      # ([(TOKEN_IDENTIFIER, ''b'')] @ (TOKEN_OPERATOR, ''*'') # [(TOKEN_INTEGER, ''2'')]))
      (EBinary ''+'' (EIdent ''a'' None) (EBinary ''*'' (EIdent ''b'' None) (EInt 2)))"
    by (intro d_binary[of "''+''" 8, OF _ _ _ ident]) (code_simp, code_simp, simp_all)
  then have body: "derives plain_env ?sy 3 ?body (EBinary ''+'' (EIdent ''a'' None) (EBinary ''*'' (EIdent ''b'' None) (EInt 2)))"
    by simp
  have bound: "derives plain_env ?sy 8 ?bound (EIndex (EIdent ''c'' None) (EInt 0))"
    using d_index[of 8 plain_env ?sy "[(TOKEN_IDENTIFIER, ''c'')]", OF _ ident number(2)] by simp
  have "list_all2 (derives plain_env ?sy 8) [?bound] [EIndex (EIdent ''c'' None) (EInt 0)]" using bound by simp
  from f_where[OF body _ _ _ this, of "[''b'']"]
  show "derives_formula plain_env (case None of None \<Rightarrow> new_symbols | Some table \<Rightarrow> table) (where_range ?body [''b''] [?bound])
     (Formula [] (EWhere (EBinary ''+'' (EIdent ''a'' None) (EBinary ''*'' (EIdent ''b'' None) (EInt 2)))
        [(''b'', EIndex (EIdent ''c'' None) (EInt 0))]))"
    by (simp add: bindings_def)
qed

section \<open>The operators of the tokenizer\<close>

lemma word_operator:
  assumes "scan_class (c # cs) = Inr (TOKEN_OPERATOR, r)"
  shows "\<exists>w. c # cs = w @ r \<and> w \<in> set Operators"
proof -
  have "word_type (c # takeWhile ident_char cs) = TOKEN_OPERATOR" "r = dropWhile ident_char cs"
    using assms by (auto simp: scan_class_def Let_def split: if_splits)
  then have "c # takeWhile ident_char cs \<in> set Operators" "c # cs = (c # takeWhile ident_char cs) @ r"
    by (auto simp: word_type_def split: if_splits)
  then show ?thesis by blast
qed

lemma switch_char_type:
  assumes "switch_char c cs = Some (Inr (ty, r))"
  shows "ty \<in> {TOKEN_COMMENT, TOKEN_STRING_LITERAL, TOKEN_LEFT_POINTER, TOKEN_OPERATOR, TOKEN_POINTER, TOKEN_INTEGER}"
proof (rule ccontr)
  assume "\<not> ?thesis"
  then show False using assms by (auto simp: switch_char_def Let_def split: if_splits list.splits option.splits)
qed

lemma scan_class_type:
  "scan_class s = Inr (ty, r) \<Longrightarrow> ty \<noteq> TOKEN_LPARENS \<and> ty \<noteq> TOKEN_LSQUARE"
  by (auto simp: scan_class_def word_type_def Let_def split: if_splits)

lemma symbol_operator:
  assumes "switch_char c cs = Some (Inr (TOKEN_OPERATOR, r))"
  shows "\<exists>w. c # cs = w @ r \<and> w \<in> {''<'', ''>'', ''<='', ''>='', ''!='', ''-'', ''d''}"
  using assms by (cases cs) (auto simp: switch_char_def split: if_splits list.splits option.splits)

lemma known_operators:
  "\<forall>w \<in> {''<'', ''>'', ''<='', ''>='', ''!='', ''-'', ''d'', ''('', ''[''} \<union> set Operators. map_of precedence_map w \<noteq> None"
  by (simp add: precedence_map_def Operators_def)

lemma operator_token_text:
  assumes "scan_token s = Inr (TOKEN_OPERATOR, r)"
  shows "\<exists>w. s = w @ r \<and> map_of precedence_map w \<noteq> None"
proof (cases s)
  case (Cons c cs)
  consider "single_char_tokens c = TOKEN_OPERATOR" "r = cs" | "switch_char c cs = Some (Inr (TOKEN_OPERATOR, r))"
    | "scan_class s = Inr (TOKEN_OPERATOR, r)"
    using assms Cons by (auto simp: scan_token_def split: if_splits option.splits)
  then show ?thesis
  proof cases
    case 1
    then have "c \<in> set ''.+*/=%^''" by (auto simp: single_char_tokens_def split: if_splits)
    then show ?thesis using 1 Cons by (intro exI[of _ "[c]"]) (auto simp: precedence_map_def)
  next
    case 2
    then show ?thesis using symbol_operator[OF 2] Cons known_operators by blast
  next
    case 3
    then show ?thesis using word_operator[of c cs r] Cons known_operators by blast
  qed
qed (use assms in \<open>simp add: scan_token_def\<close>)

lemma get_token_operator: "get_token s = Inr ((TOKEN_OPERATOR, w), r) \<Longrightarrow> map_of precedence_map w \<noteq> None"
  by (auto simp: get_token_def split: sum.splits prod.splits dest!: operator_token_text)

lemma bracket_token_text:
  assumes "scan_token s = Inr (ty, r)" and "ty = TOKEN_LPARENS \<or> ty = TOKEN_LSQUARE"
  shows "\<exists>w. s = w @ r \<and> w \<in> {''('', ''[''}"
proof (cases s)
  case (Cons c cs)
  consider "single_char_tokens c = ty" "r = cs" | "switch_char c cs = Some (Inr (ty, r))" | "scan_class s = Inr (ty, r)"
    using assms Cons by (auto simp: scan_token_def split: if_splits option.splits)
  then show ?thesis
  proof cases
    case 1
    then have "c = CHR ''('' \<or> c = CHR ''[''" using assms(2) by (auto simp: single_char_tokens_def split: if_splits)
    then show ?thesis using 1 Cons by (intro exI[of _ "[c]"]) auto
  next
    case 2
    then show ?thesis using switch_char_type[OF 2] assms(2) by auto
  next
    case 3
    then show ?thesis using scan_class_type[OF 3] assms(2) by auto
  qed
qed (use assms in \<open>simp add: scan_token_def\<close>)

lemma get_token_precedence:
  assumes "get_token s = Inr ((ty, w), r)" and "ty \<in> {TOKEN_OPERATOR, TOKEN_LSQUARE, TOKEN_LPARENS}"
  shows "map_of precedence_map w \<noteq> None"
proof -
  have t: "scan_token s = Inr (ty, r)" "w = take (length s - length r) s"
    using assms(1) by (auto simp: get_token_def split: sum.splits)
  have "\<exists>v. s = v @ r \<and> map_of precedence_map v \<noteq> None"
  proof (cases "ty = TOKEN_OPERATOR")
    case True
    then show ?thesis using operator_token_text[of s r] t(1) by simp
  next
    case False
    then obtain v where v: "s = v @ r" "v \<in> {''('', ''[''}" using bracket_token_text[OF t(1)] assms(2) by auto
    then have "map_of precedence_map v \<noteq> None" using known_operators by auto
    then show ?thesis using v(1) by blast
  qed
  then obtain v where "s = v @ r" "map_of precedence_map v \<noteq> None" by blast
  then show ?thesis using t(2) by simp
qed

text \<open>C20: Every operator and every opening bracket that the tokenizer delivers is in the table of precedences: the
  assertion of \<open>operator_precedence\<close> never fails.\<close>

theorem tokenizer_operators:
  assumes "tokenize s = Inr ts" and "t \<in> set ts" and "fst t \<in> {TOKEN_OPERATOR, TOKEN_LSQUARE, TOKEN_LPARENS}"
  shows "map_of precedence_map (snd t) = Some (operator_precedence t)"
proof -
  have "map_of precedence_map (snd t) \<noteq> None" using assms
  proof (induction s arbitrary: ts rule: tokenize.induct)
    case (1 s)
    have ne: "s \<noteq> []" using 1(2,3) by (auto simp: tokenize.simps[of s])
    obtain u r where u: "get_token s = Inr (u, r)" using 1(2) ne by (auto simp: tokenize.simps[of s] split: sum.splits)
    obtain us where "tokenize r = Inr us" "set ts \<subseteq> insert u (set us)"
      using 1(2) ne u by (auto simp: tokenize.simps[of s] split: sum.splits if_splits)
    then show ?case
      using "1.IH"[OF ne u refl] 1(3,4) get_token_precedence[of s "fst t" "snd t" r] u by auto
  qed
  then show ?thesis by (auto simp: operator_precedence_def)
qed

lemma tokenizer_operators_witness:
  "map_of precedence_map ''!='' = Some (operator_precedence (TOKEN_OPERATOR, ''!=''))"
proof -
  have "tokenize ''a!=b'' = Inr [(TOKEN_IDENTIFIER, ''a''), (TOKEN_OPERATOR, ''!=''), (TOKEN_IDENTIFIER, ''b'')]" by code_simp
  from tokenizer_operators[OF this, of "(TOKEN_OPERATOR, ''!='')"] show ?thesis by simp
qed

section \<open>Translations\<close>

text \<open>The constructors of the parser use the parser for translations only on the substitutions of a translation.\<close>

definition no_substitutions :: "parse_env \<Rightarrow> bool" where
  "no_substitutions env \<longleftrightarrow> (\<forall>s. take_substitution (translated env s) = None)"

lemma string_expression_depth:
  "no_substitutions env \<Longrightarrow> string_expression env f h = string_expression env f h'"
  by (intro ext) (simp add: string_expression_def no_substitutions_def substitutions.simps Let_def split: prod.split)

lemma parse_within_depth:
  assumes "no_substitutions env"
  shows "parse_within env h ts sy = parse_within env h' ts sy"
proof (induction "weight ts" arbitrary: ts sy rule: less_induct)
  case less
  have "parse_expression_internal env f h ts sy = parse_expression_internal env f h' ts sy" for f
    unfolding parse_expression_internal_def parse_atom_def parse_single_def string_expression_depth[OF assms, of f h h'] ..
  then have "parse_within env h ts sy = parse_expression_internal env (parse_within env h) h' ts sy"
    by (simp add: parse_within.simps[of env h])
  also have "\<dots> = parse_expression_internal env (parse_within env h') h' ts sy"
    by (rule parse_expression_internal_cong) (use less in auto)
  finally show ?case by (simp add: parse_within.simps[of env h'])
qed



section \<open>Formulas that are read in an unexpected way\<close>

text \<open>A range that begins with \<open>(\<close> and ends with \<open>)\<close> is taken for a group, also when these do not match.\<close>

lemma call_of_group_not_parsed: "parse_formula plain_env 0 ''(f)(x)'' None = Inl Could_Not_Parse"
  by code_simp

text \<open>Arguments of a call of a name are taken up to the last parenthesis, also when that belongs to another call.\<close>

lemma call_of_call_not_parsed: "parse_formula plain_env 0 ''f(x)(y)'' None = Inl Could_Not_Parse"
  by code_simp

text \<open>A sign behind an operator is not unary.\<close>

lemma minus_behind_operator: "parse_formula plain_env 0 ''2 * -3'' None = Inl Empty_Expression"
  by code_simp

text \<open>The last clause of a \<open>where\<close> without a value is dropped.\<close>

lemma where_clause_dropped:
  "parse_formula plain_env 0 ''x where y = 1, z ='' None
    = Inr (Formula [] (EWhere (EIdent ''x'' None) [(''y'', EInt 1)]), None)"
  by code_simp

text \<open>An argument without a default behind one with a default is dropped.\<close>

lemma argument_dropped:
  "parse_formula plain_env 0 ''def f(a, b = 1, c) a; f(1, 2)'' None
    = Inr (Formula [] (EFunction ''f'' [EInt 1, EInt 2]), None)"
  by code_simp

text \<open>What follows a lambda is ignored.\<close>

lemma lambda_rest_ignored:
  "parse_formula plain_env 0 ''def(x) x; y + '' None
    = Inr (Formula [] (ELambda [''x''] (Formula [] (EIdent ''x'' None)) []), None)"
  by code_simp

text \<open>A colon in a map between square brackets is taken for that of a slice.\<close>

lemma map_as_index_not_parsed: "parse_formula plain_env 0 ''a[{x: 1}]'' None = Inl Could_Not_Parse"
  by code_simp

text \<open>A number that begins with 0 is octal.\<close>

lemma leading_zero_octal: "parse_formula plain_env 0 ''010'' None = Inr (Formula [] (EInt 8), None)"
  by code_simp

end
