(* ===== verification/CT_Pathfinding.thy ===== *)
theory CT_Pathfinding
  imports CT_Geometry CT_Variant "HOL-Library.Multiset"
begin

text \<open>
  The searches in weighted graphs of \<open>src/pathfinding.hpp\<close> and \<open>src/pathfinding.cpp\<close>, and the tiles around a
  point. The nodes are of any type; in the program they are values of formulas, kept in maps by their order, which
  \<open>CT_Variant\<close> shows to be total with its equality for plain values. Costs are the raw values of decimals, without
  the overflow. The heuristic, a formula, is a parameter, and so is \<open>std::sort\<close>, which leaves the order of
  equal elements open. Both loops may run forever; \<open>None\<close> is that a search does not return.
\<close>

section \<open>Graphs\<close>

record 'n graph_node =
  cost_f :: int
  cost_g :: int
  cost_h :: int
  parent :: "'n option"
  on_open_list :: bool
  on_closed_list :: bool

definition new_node :: "'n graph_node" where
  "new_node = \<lparr>cost_f = 0, cost_g = 0, cost_h = 0, parent = None, on_open_list = False, on_closed_list = False\<rparr>"

text \<open>The assignment in \<open>G(T g)\<close> is to its argument: the cost stays as it is.\<close>

definition set_G :: "int \<Rightarrow> 'n graph_node \<Rightarrow> 'n graph_node" where
  "set_G g n = n\<lparr>cost_f := cost_f n + (g - cost_g n)\<rparr>"

definition set_cost :: "int \<Rightarrow> int \<Rightarrow> 'n graph_node \<Rightarrow> 'n graph_node" where
  "set_cost g h n = n\<lparr>cost_g := g, cost_h := h, cost_f := g + h\<rparr>"

definition reset_node :: "'n graph_node \<Rightarrow> 'n graph_node" where
  "reset_node n = n\<lparr>on_open_list := False, on_closed_list := False, cost_f := 0, cost_g := 0, cost_h := 0, parent := None\<rparr>"

record 'n weighted_directed_graph =
  vertices :: "'n list"
  edges :: "('n \<times> 'n list) list"
  weights :: "(('n \<times> 'n) \<times> int) list"

datatype 'n PathfindingException = Node_Not_Found 'n | Weight_Not_Found 'n 'n | No_Path

type_synonym 'n nodes = "'n \<Rightarrow> 'n graph_node"

text \<open>The nodes of the graph, as the constructor makes them and as every search leaves them.\<close>

definition initial_nodes :: "'n nodes" where
  "initial_nodes = (\<lambda>v. new_node)"

definition reset_graph :: "'n nodes \<Rightarrow> 'n nodes" where
  "reset_graph ns = (\<lambda>v. reset_node (ns v))"

lemma reset_graph_initial: "reset_graph ns = initial_nodes"
  by (simp add: reset_graph_def initial_nodes_def reset_node_def new_node_def fun_eq_iff)

definition get_edges_from_node :: "'n weighted_directed_graph \<Rightarrow> 'n \<Rightarrow> 'n list" where
  "get_edges_from_node G v = (case map_of (edges G) v of Some es \<Rightarrow> es | None \<Rightarrow> [])"

definition get_weight :: "'n weighted_directed_graph \<Rightarrow> 'n \<Rightarrow> 'n \<Rightarrow> 'n PathfindingException + int" where
  "get_weight G s d = (case map_of (weights G) (s, d) of Some w \<Rightarrow> Inr w | None \<Rightarrow> Inl (Weight_Not_Found s d))"

definition get_graph_node :: "'n weighted_directed_graph \<Rightarrow> 'n nodes \<Rightarrow> 'n \<Rightarrow> 'n PathfindingException + 'n graph_node" where
  "get_graph_node G ns v = (if v \<in> set (vertices G) then Inr (ns v) else Inl (Node_Not_Found v))"

section \<open>The searches\<close>

text \<open>What is asked of \<open>std::sort\<close>: a permutation of the list, ordered by the key.\<close>

locale sorter =
  fixes srt :: "('n \<Rightarrow> int) \<Rightarrow> 'n list \<Rightarrow> 'n list"
  assumes srt_mset: "mset (srt k xs) = mset xs"
    and srt_sorted: "sorted (map k (srt k xs))"
begin

lemma srt_set [simp]: "set (srt k xs) = set xs"
  using srt_mset[of k xs] by (metis set_mset_mset)

lemma srt_distinct [simp]: "distinct (srt k xs) \<longleftrightarrow> distinct xs"
  using srt_mset[of k xs] by (metis mset_eq_imp_distinct_iff)

lemma srt_length [simp]: "length (srt k xs) = length xs"
  using srt_mset[of k xs] by (metis size_mset)

lemma srt_hd: "x \<in> set xs \<Longrightarrow> k (hd (srt k xs)) \<le> k x"
proof (cases "srt k xs")
  case (Cons a ys)
  assume "x \<in> set xs"
  then have "x \<in> set (a # ys)" using srt_set[of k xs] Cons by simp
  then show ?thesis using srt_sorted[of k xs] Cons by auto
qed (use srt_set[of k xs] in simp)

end

interpretation insertion: sorter sort_key
  by unfold_locales simp_all

text \<open>
  An edge of the current node. The first argument is the estimate of the rest of the way, the second the limit of a
  search by cost: a node that costs more is put on the closed list.
\<close>

type_synonym 'n search = "'n nodes \<times> 'n list"

definition visit_edge :: "('n \<Rightarrow> int) \<Rightarrow> int option \<Rightarrow> (('n \<Rightarrow> int) \<Rightarrow> 'n list \<Rightarrow> 'n list) \<Rightarrow> 'n weighted_directed_graph \<Rightarrow> 'n \<Rightarrow> 'n \<Rightarrow>
    'n search \<Rightarrow> 'n PathfindingException + 'n search" where
  "visit_edge heuristic max_cost srt G current e s = (case s of (ns, open_list) \<Rightarrow>
     (case get_graph_node G ns e of
        Inl x \<Rightarrow> Inl x
      | Inr neighbour \<Rightarrow> (case get_weight G current e of
          Inl x \<Rightarrow> Inl x
        | Inr w \<Rightarrow>
            (let g_cost = cost_g (ns current) + w;
                 (ns, open_list) =
                   (if on_closed_list neighbour \<or> on_open_list neighbour
                    then (if g_cost < cost_g neighbour then (ns(e := (set_G g_cost neighbour)\<lparr>parent := Some current\<rparr>), open_list)
                          else (ns, open_list))
                    else (let n = set_cost g_cost (heuristic e) (neighbour\<lparr>parent := Some current\<rparr>)
                          in if (case max_cost of None \<Rightarrow> False | Some m \<Rightarrow> g_cost > m)
                             then (ns(e := n\<lparr>on_closed_list := True\<rparr>), open_list)
                             else (ns(e := n\<lparr>on_open_list := True\<rparr>), open_list @ [e])))
             in Inr (ns, srt (\<lambda>v. cost_f (ns v)) open_list)))))"

fun visit_edges :: "('n \<Rightarrow> int) \<Rightarrow> int option \<Rightarrow> (('n \<Rightarrow> int) \<Rightarrow> 'n list \<Rightarrow> 'n list) \<Rightarrow> 'n weighted_directed_graph \<Rightarrow> 'n \<Rightarrow> 'n list \<Rightarrow>
    'n search \<Rightarrow> 'n PathfindingException + 'n search" where
  "visit_edges heuristic max_cost srt G current [] s = Inr s"
| "visit_edges heuristic max_cost srt G current (e # es) s = (case visit_edge heuristic max_cost srt G current e s of
     Inl x \<Rightarrow> Inl x | Inr s \<Rightarrow> visit_edges heuristic max_cost srt G current es s)"

text \<open>The path from the parents, last node first.\<close>

partial_function (option) path_from :: "'n nodes \<Rightarrow> 'n option \<Rightarrow> 'n list \<Rightarrow> 'n list option" where
  "path_from ns p path = (case p of None \<Rightarrow> Some path | Some v \<Rightarrow> path_from ns (parent (ns v)) (v # path))"

text \<open>The first node of the open list is taken off it and put on the closed list.\<close>

definition close_node :: "'n \<Rightarrow> 'n nodes \<Rightarrow> 'n nodes" where
  "close_node v ns = ns(v := (ns v)\<lparr>on_open_list := False, on_closed_list := True\<rparr>)"

partial_function (option) a_star_loop :: "('n \<Rightarrow> int) \<Rightarrow> (('n \<Rightarrow> int) \<Rightarrow> 'n list \<Rightarrow> 'n list) \<Rightarrow> 'n weighted_directed_graph \<Rightarrow> 'n \<Rightarrow>
    'n search \<Rightarrow> ('n PathfindingException + 'n list) option" where
  "a_star_loop heuristic srt G dst s = (case s of
     (ns, []) \<Rightarrow> Some (Inl No_Path)
   | (ns, current # open_list) \<Rightarrow>
       if current = dst then map_option Inr (path_from ns (parent (ns current)) [dst])
       else (case visit_edges heuristic None srt G current (get_edges_from_node G current) (close_node current ns, open_list) of
               Inl x \<Rightarrow> Some (Inl x)
             | Inr s \<Rightarrow> a_star_loop heuristic srt G dst s))"

text \<open>The search starts with its first node, whose cost is 0.\<close>

definition start :: "'n \<Rightarrow> int \<Rightarrow> 'n nodes" where
  "start src h = initial_nodes(src := (set_cost 0 h new_node)\<lparr>on_open_list := True\<rparr>)"

definition a_star_search :: "('n \<Rightarrow> 'n \<Rightarrow> int) \<Rightarrow> (('n \<Rightarrow> int) \<Rightarrow> 'n list \<Rightarrow> 'n list) \<Rightarrow> 'n weighted_directed_graph \<Rightarrow> 'n \<Rightarrow> 'n \<Rightarrow>
    'n list option" where
  "a_star_search heuristic srt G src dst =
     (if src = dst then Some []
      else if src \<notin> set (vertices G) then Some []
      else map_option (\<lambda>r. case r of Inl x \<Rightarrow> [] | Inr path \<Rightarrow> path)
             (a_star_loop (\<lambda>a. heuristic a dst) srt G dst (start src (heuristic src dst), [src])))"

text \<open>The nodes found so far are the result also when an exception ends the search.\<close>

partial_function (option) cost_loop :: "int \<Rightarrow> (('n \<Rightarrow> int) \<Rightarrow> 'n list \<Rightarrow> 'n list) \<Rightarrow> 'n weighted_directed_graph \<Rightarrow> 'n list \<Rightarrow>
    'n search \<Rightarrow> 'n list option" where
  "cost_loop max_cost srt G reachable s = (case s of
     (ns, []) \<Rightarrow> Some reachable
   | (ns, current # open_list) \<Rightarrow>
       let reachable = (if cost_g (ns current) \<le> max_cost then reachable @ [current] else reachable)
       in (case visit_edges (\<lambda>_. 0) (Some max_cost) srt G current (get_edges_from_node G current) (close_node current ns, open_list) of
             Inl x \<Rightarrow> Some reachable
           | Inr s \<Rightarrow> cost_loop max_cost srt G reachable s))"

definition path_cost_search :: "(('n \<Rightarrow> int) \<Rightarrow> 'n list \<Rightarrow> 'n list) \<Rightarrow> 'n weighted_directed_graph \<Rightarrow> 'n \<Rightarrow> int \<Rightarrow> 'n list option" where
  "path_cost_search srt G src max_cost =
     (if src \<notin> set (vertices G) then Some [] else cost_loop max_cost srt G [] (start src 0, [src]))"

declare path_from.simps [code] and a_star_loop.simps [code] and cost_loop.simps [code]

section \<open>Tiles\<close>

definition get_midpoint :: "point \<Rightarrow> int \<Rightarrow> int \<Rightarrow> point option" where
  "get_midpoint p tile_size_x tile_size_y =
     (if tile_size_x = 0 \<or> tile_size_y = 0 then None
      else Some (Point ((px p sdiv tile_size_x) * tile_size_x + tile_size_x sdiv 2)
             ((py p sdiv tile_size_y) * tile_size_y + tile_size_y sdiv 2)))"

definition point_as_variant_list :: "point \<Rightarrow> variant" where
  "point_as_variant_list p = VList [VInt (px p), VInt (py p)]"

definition get_neighbours_from_rect :: "point \<Rightarrow> int \<Rightarrow> int \<Rightarrow> rect \<Rightarrow> bool \<Rightarrow> point list" where
  "get_neighbours_from_rect mid tile_size_x tile_size_y b allow_diagonals =
     (let x = px mid; y = py mid;
          west = x - tile_size_x \<ge> rx b; east = x + tile_size_x < rx2 b;
          north = y - tile_size_y \<ge> ry b; south = y + tile_size_y < ry2 b
      in (if west then [Point (x - tile_size_x) y] else []) @
         (if east then [Point (x + tile_size_y) y] else []) @
         (if north then [Point x (y - tile_size_y)] else []) @
         (if south then [Point x (y + tile_size_y)] else []) @
         (if allow_diagonals
          then (if west \<and> north then [Point (x - tile_size_x) (y - tile_size_y)] else []) @
               (if east \<and> north then [Point (x + tile_size_x) (y - tile_size_y)] else []) @
               (if west \<and> south then [Point (x - tile_size_x) (y + tile_size_y)] else []) @
               (if east \<and> south then [Point (x + tile_size_x) (y + tile_size_y)] else [])
          else []))"

definition clip_pt_to_rect :: "point \<Rightarrow> rect \<Rightarrow> point" where
  "clip_pt_to_rect p r =
     (let x = (if px p < rx r then rx r else px p); x = (if x > rx2 r then rx2 r else x);
          y = (if py p < ry r then ry r else py p); y = (if y > ry2 r then ry2 r else y)
      in Point x y)"

text \<open>A point clipped to a rectangle lies in it, and clipping keeps a point that does.\<close>

definition in_rect :: "point \<Rightarrow> rect \<Rightarrow> bool" where
  "in_rect p r \<longleftrightarrow> rx r \<le> px p \<and> px p \<le> rx2 r \<and> ry r \<le> py p \<and> py p \<le> ry2 r"

lemma clip_in_rect: "rx r \<le> rx2 r \<Longrightarrow> ry r \<le> ry2 r \<Longrightarrow> in_rect (clip_pt_to_rect p r) r"
  by (simp add: in_rect_def clip_pt_to_rect_def Let_def)

lemma clip_keeps: "in_rect p r \<Longrightarrow> clip_pt_to_rect p r = p"
  by (cases p) (simp add: in_rect_def clip_pt_to_rect_def Let_def)

text \<open>With square tiles the neighbours of a point of the rectangle are in it, on the grid of the point.\<close>

lemma neighbours_in_rect:
  assumes "in_rect p r" and "0 \<le> n" and "q \<in> set (get_neighbours_from_rect p n n r d)"
  shows "in_rect q r \<and> px q - px p \<in> {- n, 0, n} \<and> py q - py p \<in> {- n, 0, n}"
  using assms by (auto simp: get_neighbours_from_rect_def in_rect_def Let_def split: if_splits)

definition manhattan_distance :: "variant \<Rightarrow> variant \<Rightarrow> decimal option" where
  "manhattan_distance p1 p2 = do {
     v1 \<leftarrow> as_list_decimal p1;
     v2 \<leftarrow> as_list_decimal p2;
     if length v1 < 2 \<or> length v2 < 2 then None
     else do {
       x1 \<leftarrow> dec_minus (v1 ! 0) (v2 ! 0);
       x2 \<leftarrow> dec_minus (v1 ! 1) (v2 ! 1);
       a \<leftarrow> (if x1 < from_int 0 then dec_uminus x1 else Some x1);
       b \<leftarrow> (if x2 < from_int 0 then dec_uminus x2 else Some x2);
       dec_plus a b } }"

section \<open>Paths\<close>

fun is_path :: "'n weighted_directed_graph \<Rightarrow> 'n list \<Rightarrow> bool" where
  "is_path G [] \<longleftrightarrow> False"
| "is_path G [v] \<longleftrightarrow> v \<in> set (vertices G)"
| "is_path G (u # v # vs) \<longleftrightarrow> v \<in> set (get_edges_from_node G u) \<and> u \<in> set (vertices G) \<and> is_path G (v # vs)"

definition path_between :: "'n weighted_directed_graph \<Rightarrow> 'n \<Rightarrow> 'n \<Rightarrow> 'n list \<Rightarrow> bool" where
  "path_between G u v p \<longleftrightarrow> is_path G p \<and> hd p = u \<and> last p = v"

fun path_cost :: "'n weighted_directed_graph \<Rightarrow> 'n list \<Rightarrow> int" where
  "path_cost G (u # v # vs) = (case get_weight G u v of Inr w \<Rightarrow> w | Inl x \<Rightarrow> 0) + path_cost G (v # vs)"
| "path_cost G vs = 0"

text \<open>Every edge leads to a node of the graph and has a weight that is not negative.\<close>

definition wf_graph :: "'n weighted_directed_graph \<Rightarrow> bool" where
  "wf_graph G \<longleftrightarrow> (\<forall>u \<in> set (vertices G). \<forall>v \<in> set (get_edges_from_node G u).
     v \<in> set (vertices G) \<and> (\<exists>w. get_weight G u v = Inr w \<and> 0 \<le> w))"

lemma is_path_snoc:
  "is_path G (p @ [u]) \<Longrightarrow> v \<in> set (get_edges_from_node G u) \<Longrightarrow> v \<in> set (vertices G) \<Longrightarrow> is_path G (p @ [u, v])"
proof (induction p)
  case (Cons a p)
  then show ?case by (cases p) auto
qed simp

lemma path_cost_snoc: "path_cost G (p @ [u, v]) = path_cost G (p @ [u]) + (case get_weight G u v of Inr w \<Rightarrow> w | Inl x \<Rightarrow> 0)"
proof (induction p)
  case (Cons a p)
  then show ?case by (cases p) auto
qed simp

lemma path_between_step:
  assumes "path_between G s u p" and "v \<in> set (get_edges_from_node G u)" and "v \<in> set (vertices G)" and "get_weight G u v = Inr w"
  shows "path_between G s v (p @ [v]) \<and> path_cost G (p @ [v]) = path_cost G p + w"
proof -
  obtain q where q: "p = q @ [u]" using assms(1) by (cases p rule: rev_cases) (auto simp: path_between_def)
  have "hd (p @ [v]) = hd p" unfolding q by (cases q) auto
  then show ?thesis using assms q is_path_snoc[of G q u v] path_cost_snoc[of G q u v] by (simp add: path_between_def)
qed

lemma path_closed:
  assumes "is_path G p" and "hd p \<in> S" and "\<And>u v. u \<in> S \<Longrightarrow> v \<in> set (get_edges_from_node G u) \<Longrightarrow> v \<in> S"
  shows "last p \<in> S"
  using assms(1,2)
proof (induction p rule: induct_list012)
  case (3 u v vs)
  then have "v \<in> S" "is_path G (v # vs)" using assms(3)[of u v] by auto
  then show ?case using 3(2) by simp
qed auto

section \<open>Invariant of the searches\<close>

definition seen :: "'n nodes \<Rightarrow> 'n \<Rightarrow> bool" where
  "seen ns v \<longleftrightarrow> on_open_list (ns v) \<or> on_closed_list (ns v)"

text \<open>
  The open list has the open nodes, each once; an open node is not closed. To every node seen leads a path from the first
  one that costs no more than the node.
\<close>

definition search_inv :: "'n weighted_directed_graph \<Rightarrow> 'n \<Rightarrow> 'n search \<Rightarrow> bool" where
  "search_inv G src s \<longleftrightarrow> (case s of (ns, open_list) \<Rightarrow>
     distinct open_list \<and> (\<forall>v. v \<in> set open_list \<longleftrightarrow> on_open_list (ns v)) \<and> (\<forall>v. on_open_list (ns v) \<longrightarrow> \<not> on_closed_list (ns v))
     \<and> seen ns src \<and> cost_g (ns src) = 0
     \<and> (\<forall>v. seen ns v \<longrightarrow> v \<in> set (vertices G) \<and> 0 \<le> cost_g (ns v)
          \<and> (\<exists>p. path_between G src v p \<and> path_cost G p \<le> cost_g (ns v))))"

text \<open>
  The parents of the nodes seen, but for the first one: a parent costs less than its child or as much, and then it was
  found before it (\<open>rank\<close>).
\<close>

definition parent_inv :: "'n weighted_directed_graph \<Rightarrow> 'n \<Rightarrow> 'n nodes \<Rightarrow> bool" where
  "parent_inv G src ns \<longleftrightarrow> (\<exists>rank N. (\<forall>v. seen ns v \<longrightarrow> rank v < (N :: nat))
     \<and> (\<forall>v. seen ns v \<longrightarrow> (case parent (ns v) of
          None \<Rightarrow> v = src
        | Some p \<Rightarrow> v \<noteq> src \<and> seen ns p \<and> v \<in> set (get_edges_from_node G p)
            \<and> (cost_g (ns p) < cost_g (ns v) \<or> cost_g (ns p) = cost_g (ns v) \<and> rank p < rank v))))"

text \<open>What an edge does to a search: the three cases.\<close>

lemma visit_keeps:
  assumes "get_weight G c e = Inr w" and "e \<in> set (vertices G)" and "seen ns e" and "cost_g (ns e) \<le> cost_g (ns c) + w"
  shows "visit_edge est lim srt G c e (ns, ol) = Inr (ns, srt (\<lambda>v. cost_f (ns v)) ol)"
  using assms by (simp add: visit_edge_def get_graph_node_def seen_def Let_def disj_commute)

lemma visit_improves:
  assumes "get_weight G c e = Inr w" and "e \<in> set (vertices G)" and "seen ns e" and "cost_g (ns c) + w < cost_g (ns e)"
  shows "\<exists>ns'. visit_edge est lim srt G c e (ns, ol) = Inr (ns', srt (\<lambda>v. cost_f (ns' v)) ol)
    \<and> (\<exists>f. ns' = ns(e := (ns e)\<lparr>cost_f := f, parent := Some c\<rparr>))"
proof -
  let ?n = "(set_G (cost_g (ns c) + w) (ns e))\<lparr>parent := Some c\<rparr>"
  have "visit_edge est lim srt G c e (ns, ol) = Inr (ns(e := ?n), srt (\<lambda>v. cost_f ((ns(e := ?n)) v)) ol)"
    using assms by (simp add: visit_edge_def get_graph_node_def seen_def Let_def disj_commute)
  moreover have "?n = (ns e)\<lparr>cost_f := cost_f (ns e) + (cost_g (ns c) + w - cost_g (ns e)), parent := Some c\<rparr>"
    by (simp add: set_G_def)
  ultimately show ?thesis by metis
qed

lemma visit_finds:
  assumes w: "get_weight G c e = Inr w" "e \<in> set (vertices G)" and new: "\<not> seen ns e"
  shows "\<exists>ns' ol' b. visit_edge est lim srt G c e (ns, ol) = Inr (ns', srt (\<lambda>v. cost_f (ns' v)) ol')
        \<and> ol' = (if b then ol @ [e] else ol) \<and> (lim = None \<longrightarrow> b)
        \<and> on_open_list (ns' e) = b \<and> on_closed_list (ns' e) = (\<not> b) \<and> cost_g (ns' e) = cost_g (ns c) + w
        \<and> parent (ns' e) = Some c \<and> (\<forall>v. v \<noteq> e \<longrightarrow> ns' v = ns v)"
proof (cases "case lim of None \<Rightarrow> False | Some m \<Rightarrow> cost_g (ns c) + w > m")
  case True
  then show ?thesis using w new
    by (intro exI[of _ "ns(e := (set_cost (cost_g (ns c) + w) (est e) ((ns e)\<lparr>parent := Some c\<rparr>))\<lparr>on_closed_list := True\<rparr>)"] exI[of _ ol] exI[of _ False])
      (auto simp: visit_edge_def get_graph_node_def seen_def set_cost_def Let_def split: option.splits)
next
  case False
  then show ?thesis using w new
    by (intro exI[of _ "ns(e := (set_cost (cost_g (ns c) + w) (est e) ((ns e)\<lparr>parent := Some c\<rparr>))\<lparr>on_open_list := True\<rparr>)"] exI[of _ "ol @ [e]"] exI[of _ True])
      (auto simp: visit_edge_def get_graph_node_def seen_def set_cost_def Let_def)
qed

text \<open>What an edge keeps.\<close>

definition extends :: "'n nodes \<Rightarrow> 'n nodes \<Rightarrow> bool" where
  "extends ns ns' \<longleftrightarrow> (\<forall>v. seen ns v \<longrightarrow> seen ns' v \<and> cost_g (ns' v) = cost_g (ns v) \<and> on_closed_list (ns' v) = on_closed_list (ns v))"

lemma extends_refl: "extends ns ns"
  by (simp add: extends_def)

lemma extends_trans: "extends ns ns1 \<Longrightarrow> extends ns1 ns2 \<Longrightarrow> extends ns ns2"
  by (simp add: extends_def)

context sorter
begin

lemma visit_edge_inv:
  assumes wf: "wf_graph G" and inv: "search_inv G src (ns, ol)" and c: "seen ns c" "e \<in> set (get_edges_from_node G c)"
  shows "\<exists>ns' ol'. visit_edge est lim srt G c e (ns, ol) = Inr (ns', ol') \<and> search_inv G src (ns', ol') \<and> extends ns ns' \<and> seen ns' e
    \<and> (lim = None \<longrightarrow> (\<forall>v. on_closed_list (ns' v) = on_closed_list (ns v)))
    \<and> (parent_inv G src ns \<longrightarrow> parent_inv G src ns')"
proof -
  have "c \<in> set (vertices G)" using inv c(1) by (auto simp: search_inv_def)
  then obtain w where w: "get_weight G c e = Inr w" "0 \<le> w" "e \<in> set (vertices G)"
    using wf c(2) by (auto simp: wf_graph_def)
  note i = inv[unfolded search_inv_def prod.case]
  show ?thesis
  proof (cases "seen ns e")
    case True
    show ?thesis
    proof (cases "cost_g (ns e) \<le> cost_g (ns c) + w")
      case ge: True
      have "search_inv G src (ns, srt (\<lambda>v. cost_f (ns v)) ol)" using i by (simp add: search_inv_def)
      then show ?thesis using visit_keeps[OF w(1,3) True ge] True extends_refl by blast
    next
      case False
      then have "cost_g (ns c) + w < cost_g (ns e)" by simp
      from visit_improves[OF w(1,3) True this, of est lim srt ol]
      obtain ns' f where ns': "visit_edge est lim srt G c e (ns, ol) = Inr (ns', srt (\<lambda>v. cost_f (ns' v)) ol)"
        "ns' = ns(e := (ns e)\<lparr>cost_f := f, parent := Some c\<rparr>)" by blast
      have same: "seen ns' v = seen ns v" "cost_g (ns' v) = cost_g (ns v)" "on_open_list (ns' v) = on_open_list (ns v)"
        "on_closed_list (ns' v) = on_closed_list (ns v)" for v
        by (auto simp: ns'(2) seen_def)
      have "e \<noteq> src" using False i w(2) c(1) by fastforce
      have "search_inv G src (ns', srt (\<lambda>v. cost_f (ns' v)) ol)" using i by (simp add: search_inv_def same)
      moreover have "parent_inv G src ns'" if p: "parent_inv G src ns"
      proof -
        obtain rank and N :: nat where r: "\<forall>v. seen ns v \<longrightarrow> rank v < N" "\<forall>v. seen ns v \<longrightarrow> (case parent (ns v) of
          None \<Rightarrow> v = src | Some p \<Rightarrow> v \<noteq> src \<and> seen ns p \<and> v \<in> set (get_edges_from_node G p)
            \<and> (cost_g (ns p) < cost_g (ns v) \<or> cost_g (ns p) = cost_g (ns v) \<and> rank p < rank v))"
          using p unfolding parent_inv_def by blast
        have pe: "parent (ns' e) = Some c" by (simp add: ns'(2))
        have ce: "c \<noteq> e" using False w(2) by auto
        have "case parent (ns' v) of None \<Rightarrow> v = src | Some p \<Rightarrow> v \<noteq> src \<and> seen ns' p \<and> v \<in> set (get_edges_from_node G p)
            \<and> (cost_g (ns' p) < cost_g (ns' v) \<or> cost_g (ns' p) = cost_g (ns' v) \<and> rank p < rank v)" if v: "seen ns' v" for v
        proof (cases "v = e")
          case True
          then show ?thesis using \<open>e \<noteq> src\<close> c False w(2) ce by (simp add: same pe)
        next
          case False
          then have "parent (ns' v) = parent (ns v)" by (simp add: ns'(2))
          then show ?thesis using r(2)[rule_format, of v] v by (simp add: same split: option.splits)
        qed
        then show ?thesis unfolding parent_inv_def using r(1) by (intro exI[of _ rank] exI[of _ N]) (simp add: same)
      qed
      ultimately show ?thesis using ns'(1) True by (auto simp: extends_def same)
    qed
  next
    case False
    obtain ns' ol' b where ns': "visit_edge est lim srt G c e (ns, ol) = Inr (ns', srt (\<lambda>v. cost_f (ns' v)) ol')"
        "ol' = (if b then ol @ [e] else ol)" "lim = None \<longrightarrow> b"
        "on_open_list (ns' e) = b" "on_closed_list (ns' e) = (\<not> b)" "cost_g (ns' e) = cost_g (ns c) + w"
        "parent (ns' e) = Some c" "\<forall>v. v \<noteq> e \<longrightarrow> ns' v = ns v"
      using visit_finds[OF w(1,3) False] by blast
    have ce: "c \<noteq> e" "e \<noteq> src" using c(1) False i by auto
    have old: "ns' v = ns v" if "seen ns v" for v using ns'(8) that False by (cases "v = e") simp_all
    have seen: "seen ns' v \<longleftrightarrow> v = e \<or> seen ns v" for v
      using ns'(4,5,8) by (cases "v = e") (auto simp: seen_def)
    obtain p where p: "path_between G src c p" "path_cost G p \<le> cost_g (ns c)" using i c(1) by blast
    have path: "path_between G src e (p @ [e]) \<and> path_cost G (p @ [e]) \<le> cost_g (ns' e)"
      using path_between_step[OF p(1) c(2) w(3,1)] p(2) ns'(6) by simp
    have g: "0 \<le> cost_g (ns' e)" using ns'(6) i c(1) w(2) by fastforce
    have notin: "e \<notin> set ol" using i False by (auto simp: seen_def)
    have "search_inv G src (ns', srt (\<lambda>v. cost_f (ns' v)) ol')"
      unfolding search_inv_def prod.case srt_set srt_distinct
    proof (intro conjI allI impI)
      show "distinct ol'" using i notin ns'(2) by auto
      show "v \<in> set ol' \<longleftrightarrow> on_open_list (ns' v)" for v using i notin ns'(2,4,8) by (cases "v = e") auto
      show "\<not> on_closed_list (ns' v)" if "on_open_list (ns' v)" for v using i ns'(4,5,8) that by (cases "v = e") auto
      show "seen ns' src" "cost_g (ns' src) = 0" using i seen old by auto
      show "v \<in> set (vertices G)" "0 \<le> cost_g (ns' v)" "\<exists>p. path_between G src v p \<and> path_cost G p \<le> cost_g (ns' v)" if "seen ns' v" for v
        using that seen i old w(3) g path by (cases "v = e"; auto)+
    qed
    moreover have "extends ns ns'" using seen old by (auto simp: extends_def)
    moreover have "on_closed_list (ns' v) = on_closed_list (ns v)" if "lim = None" for v
      using that ns'(3,5,8) False by (cases "v = e") (auto simp: seen_def)
    moreover have "parent_inv G src ns'" if p: "parent_inv G src ns"
    proof -
      obtain rank and N :: nat where r: "\<forall>v. seen ns v \<longrightarrow> rank v < N" "\<forall>v. seen ns v \<longrightarrow> (case parent (ns v) of
        None \<Rightarrow> v = src | Some p \<Rightarrow> v \<noteq> src \<and> seen ns p \<and> v \<in> set (get_edges_from_node G p)
          \<and> (cost_g (ns p) < cost_g (ns v) \<or> cost_g (ns p) = cost_g (ns v) \<and> rank p < rank v))"
        using p unfolding parent_inv_def by blast
      let ?rank = "rank(e := N)"
      have ok: "case parent (ns' v) of None \<Rightarrow> v = src | Some p \<Rightarrow> v \<noteq> src \<and> seen ns' p \<and> v \<in> set (get_edges_from_node G p)
          \<and> (cost_g (ns' p) < cost_g (ns' v) \<or> cost_g (ns' p) = cost_g (ns' v) \<and> ?rank p < ?rank v)" if v: "seen ns' v" for v
      proof (cases "v = e")
        case True
        then show ?thesis using ce c w(2) ns'(6,7) old[OF c(1)] seen r(1) by auto
      next
        case ve: False
        then have sv: "seen ns v" using v seen by blast
        show ?thesis
        proof (cases "parent (ns v)")
          case None
          then show ?thesis using r(2)[rule_format, OF sv] old[OF sv] by simp
        next
          case (Some q)
          then have q: "v \<noteq> src" "seen ns q" "v \<in> set (get_edges_from_node G q)"
            "cost_g (ns q) < cost_g (ns v) \<or> cost_g (ns q) = cost_g (ns v) \<and> rank q < rank v"
            using r(2)[rule_format, OF sv] by auto
          then have "q \<noteq> e" using False by blast
          then show ?thesis using q Some old[OF sv] old[OF q(2)] seen ve by simp
        qed
      qed
      have bound: "?rank v < Suc N" if "seen ns' v" for v using that seen r(1) by (auto simp: less_Suc_eq)
      show ?thesis unfolding parent_inv_def
        by (intro exI[of _ ?rank] exI[of _ "Suc N"] conjI allI impI) (rule bound ok, assumption)+
    qed
    ultimately show ?thesis using ns'(1) seen by (intro exI[of _ ns'] exI[of _ "srt (\<lambda>v. cost_f (ns' v)) ol'"]) simp
  qed
qed

lemma visit_edges_inv:
  assumes wf: "wf_graph G"
  shows "search_inv G src (ns, ol) \<Longrightarrow> seen ns c \<Longrightarrow> set es \<subseteq> set (get_edges_from_node G c) \<Longrightarrow>
    \<exists>ns' ol'. visit_edges est lim srt G c es (ns, ol) = Inr (ns', ol') \<and> search_inv G src (ns', ol') \<and> extends ns ns'
      \<and> (\<forall>e \<in> set es. seen ns' e) \<and> (lim = None \<longrightarrow> (\<forall>v. on_closed_list (ns' v) = on_closed_list (ns v)))
      \<and> (parent_inv G src ns \<longrightarrow> parent_inv G src ns')"
proof (induction es arbitrary: ns ol)
  case Nil
  then show ?case by (simp add: extends_refl)
next
  case (Cons e es)
  then have "e \<in> set (get_edges_from_node G c)" by simp
  from visit_edge_inv[OF wf Cons.prems(1,2) this, of est lim]
  obtain ns1 ol1 where 1: "visit_edge est lim srt G c e (ns, ol) = Inr (ns1, ol1)" "search_inv G src (ns1, ol1)" "extends ns ns1"
    "seen ns1 e" "lim = None \<longrightarrow> (\<forall>v. on_closed_list (ns1 v) = on_closed_list (ns v))" "parent_inv G src ns \<longrightarrow> parent_inv G src ns1"
    by blast
  have "seen ns1 c" "set es \<subseteq> set (get_edges_from_node G c)" using Cons.prems 1(3) by (auto simp: extends_def)
  from Cons.IH[OF 1(2) this]
  obtain ns2 ol2 where 2: "visit_edges est lim srt G c es (ns1, ol1) = Inr (ns2, ol2)" "search_inv G src (ns2, ol2)" "extends ns1 ns2"
    "\<forall>e \<in> set es. seen ns2 e" "lim = None \<longrightarrow> (\<forall>v. on_closed_list (ns2 v) = on_closed_list (ns1 v))"
    "parent_inv G src ns1 \<longrightarrow> parent_inv G src ns2"
    by blast
  have "seen ns2 e" using 1(4) 2(3) by (simp add: extends_def)
  then have all: "\<forall>x \<in> set (e # es). seen ns2 x" using 2(4) by simp
  have visit: "visit_edges est lim srt G c (e # es) (ns, ol) = Inr (ns2, ol2)" using 1(1) 2(1) by simp
  have closed: "lim = None \<longrightarrow> (\<forall>v. on_closed_list (ns2 v) = on_closed_list (ns v))" using 1(5) 2(5) by simp
  have parents: "parent_inv G src ns \<longrightarrow> parent_inv G src ns2" using 1(6) 2(6) by blast
  show ?case
    by (intro exI conjI) (rule visit 2(2) extends_trans[OF 1(3) 2(3)] all closed parents)+
qed

end

text \<open>Closing the first node.\<close>

lemma close_node_same:
  assumes "seen ns c"
  shows "seen (close_node c ns) v = seen ns v" "cost_g (close_node c ns v) = cost_g (ns v)" "parent (close_node c ns v) = parent (ns v)"
    "on_open_list (close_node c ns v) = (v \<noteq> c \<and> on_open_list (ns v))" "on_closed_list (close_node c ns v) = (v = c \<or> on_closed_list (ns v))"
  using assms by (auto simp: close_node_def seen_def)

lemma search_inv_head: "search_inv G src (ns, c # ol) \<Longrightarrow> seen ns c \<and> c \<in> set (vertices G) \<and> \<not> on_closed_list (ns c)"
  by (auto simp: search_inv_def seen_def)

lemma search_inv_close: "search_inv G src (ns, c # ol) \<Longrightarrow> search_inv G src (close_node c ns, ol)"
  using search_inv_head[of G src ns c ol] by (auto simp: search_inv_def close_node_same)

lemma parent_inv_close: "parent_inv G src ns \<Longrightarrow> seen ns c \<Longrightarrow> parent_inv G src (close_node c ns)"
  by (simp add: parent_inv_def close_node_same cong: option.case_cong)

text \<open>How many nodes a search may still close.\<close>

definition unclosed :: "'n weighted_directed_graph \<Rightarrow> 'n nodes \<Rightarrow> nat" where
  "unclosed G ns = card {v \<in> set (vertices G). \<not> on_closed_list (ns v)}"

lemma unclosed_step:
  assumes "search_inv G src (ns, c # ol)" and "extends (close_node c ns) ns'"
  shows "unclosed G ns' < unclosed G ns"
  unfolding unclosed_def
proof (rule psubset_card_mono)
  note c = search_inv_head[OF assms(1)]
  then have "on_closed_list (ns' v)" if "v = c \<or> on_closed_list (ns v)" for v
    using assms(2) that close_node_same[of ns c v] unfolding extends_def seen_def by blast
  then show "{v \<in> set (vertices G). \<not> on_closed_list (ns' v)} \<subset> {v \<in> set (vertices G). \<not> on_closed_list (ns v)}"
    using c by blast
qed simp

lemma search_inv_start: "src \<in> set (vertices G) \<Longrightarrow> search_inv G src (start src h, [src])"
  by (auto simp: search_inv_def start_def initial_nodes_def new_node_def set_cost_def seen_def path_between_def intro!: exI[of _ "[src]"])

lemma seen_start: "seen (start src h) v \<longleftrightarrow> v = src"
  by (simp add: start_def initial_nodes_def new_node_def seen_def)

lemma parent_inv_start: "parent_inv G src (start src h)"
  unfolding parent_inv_def seen_start
  by (intro exI[of _ "\<lambda>_. 0"] exI[of _ 1]) (simp add: start_def set_cost_def new_node_def)

section \<open>Results\<close>

lemma path_from_found:
  assumes inv: "search_inv G src (ns, ol)" and parents: "parent_inv G src ns"
  shows "seen ns v \<Longrightarrow> is_path G (v # path) \<Longrightarrow> \<exists>p. path_from ns (Some v) path = Some p \<and> path_between G src (last (v # path)) p"
proof -
  obtain rank and N :: nat where r: "\<forall>v. seen ns v \<longrightarrow> (case parent (ns v) of
      None \<Rightarrow> v = src | Some p \<Rightarrow> v \<noteq> src \<and> seen ns p \<and> v \<in> set (get_edges_from_node G p)
        \<and> (cost_g (ns p) < cost_g (ns v) \<or> cost_g (ns p) = cost_g (ns v) \<and> rank p < (rank v :: nat)))"
    using parents unfolding parent_inv_def by blast
  show "seen ns v \<Longrightarrow> is_path G (v # path) \<Longrightarrow> \<exists>p. path_from ns (Some v) path = Some p \<and> path_between G src (last (v # path)) p"
  proof (induction v arbitrary: path rule: wf_induct_rule[OF wf_measures, of "[\<lambda>v. nat (cost_g (ns v)), rank]"])
    case (1 v)
    have step: "path_from ns (Some v) path = path_from ns (parent (ns v)) (v # path)" by (subst path_from.simps) simp
    show ?case
    proof (cases "parent (ns v)")
      case None
      then have "v = src" using r 1(2) by force
      then show ?thesis using step None 1(3) by (simp add: path_from.simps path_between_def)
    next
      case (Some q)
      then have q: "seen ns q" "v \<in> set (get_edges_from_node G q)"
        "cost_g (ns q) < cost_g (ns v) \<or> cost_g (ns q) = cost_g (ns v) \<and> rank q < rank v" using r 1(2) by force+
      have "0 \<le> cost_g (ns q)" "q \<in> set (vertices G)" using inv q(1) by (auto simp: search_inv_def)
      then have "(q, v) \<in> measures [\<lambda>v. nat (cost_g (ns v)), rank]" "is_path G (q # v # path)" using q 1(3) by auto
      from 1(1)[OF this(1) q(1) this(2)] show ?thesis using step Some by simp
    qed
  qed
qed

context sorter
begin

text \<open>One pass of the loops: the first node is closed and its edges are visited.\<close>

lemma close_and_visit:
  assumes wf: "wf_graph G" and inv: "search_inv G src (ns, c # ol)"
  shows "\<exists>ns' ol'. visit_edges est lim srt G c (get_edges_from_node G c) (close_node c ns, ol) = Inr (ns', ol')
    \<and> search_inv G src (ns', ol') \<and> extends (close_node c ns) ns' \<and> (\<forall>e \<in> set (get_edges_from_node G c). seen ns' e)
    \<and> (lim = None \<longrightarrow> (\<forall>v. on_closed_list (ns' v) \<longleftrightarrow> v = c \<or> on_closed_list (ns v)))
    \<and> (parent_inv G src ns \<longrightarrow> parent_inv G src ns')"
proof -
  have c: "seen ns c" using search_inv_head[OF inv] by simp
  then have "seen (close_node c ns) c" by (simp add: close_node_same)
  from visit_edges_inv[OF wf search_inv_close[OF inv] this subset_refl, of est lim]
  show ?thesis using parent_inv_close[of G src ns c] c by (simp add: close_node_same) blast
qed

lemma a_star_loop_finds:
  assumes wf: "wf_graph G" and src: "src \<noteq> dst"
  shows "search_inv G src (ns, ol) \<Longrightarrow> parent_inv G src ns \<Longrightarrow> \<not> on_closed_list (ns dst) \<Longrightarrow>
    (\<forall>u. on_closed_list (ns u) \<longrightarrow> (\<forall>e \<in> set (get_edges_from_node G u). seen ns e)) \<Longrightarrow>
    (\<exists>p. a_star_loop est srt G dst (ns, ol) = Some (Inr p) \<and> path_between G src dst p)
    \<or> a_star_loop est srt G dst (ns, ol) = Some (Inl No_Path) \<and> \<not> (\<exists>p. path_between G src dst p)"
proof (induction "unclosed G ns" arbitrary: ns ol rule: less_induct)
  case less
  note inv = less.prems(1)
  show ?case
  proof (cases ol)
    case Nil
    have closed: "seen ns v \<longleftrightarrow> on_closed_list (ns v)" for v using inv Nil by (auto simp: search_inv_def seen_def)
    have "seen ns (last p)" if "is_path G p" "hd p = src" for p
      using path_closed[of G p "{v. seen ns v}"] that inv less.prems(4) closed by (auto simp: search_inv_def)
    then have "\<not> path_between G src dst p" for p using less.prems(3) closed by (auto simp: path_between_def)
    moreover have "a_star_loop est srt G dst (ns, ol) = Some (Inl No_Path)" using Nil by (simp add: a_star_loop.simps)
    ultimately show ?thesis by blast
  next
    case (Cons c ol1)
    note inv = inv[unfolded Cons]
    note c = search_inv_head[OF inv]
    show ?thesis
    proof (cases "c = dst")
      case True
      have "path_from ns (parent (ns c)) [dst] = path_from ns (Some dst) []" by (subst (2) path_from.simps) (simp add: True)
      moreover obtain p where "path_from ns (Some dst) [] = Some p" "path_between G src dst p"
        using path_from_found[OF inv less.prems(2), of dst "[]"] c True by auto
      ultimately have "a_star_loop est srt G dst (ns, ol) = Some (Inr p)" using Cons True by (simp add: a_star_loop.simps)
      then show ?thesis using \<open>path_between G src dst p\<close> by blast
    next
      case False
      from close_and_visit[OF wf inv, of est None]
      obtain ns' ol' where v: "visit_edges est None srt G c (get_edges_from_node G c) (close_node c ns, ol1) = Inr (ns', ol')"
        "search_inv G src (ns', ol')" "extends (close_node c ns) ns'" "\<forall>e \<in> set (get_edges_from_node G c). seen ns' e"
        "\<forall>v. on_closed_list (ns' v) \<longleftrightarrow> v = c \<or> on_closed_list (ns v)" "parent_inv G src ns'"
        using less.prems(2) by blast
      have loop: "a_star_loop est srt G dst (ns, ol) = a_star_loop est srt G dst (ns', ol')"
        by (subst a_star_loop.simps) (simp add: Cons False v(1))
      have "\<not> on_closed_list (ns' dst)" using v(5) False less.prems(3) by simp
      moreover have "seen ns' e" if "on_closed_list (ns' u)" "e \<in> set (get_edges_from_node G u)" for u e
      proof (cases "u = c")
        case False
        then have "seen ns e" using v(5) that less.prems(4) by blast
        then show ?thesis using v(3) c by (simp add: extends_def close_node_same)
      qed (use v(4) that in simp)
      ultimately show ?thesis unfolding loop using less.hyps[OF unclosed_step[OF inv v(3)] v(2,6)] by blast
    qed
  qed
qed

lemma a_star_search_finds:
  assumes "wf_graph G" and "src \<in> set (vertices G)" and "src \<noteq> dst"
  shows "\<exists>p. a_star_search h srt G src dst = Some p \<and> (if \<exists>p. path_between G src dst p then path_between G src dst p else p = [])"
proof -
  have "\<not> on_closed_list (start src (h src dst) v)" for v by (simp add: start_def initial_nodes_def new_node_def set_cost_def)
  then show ?thesis
    using a_star_loop_finds[OF assms(1,3) search_inv_start[OF assms(2)] parent_inv_start, of "h src dst" "\<lambda>a. h a dst"] assms(2,3)
    unfolding a_star_search_def by auto
qed

text \<open>The nodes of a search by cost are closed, so none comes twice.\<close>

definition reachable_inv :: "'n weighted_directed_graph \<Rightarrow> 'n \<Rightarrow> int \<Rightarrow> 'n nodes \<Rightarrow> 'n list \<Rightarrow> bool" where
  "reachable_inv G src m ns r \<longleftrightarrow> distinct r \<and> (\<forall>v \<in> set r. on_closed_list (ns v) \<and> (\<exists>p. path_between G src v p \<and> path_cost G p \<le> m))"

lemma cost_loop_sound:
  assumes wf: "wf_graph G"
  shows "search_inv G src (ns, ol) \<Longrightarrow> reachable_inv G src m ns r \<Longrightarrow> on_open_list (ns src) \<or> m < 0 \<or> src \<in> set r \<Longrightarrow>
    \<exists>r'. cost_loop m srt G r (ns, ol) = Some r' \<and> distinct r' \<and> (m < 0 \<or> src \<in> set r')
      \<and> (\<forall>v \<in> set r'. \<exists>p. path_between G src v p \<and> path_cost G p \<le> m)"
proof (induction "unclosed G ns" arbitrary: ns ol r rule: less_induct)
  case less
  note inv = less.prems(1)
  show ?case
  proof (cases ol)
    case Nil
    then have "\<not> on_open_list (ns src)" using inv by (auto simp: search_inv_def)
    then show ?thesis using Nil less.prems(2,3) by (auto simp: cost_loop.simps reachable_inv_def)
  next
    case (Cons c ol1)
    note inv = inv[unfolded Cons]
    note c = search_inv_head[OF inv]
    let ?r = "if cost_g (ns c) \<le> m then r @ [c] else r"
    from close_and_visit[OF wf inv, of "\<lambda>_. 0" "Some m"]
    obtain ns' ol' where v: "visit_edges (\<lambda>_. 0) (Some m) srt G c (get_edges_from_node G c) (close_node c ns, ol1) = Inr (ns', ol')"
      "search_inv G src (ns', ol')" "extends (close_node c ns) ns'"
      by blast
    have loop: "cost_loop m srt G r (ns, ol) = cost_loop m srt G ?r (ns', ol')"
      by (subst cost_loop.simps) (simp add: Cons v(1))
    have closed: "on_closed_list (ns' v)" if "v = c \<or> on_closed_list (ns v)" for v
      using v(3) that c close_node_same[of ns c v] unfolding extends_def seen_def by blast
    obtain p where "path_between G src c p" "path_cost G p \<le> cost_g (ns c)" using inv c by (auto simp: search_inv_def)
    then have p: "\<exists>p. path_between G src c p \<and> path_cost G p \<le> m" if "cost_g (ns c) \<le> m" using that by (intro exI[of _ p]) simp
    have r: "reachable_inv G src m ns' ?r" using less.prems(2) p c closed by (auto simp: reachable_inv_def)
    have "on_open_list (ns' src) \<or> m < 0 \<or> src \<in> set ?r"
    proof (cases "c = src")
      case True
      then show ?thesis using inv by (auto simp: search_inv_def)
    next
      case False
      have "seen ns src" using inv by (simp add: search_inv_def)
      then have "seen ns' src \<and> on_closed_list (ns' src) = on_closed_list (ns src)"
        using v(3) False c close_node_same[of ns c src] unfolding extends_def by blast
      moreover have "\<not> on_closed_list (ns src)" if "on_open_list (ns src)" using that inv by (simp add: search_inv_def)
      ultimately show ?thesis using less.prems(3) False by (auto simp: seen_def)
    qed
    from less.hyps[OF unclosed_step[OF inv v(3)] v(2) r this] show ?thesis unfolding loop .
  qed
qed

lemma path_cost_search_finds:
  assumes "wf_graph G" and "src \<in> set (vertices G)"
  shows "\<exists>r. path_cost_search srt G src m = Some r \<and> distinct r \<and> (m < 0 \<or> src \<in> set r)
    \<and> (\<forall>v \<in> set r. \<exists>p. path_between G src v p \<and> path_cost G p \<le> m)"
proof -
  have "on_open_list (start src 0 src)" using seen_start[of src 0 src] by (simp add: start_def initial_nodes_def new_node_def set_cost_def)
  then show ?thesis
    using cost_loop_sound[OF assms(1) search_inv_start[OF assms(2)], where m = m and r = "[]" and h1 = 0] assms(2)
    by (simp add: path_cost_search_def reachable_inv_def)
qed

end

text \<open>C4: With edges to nodes of the graph and weights that are not negative \<open>a_star_search\<close> always returns: a path of
  the graph from the first node to the second when there is one, and the empty list when there is none.\<close>

theorem a_star_finds_path:
  assumes "sorter srt" and "wf_graph G" and "src \<in> set (vertices G)" and "src \<noteq> dst"
  shows "\<exists>p. a_star_search h srt G src dst = Some p \<and> (if \<exists>p. path_between G src dst p then path_between G src dst p else p = [])"
  by (rule sorter.a_star_search_finds[OF assms])

text \<open>A graph to try: from 0 to 3 over 1 and 2, and directly.\<close>

definition sample_graph :: "nat weighted_directed_graph" where
  "sample_graph = \<lparr>vertices = [0, 1, 2, 3], edges = [(0, [1, 2, 3]), (1, [2]), (2, [3])],
     weights = [((0, 1), 1), ((0, 2), 5), ((0, 3), 5), ((1, 2), 1), ((2, 3), 1)]\<rparr>"

lemma wf_sample: "wf_graph sample_graph"
  by (simp add: wf_graph_def sample_graph_def get_edges_from_node_def get_weight_def)

lemma a_star_finds_path_witness:
  "\<exists>p. a_star_search (\<lambda>_ _. 0) sort_key sample_graph 0 3 = Some p \<and> path_between sample_graph 0 3 p"
proof -
  have "path_between sample_graph 0 3 [0, 3]"
    by (simp add: path_between_def sample_graph_def get_edges_from_node_def)
  then show ?thesis
    using a_star_finds_path[OF insertion.sorter_axioms wf_sample, of 0 3 "\<lambda>_ _. 0"] by (auto simp: sample_graph_def split: if_splits)
qed

text \<open>C22: Under the same conditions \<open>path_cost_search\<close> always returns; its nodes are distinct, the first node is one of
  them unless the limit is negative, and to each of them leads a path that costs at most the limit.\<close>

theorem path_cost_search_sound:
  assumes "sorter srt" and "wf_graph G" and "src \<in> set (vertices G)"
  shows "\<exists>r. path_cost_search srt G src m = Some r \<and> distinct r \<and> (m < 0 \<or> src \<in> set r)
    \<and> (\<forall>v \<in> set r. \<exists>p. path_between G src v p \<and> path_cost G p \<le> m)"
  by (rule sorter.path_cost_search_finds[OF assms])

lemma path_cost_search_sound_witness:
  "\<exists>r. path_cost_search sort_key sample_graph 0 2 = Some r \<and> distinct r \<and> 0 \<in> set r
    \<and> (\<forall>v \<in> set r. \<exists>p. path_between sample_graph 0 v p \<and> path_cost sample_graph p \<le> 2)"
  using path_cost_search_sound[OF insertion.sorter_axioms wf_sample, of 0 2] by (auto simp: sample_graph_def)

section \<open>What the searches miss\<close>

text \<open>
  \<open>G(T g)\<close> does not store the cost it is given, so a node keeps the cost it was found with: \<open>a_star_search\<close> returns a
  path of cost 5 though there is one of cost 3, with an estimate that is never too high.
\<close>

lemma a_star_path_not_shortest:
  "a_star_search (\<lambda>_ _. 0) sort_key sample_graph 0 3 = Some [0, 3]"
  "path_cost sample_graph [0, 3] = 5"
  "path_between sample_graph 0 3 [0, 1, 2, 3]" "path_cost sample_graph [0, 1, 2, 3] = 3"
  by code_simp+

text \<open>For the same reason \<open>path_cost_search\<close> misses nodes within its limit.\<close>

lemma path_cost_search_incomplete:
  "path_cost_search sort_key sample_graph 0 3 = Some [0, 1]"
  "path_between sample_graph 0 2 [0, 1, 2]" "path_cost sample_graph [0, 1, 2] = 2"
  by code_simp+

text \<open>The eastern neighbour is as far as a tile is high.\<close>

lemma east_neighbour_off:
  "get_neighbours_from_rect (Point 0 0) 2 3 \<lparr>top_left = Point 0 0, bottom_right = Point 10 1\<rparr> False = [Point 3 0]"
  by code_simp

text \<open>With negative weights the parents may form a cycle; \<open>a_star_search\<close> then collects a path without end.\<close>

lemma path_from_cycle:
  assumes "parent (ns a) = Some b" and "parent (ns b) = Some a"
  shows "path_from ns (Some a) path = None"
proof -
  let ?P = "\<lambda>n p q r. n = ns \<longrightarrow> p \<noteq> Some a \<and> p \<noteq> Some b"
  have "?P n p q r" if "path_from n p q = Some r" for n p q r
  proof (rule path_from.raw_induct[where P = ?P, OF _ that])
    fix pf n p q r
    assume "\<And>n p q r. pf n p q = Some r \<Longrightarrow> ?P n p q r"
      and "(case p of None \<Rightarrow> Some q | Some v \<Rightarrow> pf n (parent (n v)) (v # q)) = Some r"
    then show "?P n p q r" using assms by (auto split: option.splits)
  qed
  then show ?thesis by (cases "path_from ns (Some a) path") auto
qed

end
