(* ===== verification/CT_Json_Tokenizer.thy ===== *)
theory CT_Json_Tokenizer
  imports CT_Formula_Tokenizer
begin

text \<open>
  \<open>src/json_tokenizer.cpp\<close>. The text is the data of a \<open>std::string\<close>: at its end the code reads the
  terminator, which is none of the characters it tests for. A token is its kind, the text between its
  two pointers and the translation mark; errors carry the text their location points at. A NUL character
  inside the text is taken for punctuation, and leaves the kind of the token uninitialised.
\<close>

datatype json_type = TYPE_NUMBER | TYPE_STRING | TYPE_LCURLY | TYPE_RCURLY | TYPE_LSQUARE | TYPE_RSQUARE
  | TYPE_COMMA | TYPE_COLON | TYPE_TRUE_VALUE | TYPE_FALSE_VALUE | TYPE_NULL_VALUE | TYPE_IDENTIFIER
  | NUM_TYPES

record json_token =
  tok_type :: json_type
  tok_text :: string
  tok_translate :: bool

datatype tokenizer_error = Eof_In_String string | Two_Decimal_Points string | Minus_In_Number string
  | Unexpected_Character string | Uninitialised_Type

section \<open>White space and comments\<close>

lemma rest_of_length: "rest_of r s \<Longrightarrow> length r < length s"
  by (auto simp: rest_of_def)

lemma scan_comment_shorter: "scan_comment n s = Some r \<Longrightarrow> length r < length s"
  by (simp add: rest_of_length scan_comment_rest)

lemma find_NL_rest: "c \<noteq> NL \<Longrightarrow> rest_of (find_from NL (c # cs)) (c # cs)"
  using rest_of_dropWhile[of "\<lambda>x. x \<noteq> NL" cs] by (auto simp: find_from_def rest_of_Cons)

function skip_space :: "string \<Rightarrow> tokenizer_error + string" where
  "skip_space s = (case s of
     [] \<Rightarrow> Inr []
   | c # cs \<Rightarrow>
       if isspace c then skip_space cs
       else if c = CHR ''/'' \<and> cs \<noteq> [] \<and> hd cs = CHR ''*''
       then (case scan_comment 1 (tl cs) of None \<Rightarrow> Inl (Eof_In_String s) | Some r \<Rightarrow> skip_space r)
       else if c = CHR ''#'' \<or> (c = CHR ''/'' \<and> cs \<noteq> [] \<and> hd cs = CHR ''/'')
       then skip_space (find_from NL s)
       else Inr s)"
  by pat_completeness auto

termination
proof (relation "measure length", goal_cases)
  case 1
  then show ?case by simp
next
  case (2 s c cs)
  then show ?case by simp
next
  case (3 s c cs r)
  then show ?case using scan_comment_shorter[of 1 "tl cs" r] by (cases cs) auto
next
  case (4 s c cs)
  then show ?case using rest_of_length[OF find_NL_rest[of c cs]] by auto
qed

declare skip_space.simps [simp del]

section \<open>Scanning one token\<close>

text \<open>After the opening quote: the text up to the closing one, a backslash hiding the next character.\<close>

fun scan_string :: "char \<Rightarrow> string \<Rightarrow> (string \<times> string) option" where
  "scan_string q [] = None"
| "scan_string q [c] = (if c = q then Some ([], []) else None)"
| "scan_string q (c # d # s) =
     (if c = q then Some ([], d # s)
      else if c = CHR 0x5C
      then (case scan_string q s of None \<Rightarrow> None | Some (t, r) \<Rightarrow> Some (c # d # t, r))
      else (case scan_string q (d # s) of None \<Rightarrow> None | Some (t, r) \<Rightarrow> Some (c # t, r)))"

fun scan_number :: "bool \<Rightarrow> bool \<Rightarrow> string \<Rightarrow> tokenizer_error + (string \<times> string)" where
  "scan_number first seen_decimal [] = Inr ([], [])"
| "scan_number first seen_decimal (c # cs) =
     (if c = CHR ''.''
      then (if seen_decimal then Inl (Two_Decimal_Points (c # cs))
            else case scan_number False True cs of Inl e \<Rightarrow> Inl e | Inr (t, r) \<Rightarrow> Inr (c # t, r))
      else if c = CHR ''-''
      then (if \<not> first then Inl (Minus_In_Number (c # cs))
            else case scan_number False seen_decimal cs of Inl e \<Rightarrow> Inl e | Inr (t, r) \<Rightarrow> Inr (c # t, r))
      else if \<not> isdigit c then Inr ([], c # cs)
      else case scan_number False seen_decimal cs of Inl e \<Rightarrow> Inl e | Inr (t, r) \<Rightarrow> Inr (c # t, r))"

definition punctuation :: "char \<Rightarrow> json_type" where
  "punctuation c =
     (if c = CHR ''{'' then TYPE_LCURLY else if c = CHR ''}'' then TYPE_RCURLY
      else if c = CHR ''['' then TYPE_LSQUARE else if c = CHR '']'' then TYPE_RSQUARE
      else if c = CHR '':'' then TYPE_COLON else TYPE_COMMA)"

definition json_word_type :: "string \<Rightarrow> json_type" where
  "json_word_type w = (if w = ''true'' then TYPE_TRUE_VALUE else if w = ''false'' then TYPE_FALSE_VALUE
     else if w = ''null'' then TYPE_NULL_VALUE else TYPE_IDENTIFIER)"

definition json_get_token :: "string \<Rightarrow> tokenizer_error + (json_token \<times> string)" where
  "json_get_token s0 = (case skip_space s0 of
     Inl e \<Rightarrow> Inl e
   | Inr [] \<Rightarrow> Inr (\<lparr>tok_type = NUM_TYPES, tok_text = [], tok_translate = False\<rparr>, [])
   | Inr (c # cs) \<Rightarrow>
       if strchr ''{}[]:,'' c
       then (if c = NUL then Inl Uninitialised_Type
             else Inr (\<lparr>tok_type = punctuation c, tok_text = [c], tok_translate = False\<rparr>, cs))
       else if c = CHR 0x22 \<or> c = CHR 0x27 \<or> c = CHR ''~''
       then (case scan_string c cs of
               None \<Rightarrow> Inl (Eof_In_String cs)
             | Some (t, r) \<Rightarrow> Inr (\<lparr>tok_type = TYPE_STRING, tok_text = t, tok_translate = (c = CHR ''~'')\<rparr>, r))
       else if isalpha c \<or> c = CHR ''_''
       then (let w = takeWhile ident_char (c # cs)
             in Inr (\<lparr>tok_type = json_word_type w, tok_text = w, tok_translate = False\<rparr>,
                     dropWhile ident_char (c # cs)))
       else if c = CHR ''-'' \<or> c = CHR ''.'' \<or> isdigit c
       then (case scan_number True False (c # cs) of
               Inl e \<Rightarrow> Inl e
             | Inr (t, r) \<Rightarrow> Inr (\<lparr>tok_type = TYPE_NUMBER, tok_text = t, tok_translate = False\<rparr>, r))
       else Inl (Unexpected_Character (c # cs)))"

text \<open>\<open>get_token_full\<close> moves both pointers of a string token over its quotes.\<close>

definition json_get_token_full :: "string \<Rightarrow> tokenizer_error + (json_token \<times> string)" where
  "json_get_token_full s = (case json_get_token s of
     Inl e \<Rightarrow> Inl e
   | Inr (t, r) \<Rightarrow>
       (if tok_type t = TYPE_STRING
        then (let n = length s - length r - (length (tok_text t) + 2)
              in Inr (t\<lparr>tok_text := take (length (tok_text t) + 2) (drop n s)\<rparr>, r))
        else Inr (t, r)))"

section \<open>What is left is a suffix\<close>

lemma scan_string_split: "scan_string q s = Some (t, r) \<Longrightarrow> s = t @ q # r"
  by (induction q s arbitrary: t r rule: scan_string.induct) (auto split: if_splits option.splits)

lemma scan_number_split: "scan_number first dec s = Inr (t, r) \<Longrightarrow> s = t @ r"
  by (induction first dec s arbitrary: t r rule: scan_number.induct) (auto split: if_splits sum.splits)

lemma skip_space_suffix: "skip_space s = Inr r \<Longrightarrow> r = s \<or> rest_of r s"
proof (induction s arbitrary: r rule: skip_space.induct)
  case (1 s)
  show ?case
  proof (cases s)
    case Nil
    then show ?thesis using 1 by (simp add: skip_space.simps)
  next
    case (Cons c cs)
    have n: "c = CHR ''#'' \<or> c = CHR ''/'' \<Longrightarrow> rest_of (find_from NL s) s"
      using find_NL_rest[of c cs] Cons by auto
    have com: "rest_of q s" if "scan_comment 1 (tl cs) = Some q" for q
      using that scan_comment_rest[OF that] by (cases cs) (auto simp: Cons rest_of_Cons)
    note ih = "1.IH"[OF Cons]
    show ?thesis
    proof (cases "isspace c")
      case True
      then have "skip_space cs = Inr r" using "1.prems" Cons by (simp add: skip_space.simps[of "c # cs"])
      then show ?thesis using ih(1)[OF True] Cons by (simp add: rest_of_Cons)
    next
      case sp: False
      show ?thesis
      proof (cases "c = CHR ''/'' \<and> cs \<noteq> [] \<and> hd cs = CHR ''*''")
        case True
        then obtain q where "scan_comment 1 (tl cs) = Some q" "skip_space q = Inr r"
          using "1.prems" sp Cons skip_space.simps[of "c # cs"] by (auto split: option.splits)
        then show ?thesis using ih(2)[OF sp True] com rest_of_trans by blast
      next
        case nc: False
        then show ?thesis
          using ih(3)[OF sp nc] "1.prems" sp n rest_of_trans
          by (auto simp: skip_space.simps[of "c # cs"] Cons split: if_splits)
      qed
    qed
  qed
qed

text \<open>What a token covers of the text: a string token leaves out its quotes.\<close>

definition token_source :: "char \<Rightarrow> json_token \<Rightarrow> string" where
  "token_source q t = (if tok_type t = TYPE_STRING then q # tok_text t @ [q] else tok_text t)"

lemma json_get_token_split:
  assumes "json_get_token s = Inr (t, r)" and "tok_type t \<noteq> NUM_TYPES"
  shows "\<exists>sp q. s = sp @ token_source q t @ r \<and> skip_space s = Inr (token_source q t @ r)
    \<and> token_source q t \<noteq> []
    \<and> (tok_type t = TYPE_STRING \<longrightarrow> q \<in> set [CHR 0x22, CHR 0x27, CHR ''~''] \<and> tok_translate t = (q = CHR ''~''))"
proof -
  obtain s' where sk: "skip_space s = Inr s'"
    using assms(1) by (cases "skip_space s") (auto simp: json_get_token_def)
  then obtain sp where sp: "s = sp @ s'"
    using skip_space_suffix[OF sk] by (auto simp: rest_of_def)
  obtain c cs where s': "s' = c # cs"
    using assms sk by (cases s') (auto simp: json_get_token_def)
  have "\<exists>q. s' = token_source q t @ r \<and> token_source q t \<noteq> []
      \<and> (tok_type t = TYPE_STRING \<longrightarrow> q \<in> set [CHR 0x22, CHR 0x27, CHR ''~''] \<and> tok_translate t = (q = CHR ''~''))"
  proof (cases "strchr ''{}[]:,'' c")
    case True
    then show ?thesis using assms(1) sk s'
      by (auto simp: json_get_token_def token_source_def punctuation_def split: if_splits)
  next
    case np: False
    show ?thesis
    proof (cases "c = CHR 0x22 \<or> c = CHR 0x27 \<or> c = CHR ''~''")
      case True
      then obtain u where "scan_string c cs = Some (u, r)"
          "t = \<lparr>tok_type = TYPE_STRING, tok_text = u, tok_translate = (c = CHR ''~'')\<rparr>"
        using assms(1) sk s' np by (auto simp: json_get_token_def split: option.splits)
      then show ?thesis using scan_string_split[of c cs u r] s' True
        by (intro exI[of _ c]) (auto simp: token_source_def)
    next
      case nq: False
      show ?thesis
      proof (cases "isalpha c \<or> c = CHR ''_''")
        case True
        then have t: "t = \<lparr>tok_type = json_word_type (takeWhile ident_char (c # cs)),
            tok_text = takeWhile ident_char (c # cs), tok_translate = False\<rparr>" "r = dropWhile ident_char (c # cs)"
          using assms(1) sk s' np nq by (auto simp: json_get_token_def Let_def)
        have "ident_char c" using True by (auto simp: ident_char_def isalnum_def)
        moreover have ty: "tok_type t \<noteq> TYPE_STRING" by (simp add: t(1) json_word_type_def)
        moreover have "takeWhile ident_char (c # cs) @ r = s'" using s' t(2) by simp
        ultimately show ?thesis using t(1) by (simp add: token_source_def)
      next
        case False
        then have nb: "c = CHR ''-'' \<or> c = CHR ''.'' \<or> isdigit c"
          using assms(1) sk s' np nq by (auto simp: json_get_token_def split: if_splits)
        then obtain u where u: "scan_number True False (c # cs) = Inr (u, r)"
            "t = \<lparr>tok_type = TYPE_NUMBER, tok_text = u, tok_translate = False\<rparr>"
          using assms(1) sk s' np nq False by (auto simp: json_get_token_def split: sum.splits)
        then have "c # cs = u @ r" by (simp add: scan_number_split)
        moreover have "u \<noteq> []" using u(1) nb by (auto split: if_splits sum.splits)
        ultimately show ?thesis using u(2) s' by (auto simp: token_source_def)
      qed
    qed
  qed
  then show ?thesis using sp sk by auto
qed

lemma json_get_token_shorter:
  "json_get_token s = Inr (t, r) \<Longrightarrow> tok_type t \<noteq> NUM_TYPES \<Longrightarrow> length r < length s"
  by (drule (1) json_get_token_split) auto

end
