(* ===== verification/CT_Json_Parser.thy ===== *)
theory CT_Json_Parser
  imports CT_Json_Tokenizer CT_Variant CT_String_Utils
begin

text \<open>
  \<open>src/json_parser.cpp\<close> and the expansion of strings in \<open>src/preprocessor.cpp\<close>. The parser is a loop over
  the tokens with a stack of unfinished values, which here has its back at the head of the list. Macros and
  included files are parsed by the same function: the depth of these calls is the fuel of
  \<open>parse_internal\<close>. Files, the evaluation of formulas and translations are arguments. The places noted for
  messages about values are left out, those of parse errors are computed.
\<close>

section \<open>Errors\<close>

datatype parse_msg = Unexpected_At_End | Expecting_Colon | Expecting_Comma | Unexpected_Colon | Unexpected_Comma
  | Unexpected_LCurly | Unexpected_RCurly | Unexpected_LSquare | Unexpected_RSquare | Macro_Not_Found
  | Preprocessor_Error | Repeated_Attribute | Unexpected_Value_In_Object | Unexpected_End
  | Tokenizer_Error tokenizer_error | File_Not_Found

text \<open>The message, the file, the line and the column; a \<open>preprocessor_error\<close>; a failed assertion.\<close>

datatype parse_error = Parse_Error parse_msg string int int | Preprocessor_Failed | Assertion_Failed | Out_Of_Fuel

definition get_line_num :: "string \<Rightarrow> nat \<Rightarrow> int" where
  "get_line_num doc pos = 1 + int (length (filter (\<lambda>c. c = NL) (take pos doc)))"

text \<open>The last line end before the \<open>n\<close>-th character, or \<open>-1\<close>; the terminator is at the end of the text.\<close>

fun line_start :: "string \<Rightarrow> nat \<Rightarrow> int" where
  "line_start doc 0 = -1"
| "line_start doc (Suc p) =
     (let c = (if p < length doc then doc ! p else NUL) in if c = NL \<or> c = CR then int p else line_start doc p)"

definition get_col_number :: "string \<Rightarrow> nat \<Rightarrow> int" where
  "get_col_number doc pos = 1 + int pos - line_start doc (Suc pos)"

definition escape_step :: "string \<Rightarrow> string" where
  "escape_step s = (case s of [] \<Rightarrow> [] | c # r \<Rightarrow> (if c = CHR ''n'' then NL else c) # r)"

text \<open>A backslash goes, and the character after it stays, an \<open>n\<close> as a line end.\<close>

function escape_string :: "string \<Rightarrow> string" where
  "escape_string s = (case s of
     [] \<Rightarrow> []
   | c # r \<Rightarrow> if c = BACKSLASH
             then (case escape_step r of [] \<Rightarrow> [] | d # r' \<Rightarrow> d # escape_string r')
             else c # escape_string r)"
  by pat_completeness auto
termination
  by (relation "measure length") (auto simp: escape_step_def split: list.splits if_splits)

declare escape_string.simps [simp del]

lemma escape_string_simps [simp]:
  "escape_string [] = []"
  "escape_string [BACKSLASH] = []"
  "escape_string (BACKSLASH # d # r) = (if d = CHR ''n'' then NL else d) # escape_string r"
  "c \<noteq> BACKSLASH \<Longrightarrow> escape_string (c # r) = c # escape_string r"
  by (subst escape_string.simps; simp add: escape_step_def)+

section \<open>Unfinished values\<close>

datatype VAL_TYPE = VAL_NONE | VAL_OBJ | VAL_ARRAY

datatype json_macro = Json_Macro string "(string \<times> json_macro) list"

text \<open>\<open>obj_already_seen\<close> is a \<open>std::set\<close>: a map to null. \<open>begin_macro\<close> points into the text.\<close>

record json_object =
  obj :: "(variant \<times> variant) list"
  array :: "variant list"
  obj_already_seen :: "(variant \<times> variant) list"
  val_type :: VAL_TYPE
  name :: variant
  base :: variant
  is_base :: bool
  is_call :: bool
  is_deriving :: bool
  require_comma :: bool
  require_colon :: bool
  flatten :: bool
  begin_macro :: "string option"
  obj_preprocess :: bool

definition new_object :: "bool \<Rightarrow> json_object" where
  "new_object preprocess = \<lparr>obj = [], array = [], obj_already_seen = [], val_type = VAL_NONE, name = VNull,
     base = VNull, is_base = False, is_call = False, is_deriving = False, require_comma = False,
     require_colon = False, flatten = False, begin_macro = None, obj_preprocess = preprocess\<rparr>"

definition directive_key :: "variant \<Rightarrow> bool" where
  "directive_key k = (case k of VString s t \<Rightarrow> s \<noteq> [] \<and> hd s = CHR ''@'' | _ \<Rightarrow> False)"

fun insert_base :: "callables \<Rightarrow> (variant \<times> variant) list \<Rightarrow> (variant \<times> variant) list \<Rightarrow> (variant \<times> variant) list option"
where
  "insert_base E m [] = Some m"
| "insert_base E m ((k, v) # n) =
     (if directive_key k then insert_base E m n else do { m' \<leftarrow> map_insert E k v m; insert_base E m' n })"

definition setup_base :: "callables \<Rightarrow> variant \<Rightarrow> json_object \<Rightarrow> json_object option" where
  "setup_base E v ob =
     (if is_null v then Some ob
      else do { m \<leftarrow> insert_base E (obj ob) (as_map v); Some (ob\<lparr>obj := m\<rparr>) })"

text \<open>What \<open>add\<close> appends to the array: the elements of a list, however deep, when the array is flattened.\<close>

fun array_items :: "bool \<Rightarrow> variant \<Rightarrow> variant list" where
  "array_items flat (VList xs) = (if flat then concat (map (array_items flat) xs) else [VList xs])"
| "array_items flat v = [v]"

definition with_base :: "callables \<Rightarrow> variant \<Rightarrow> variant \<Rightarrow> variant option" where
  "with_base E b v =
     (if \<not> is_null b \<and> is_map v then map_option VMap (map_override E (as_map b) (as_map v)) else Some v)"

definition add :: "callables \<Rightarrow> variant \<Rightarrow> variant \<Rightarrow> json_object \<Rightarrow> json_object option" where
  "add E nm v ob =
     (if obj_preprocess ob \<and> is_string nm \<and> as_string nm = Some ''@base'' then Some ob
      else if val_type ob = VAL_OBJ
      then (if is_deriving ob then do { ob' \<leftarrow> setup_base E v ob; Some (ob'\<lparr>is_deriving := False\<rparr>) }
            else do { m \<leftarrow> map_insert E nm v (obj ob); Some (ob\<lparr>obj := m\<rparr>) })
      else do { vs \<leftarrow> all_elements (with_base E (base ob)) (array_items (flatten ob) v);
                Some (ob\<lparr>array := array ob @ vs\<rparr>) })"

definition as_variant :: "json_object \<Rightarrow> variant" where
  "as_variant ob = (if val_type ob = VAL_OBJ then VMap (obj ob) else VList (array ob))"

section \<open>One token\<close>

record parse_state =
  stack :: "json_object list"
  use_preprocessor :: bool
  macros :: "(string \<times> json_macro) list"

text \<open>A failed check gets its place from the token, other errors are passed on.\<close>

datatype step_error = Check parse_msg | Throw parse_error

type_synonym step_result = "step_error + parse_state"

definition asserted :: "'a option \<Rightarrow> step_error + 'a" where
  "asserted x = (case x of None \<Rightarrow> Inl (Throw Assertion_Failed) | Some y \<Rightarrow> Inr y)"

fun then_step :: "'e + 'a \<Rightarrow> ('a \<Rightarrow> 'e + 'b) \<Rightarrow> 'e + 'b" where
  "then_step (Inl e) f = Inl e"
| "then_step (Inr x) f = f x"

lemma then_step_Inr [simp]: "then_step m f = Inr y \<longleftrightarrow> (\<exists>x. m = Inr x \<and> f x = Inr y)"
  by (cases m) auto

text \<open>\<open>add\<close> on the object at the back, which then waits for a comma.\<close>

definition add_to_back :: "callables \<Rightarrow> variant \<Rightarrow> variant \<Rightarrow> json_object list \<Rightarrow> json_object list option" where
  "add_to_back E nm v stk = (case stk of
     [] \<Rightarrow> None
   | ob # rest \<Rightarrow> do { ob' \<leftarrow> add E nm v ob; Some (ob'\<lparr>require_comma := True\<rparr> # rest) })"

definition comma_back :: "json_object list \<Rightarrow> json_object list" where
  "comma_back stk = (case stk of [] \<Rightarrow> [] | ob # rest \<Rightarrow> ob\<lparr>require_comma := True\<rparr> # rest)"

text \<open>\<open>(*macros)[name].reset(new json_macro(std::string(begin_macro, end), *macros))\<close>; the text from
  \<open>end\<close> on is \<open>r\<close>.\<close>

definition define_macro :: "variant \<Rightarrow> string \<Rightarrow> string \<Rightarrow> parse_state \<Rightarrow> parse_state option" where
  "define_macro nm from r st = do {
     key \<leftarrow> as_string nm;
     Some (st\<lparr>macros := (key, Json_Macro (take (length from - length r) from) (macros st)) # macros st,
             use_preprocessor := True\<rparr>) }"

text \<open>A finished value goes to the enclosing object, or becomes a macro.\<close>

definition finish_value :: "callables \<Rightarrow> string option \<Rightarrow> variant \<Rightarrow> variant \<Rightarrow> string \<Rightarrow> parse_state \<Rightarrow> parse_state option" where
  "finish_value E begin nm v r st = (case begin of
     Some from \<Rightarrow> do { st' \<leftarrow> define_macro nm from r st; Some (st'\<lparr>stack := comma_back (stack st')\<rparr>) }
   | None \<Rightarrow> do { stk \<leftarrow> add_to_back E nm v (stack st); Some (st\<lparr>stack := stk\<rparr>) })"

definition colon_step :: "json_object \<Rightarrow> json_object list \<Rightarrow> string \<Rightarrow> parse_state \<Rightarrow> step_result" where
  "colon_step back rest r st =
     (if \<not> require_colon back then Inl (Check Unexpected_Colon)
      else case begin_macro back of
          None \<Rightarrow> Inr (st\<lparr>stack := back\<lparr>require_colon := False\<rparr> # rest\<rparr>)
        | Some p \<Rightarrow> Inr (st\<lparr>stack := back\<lparr>require_colon := False, begin_macro := Some r\<rparr> # rest,
                           use_preprocessor := False\<rparr>))"

definition comma_step :: "json_object \<Rightarrow> json_object list \<Rightarrow> parse_state \<Rightarrow> step_result" where
  "comma_step back rest st =
     (if \<not> require_comma back then Inl (Check Unexpected_Comma)
      else Inr (st\<lparr>stack := back\<lparr>require_comma := False\<rparr> # rest\<rparr>))"

definition lcurly_step :: "callables \<Rightarrow> json_object \<Rightarrow> json_object list \<Rightarrow> parse_state \<Rightarrow> step_result" where
  "lcurly_step E back rest st =
     (if val_type back = VAL_ARRAY
      then then_step (asserted (setup_base E (base back) (new_object (use_preprocessor st))))
             (\<lambda>ob. Inr (st\<lparr>stack := ob\<lparr>val_type := VAL_OBJ\<rparr> # back # rest\<rparr>))
      else if val_type back = VAL_NONE then Inr (st\<lparr>stack := back\<lparr>val_type := VAL_OBJ\<rparr> # rest\<rparr>)
      else Inl (Check Unexpected_LCurly))"

definition lsquare_step :: "json_object \<Rightarrow> json_object list \<Rightarrow> parse_state \<Rightarrow> step_result" where
  "lsquare_step back rest st =
     (if val_type back = VAL_ARRAY
      then Inr (st\<lparr>stack := (new_object (use_preprocessor st))\<lparr>val_type := VAL_ARRAY\<rparr> # back # rest\<rparr>)
      else if val_type back = VAL_NONE then Inr (st\<lparr>stack := back\<lparr>val_type := VAL_ARRAY\<rparr> # rest\<rparr>)
      else Inl (Check Unexpected_LSquare))"

definition rcurly_step :: "callables \<Rightarrow> (json_macro \<Rightarrow> variant \<Rightarrow> parse_error + variant) \<Rightarrow>
    json_object \<Rightarrow> json_object list \<Rightarrow> string \<Rightarrow> parse_state \<Rightarrow> step_result" where
  "rcurly_step E call back rest r st =
     (if val_type back \<noteq> VAL_OBJ then Inl (Check Unexpected_RCurly)
      else let v = as_variant back; st' = st\<lparr>stack := rest\<rparr>
      in if is_base back
         then (case rest of
                 [] \<Rightarrow> Inl (Throw Assertion_Failed)
               | ob # obs \<Rightarrow> Inr (st\<lparr>stack := ob\<lparr>base := v, require_comma := True\<rparr> # obs\<rparr>))
         else if is_call back
         then then_step (asserted (do { x \<leftarrow> variant_index E v (vstr ''@call''); as_string x })) (\<lambda>call_macro.
              case map_of (macros st) call_macro of
                None \<Rightarrow> Inl (Check Macro_Not_Found)
              | Some m \<Rightarrow> (case call m v of
                    Inl e \<Rightarrow> Inl (Throw e)
                  | Inr x \<Rightarrow> asserted (finish_value E None (name back) x r st')))
         else asserted (finish_value E (begin_macro back) (name back) v r st'))"

definition rsquare_step :: "callables \<Rightarrow> json_object \<Rightarrow> json_object list \<Rightarrow> string \<Rightarrow> parse_state \<Rightarrow> step_result" where
  "rsquare_step E back rest r st =
     (if val_type back \<noteq> VAL_ARRAY then Inl (Check Unexpected_RSquare)
      else asserted (finish_value E (begin_macro back) (name back) (as_variant back) r (st\<lparr>stack := rest\<rparr>)))"

definition Macro :: string where "Macro = ''@macro ''"

text \<open>The value of a string token, whether it names a macro or flattens, and the object with its marks.\<close>

definition string_directives :: "(string \<Rightarrow> parse_error + variant) \<Rightarrow> string \<Rightarrow> json_object \<Rightarrow> json_object list \<Rightarrow>
    step_error + (variant \<times> bool \<times> bool \<times> json_object)" where
  "string_directives pre s0 back rest =
     (let is_obj = (val_type back = VAL_OBJ);
          is_macro = (is_obj \<and> length s0 > length Macro \<and> take (length Macro) s0 = Macro);
          s = (if is_macro then drop (length Macro) s0 else s0)
      in case pre s of
           Inl Preprocessor_Failed \<Rightarrow> Inl (Check Preprocessor_Error)
         | Inl e \<Rightarrow> Inl (Throw e)
         | Inr v \<Rightarrow>
             (let back1 = (if is_obj \<and> s = ''@call'' then back\<lparr>is_call := True\<rparr>
                  else if is_obj \<and> rest \<noteq> [] \<and> val_type (hd rest) = VAL_ARRAY \<and> s = ''@base''
                  then back\<lparr>is_base := True\<rparr> else back);
                  back2 = (if is_obj \<and> s = ''@derive'' then back1\<lparr>is_deriving := True\<rparr> else back1)
              in Inr (v, is_macro, s = ''@flatten'', back2)))"

definition string_step :: "callables \<Rightarrow> (string \<Rightarrow> string) \<Rightarrow> (string \<Rightarrow> parse_error + variant) \<Rightarrow>
    json_object \<Rightarrow> json_object list \<Rightarrow> json_token \<Rightarrow> string \<Rightarrow> string \<Rightarrow> parse_state \<Rightarrow> step_result" where
  "string_step E tr pre back0 rest t t_end r st =
     (let s = (if tok_type t = TYPE_STRING then escape_string (tok_text t) else tok_text t)
      in then_step (if use_preprocessor st then string_directives pre s back0 rest
                    else Inr (vstr s, False, False, back0)) (\<lambda>(v0, is_macro, is_flatten, back).
         let v = (case v0 of VString u w \<Rightarrow> (if tok_translate t then VString (tr u) u else v0) | _ \<Rightarrow> v0)
         in if val_type back = VAL_OBJ
            then then_step (asserted (map_find E v (obj_already_seen back))) (\<lambda>found.
                 if found \<noteq> None then Inl (Check Repeated_Attribute)
                 else then_step (asserted (map_insert E v VNull (obj_already_seen back))) (\<lambda>seen.
                 Inr (st\<lparr>stack := (new_object (use_preprocessor st))\<lparr>name := v, require_colon := True,
                        begin_macro := (if is_macro then Some r else None)\<rparr>
                      # back\<lparr>obj_already_seen := seen\<rparr> # rest\<rparr>)))
            else if val_type back = VAL_ARRAY
            then (if is_flatten then Inr (st\<lparr>stack := back\<lparr>flatten := True, require_comma := True\<rparr> # rest\<rparr>)
                  else asserted (do { stk \<leftarrow> add_to_back E (vstr []) v (back # rest); Some (st\<lparr>stack := stk\<rparr>) }))
            else asserted (finish_value E (begin_macro back) (name back) v t_end (st\<lparr>stack := rest\<rparr>))))"

text \<open>Numbers with a \<open>.\<close> are decimals.\<close>

definition literal_value :: "json_token \<Rightarrow> variant option" where
  "literal_value t =
     (if tok_type t = TYPE_NUMBER
      then (if CHR ''.'' \<in> set (tok_text t)
            then map_option (\<lambda>d. VDecimal (dvalue d)) (from_string (tok_text t))
            else Some (VInt (atoi (c_str (tok_text t)))))
      else if tok_type t = TYPE_TRUE_VALUE then Some (VBool True)
      else if tok_type t = TYPE_FALSE_VALUE then Some (VBool False)
      else Some VNull)"

definition literal_step :: "callables \<Rightarrow> json_object \<Rightarrow> json_object list \<Rightarrow> json_token \<Rightarrow> parse_state \<Rightarrow> step_result" where
  "literal_step E back rest t st =
     then_step (asserted (literal_value t)) (\<lambda>v.
       if val_type back = VAL_OBJ then Inl (Check Unexpected_Value_In_Object)
       else asserted (do {
         stk \<leftarrow> (if val_type back = VAL_ARRAY then add_to_back E (vstr []) v (back # rest)
                else add_to_back E (name back) v rest);
         Some (st\<lparr>stack := stk\<rparr>) }))"


text \<open>
  The body of the loop for a token other than the end. \<open>t.end\<close> of a text token is its closing quote, for
  the others it is where the scanner stands.
\<close>

definition token_end :: "json_token \<Rightarrow> string \<Rightarrow> string \<Rightarrow> string" where
  "token_end t s r = (if tok_type t = TYPE_STRING then drop (length s - length r - 1) s else r)"

definition json_step :: "callables \<Rightarrow> (string \<Rightarrow> string) \<Rightarrow> (json_macro \<Rightarrow> variant \<Rightarrow> parse_error + variant) \<Rightarrow>
    (string \<Rightarrow> parse_error + variant) \<Rightarrow> json_token \<Rightarrow> string \<Rightarrow> string \<Rightarrow> parse_state \<Rightarrow> step_result" where
  "json_step E tr call pre t s r st =
     (case stack st of
        back # ob # obs \<Rightarrow>
          if require_colon back \<and> tok_type t \<noteq> TYPE_COLON then Inl (Check Expecting_Colon)
          else if require_comma back \<and> tok_type t \<notin> set [TYPE_COMMA, TYPE_RCURLY, TYPE_RSQUARE]
          then Inl (Check Expecting_Comma)
          else (case tok_type t of
              TYPE_COLON \<Rightarrow> colon_step back (ob # obs) r st
            | TYPE_COMMA \<Rightarrow> comma_step back (ob # obs) st
            | TYPE_LCURLY \<Rightarrow> lcurly_step E back (ob # obs) st
            | TYPE_RCURLY \<Rightarrow> rcurly_step E call back (ob # obs) r st
            | TYPE_LSQUARE \<Rightarrow> lsquare_step back (ob # obs) st
            | TYPE_RSQUARE \<Rightarrow> rsquare_step E back (ob # obs) r st
            | TYPE_STRING \<Rightarrow> string_step E tr pre back (ob # obs) t (token_end t s r) r st
            | TYPE_IDENTIFIER \<Rightarrow> string_step E tr pre back (ob # obs) t (token_end t s r) r st
            | _ \<Rightarrow> literal_step E back (ob # obs) t st)
      | _ \<Rightarrow> Inl (Check Unexpected_At_End))"

section \<open>The parser\<close>

definition parse_error_at :: "string \<Rightarrow> string \<Rightarrow> parse_msg \<Rightarrow> nat \<Rightarrow> parse_error" where
  "parse_error_at doc fname msg pos = Parse_Error msg fname (get_line_num doc pos) (get_col_number doc pos)"

definition located :: "string \<Rightarrow> string \<Rightarrow> nat \<Rightarrow> step_error \<Rightarrow> parse_error" where
  "located doc fname pos e = (case e of Check msg \<Rightarrow> parse_error_at doc fname msg pos | Throw e \<Rightarrow> e)"

definition error_text :: "tokenizer_error \<Rightarrow> string" where
  "error_text e = (case e of Eof_In_String s \<Rightarrow> s | Two_Decimal_Points s \<Rightarrow> s | Minus_In_Number s \<Rightarrow> s
     | Unexpected_Character s \<Rightarrow> s | Uninitialised_Type \<Rightarrow> [])"

definition tokenizer_parse_error :: "string \<Rightarrow> string \<Rightarrow> tokenizer_error \<Rightarrow> parse_error" where
  "tokenizer_parse_error doc fname e =
     (if e = Uninitialised_Type then Assertion_Failed
      else parse_error_at doc fname (Tokenizer_Error e) (length doc - length (error_text e)))"

text \<open>\<open>t.begin - doc.c_str()\<close>\<close>

definition token_pos :: "string \<Rightarrow> json_token \<Rightarrow> string \<Rightarrow> nat" where
  "token_pos doc t r =
     length doc - (length (tok_text t) + (if tok_type t = TYPE_STRING then 1 else 0) + length r)"

function parse_loop :: "callables \<Rightarrow> (string \<Rightarrow> string) \<Rightarrow> (json_macro \<Rightarrow> variant \<Rightarrow> parse_error + variant) \<Rightarrow>
    (string \<Rightarrow> parse_error + variant) \<Rightarrow> string \<Rightarrow> string \<Rightarrow> string \<Rightarrow> parse_state \<Rightarrow> parse_error + parse_state" where
  "parse_loop E tr call pre doc fname s st = (case json_get_token s of
     Inl e \<Rightarrow> Inl (tokenizer_parse_error doc fname e)
   | Inr (t, r) \<Rightarrow>
       if tok_type t = NUM_TYPES then Inr st
       else (case json_step E tr call pre t s r st of
               Inl e \<Rightarrow> Inl (located doc fname (token_pos doc t r) e)
             | Inr st' \<Rightarrow> parse_loop E tr call pre doc fname r st'))"
  by pat_completeness auto
termination
  by (relation "measure (\<lambda>(E, tr, call, pre, doc, fname, s, st). length s)")
    (auto dest: json_get_token_shorter)

declare parse_loop.simps [simp del]

definition initial_state :: "bool \<Rightarrow> (string \<times> json_macro) list \<Rightarrow> parse_state" where
  "initial_state use_pp ms =
     \<lparr>stack = [new_object use_pp, (new_object use_pp)\<lparr>val_type := VAL_ARRAY\<rparr>],
      use_preprocessor = use_pp, macros = ms\<rparr>"

definition parse_result :: "string \<Rightarrow> string \<Rightarrow> parse_state \<Rightarrow> parse_error + variant" where
  "parse_result doc fname st = (case stack st of
     [ob] \<Rightarrow> (case array ob of [v] \<Rightarrow> Inr v | _ \<Rightarrow> Inl (parse_error_at doc fname Unexpected_End (length doc)))
   | _ \<Rightarrow> Inl (parse_error_at doc fname Unexpected_End (length doc)))"

record parse_env =
  variants :: callables
  translation :: "string \<Rightarrow> string"
  map_file :: "string \<Rightarrow> string"
  read_file :: "string \<Rightarrow> string"
  pseudo_file_contents :: "(string \<times> string) list"
  evaluate :: "string \<Rightarrow> (string \<times> variant) list option \<Rightarrow> variant option"

definition set_file_contents :: "string \<Rightarrow> string \<Rightarrow> parse_env \<Rightarrow> parse_env" where
  "set_file_contents path contents env =
     env\<lparr>pseudo_file_contents := (path, contents) # pseudo_file_contents env\<rparr>"

definition get_file_contents :: "parse_env \<Rightarrow> string \<Rightarrow> string" where
  "get_file_contents env path = (case map_of (pseudo_file_contents env) path of
     Some c \<Rightarrow> c | None \<Rightarrow> read_file env (map_file env path))"

text \<open>The arguments of a formula: the pairs of an object, whose keys must be texts.\<close>

fun callable_of :: "(variant \<times> variant) list \<Rightarrow> (string \<times> variant) list option" where
  "callable_of [] = Some []"
| "callable_of ((k, v) # m) = do { s \<leftarrow> as_string k; r \<leftarrow> callable_of m; Some ((s, v) # r) }"

definition asserted_value :: "'a option \<Rightarrow> parse_error + 'a" where
  "asserted_value x = (case x of None \<Rightarrow> Inl Assertion_Failed | Some v \<Rightarrow> Inr v)"

text \<open>One element of a list of included files.\<close>

fun include_all :: "(string \<Rightarrow> parse_error + variant) \<Rightarrow> string list \<Rightarrow> parse_error + variant list" where
  "include_all parse [] = Inr []"
| "include_all parse (f # fs) =
     then_step (parse f) (\<lambda>v. then_step (include_all parse fs) (\<lambda>vs.
       Inr ((if is_list v then as_list v else [v]) @ vs)))"

definition include_directive :: "parse_env \<Rightarrow> (string \<Rightarrow> parse_error + variant) \<Rightarrow> string \<Rightarrow> parse_error + variant" where
  "include_directive env parse fname =
     (let file = takeWhile (\<lambda>c. c \<noteq> CHR '':'') fname
      in if CHR '':'' \<in> set fname \<and> CHR '' '' \<notin> set file
         then then_step (parse (map_file env file)) (\<lambda>doc.
                asserted_value (do { vars \<leftarrow> callable_of (as_map doc);
                                     evaluate env (drop (length file + 1) fname) (Some vars) }))
         else let includes = split_char fname (CHR '' '') default_flags
              in case includes of
                   [f] \<Rightarrow> parse (map_file env fname)
                 | _ \<Rightarrow> then_step (include_all (\<lambda>f. parse (map_file env f)) includes) (\<lambda>vs. Inr (VList vs)))"

definition preprocess_string_value ::
  "parse_env \<Rightarrow> (string \<Rightarrow> parse_error + variant) \<Rightarrow> (string \<times> variant) list option \<Rightarrow> string \<Rightarrow> parse_error + variant" where
  "preprocess_string_value env parse callable input =
     (if input = [] \<or> hd input \<noteq> CHR ''@'' then Inr (vstr input)
      else if length input > 1 \<and> input ! 1 = CHR ''@'' then Inr (vstr (tl input))
      else if input \<in> set [''@base'', ''@derive'', ''@call'', ''@flatten''] then Inr (vstr input)
      else let directive = takeWhile (\<lambda>c. c \<noteq> CHR '' '') input; i = dropWhile (\<lambda>c. c \<noteq> CHR '' '') input
      in if directive = ''@include''
         then include_directive env parse (dropWhile (\<lambda>c. c = CHR '' '') i)
         else if directive = ''@eval'' then asserted_value (evaluate env i callable)
         else Inl Preprocessor_Failed)"

type_synonym doc_parser =
  "string \<Rightarrow> string \<Rightarrow> bool \<Rightarrow> (string \<times> json_macro) list \<Rightarrow> (string \<times> variant) list option \<Rightarrow> parse_error + variant"

definition rename_error :: "string \<Rightarrow> parse_error \<Rightarrow> parse_error" where
  "rename_error fname e = (case e of Parse_Error m f l c \<Rightarrow> Parse_Error m fname l c | _ \<Rightarrow> e)"

definition parse_file_with :: "parse_env \<Rightarrow> doc_parser \<Rightarrow> string \<Rightarrow> bool \<Rightarrow> parse_error + variant" where
  "parse_file_with env parser fname use_pp =
     (let data = get_file_contents env fname
      in case (if data = [] then Inl (Parse_Error File_Not_Found [] (-1) (-1)) else parser data fname use_pp [] None) of
           Inl e \<Rightarrow> Inl (rename_error fname e)
         | Inr v \<Rightarrow> Inr v)"

definition call_macro_with :: "doc_parser \<Rightarrow> json_macro \<Rightarrow> variant \<Rightarrow> parse_error + variant" where
  "call_macro_with parser m arg = (case m of Json_Macro code ms \<Rightarrow>
     then_step (asserted_value (callable_of (as_map arg))) (\<lambda>vars. parser code [] True ms (Some vars)))"

definition parse_with :: "parse_env \<Rightarrow> doc_parser \<Rightarrow> doc_parser" where
  "parse_with env parser doc fname use_pp ms callable =
     then_step (parse_loop (variants env) (translation env) (call_macro_with parser)
                  (preprocess_string_value env (\<lambda>f. parse_file_with env parser f True) callable)
                  doc fname doc (initial_state use_pp ms))
       (parse_result doc fname)"

text \<open>The fuel is the depth of included files and macro calls.\<close>

primrec parse_internal :: "nat \<Rightarrow> parse_env \<Rightarrow> doc_parser" where
  "parse_internal 0 env = parse_with env (\<lambda>doc fname use_pp ms callable. Inl Out_Of_Fuel)"
| "parse_internal (Suc n) env = parse_with env (parse_internal n env)"

definition parse :: "nat \<Rightarrow> parse_env \<Rightarrow> string \<Rightarrow> bool \<Rightarrow> parse_error + variant" where
  "parse n env doc use_pp = parse_internal n env doc [] use_pp [] None"

definition parse_from_file :: "nat \<Rightarrow> parse_env \<Rightarrow> string \<Rightarrow> bool \<Rightarrow> parse_error + variant" where
  "parse_from_file n env fname use_pp = parse_file_with env (parse_internal n env) fname use_pp"


section \<open>JSON texts\<close>

text \<open>
  A text of a value: what the parser should accept. Between the tokens stands white space; the keys of an
  object come in the order of the map. With \<open>pp\<close>, the preprocessor is on, and no text begins with \<open>@\<close>.
\<close>

definition blank :: "string \<Rightarrow> bool" where "blank ws \<longleftrightarrow> (\<forall>c \<in> set ws. isspace c)"

definition plain_text :: "bool \<Rightarrow> string \<Rightarrow> bool" where
  "plain_text pp s \<longleftrightarrow> (pp \<longrightarrow> s = [] \<or> hd s \<noteq> CHR ''@'')"

definition json_string :: "string \<Rightarrow> string" where
  "json_string s = QUOTE # escape_json QUOTE s @ [QUOTE]"

inductive json_text :: "bool \<Rightarrow> variant \<Rightarrow> string \<Rightarrow> bool"
  and elems_text :: "bool \<Rightarrow> variant list \<Rightarrow> string \<Rightarrow> bool"
  and pairs_text :: "bool \<Rightarrow> (variant \<times> variant) list \<Rightarrow> string \<Rightarrow> bool" where
  json_null: "json_text pp VNull ''null''"
| json_bool: "json_text pp (VBool b) (show_bool b)"
| json_int: "i32 i \<Longrightarrow> json_text pp (VInt i) (show_int i)"
| json_decimal: "i64 d \<Longrightarrow> d \<noteq> - 9223372036854775808 \<Longrightarrow> dec_to_string (from_raw_value d) = Some s \<Longrightarrow>
    json_text pp (VDecimal d) s"
| json_str: "plain_text pp s \<Longrightarrow> json_text pp (vstr s) (json_string s)"
| json_list: "elems_text pp xs u \<Longrightarrow> json_text pp (VList xs) (CHR ''['' # u)"
| json_map: "pairs_text pp m u \<Longrightarrow> json_text pp (VMap m) (CHR ''{'' # u)"
| elems_none: "blank ws \<Longrightarrow> elems_text pp [] (ws @ '']'')"
| elems_last: "blank ws \<Longrightarrow> json_text pp x t \<Longrightarrow> blank ws' \<Longrightarrow> elems_text pp [x] (ws @ t @ ws' @ '']'')"
| elems_more: "blank ws \<Longrightarrow> json_text pp x t \<Longrightarrow> elems_text pp (y # xs) u \<Longrightarrow>
    elems_text pp (x # y # xs) (ws @ t @ '','' @ u)"
| pairs_none: "blank ws \<Longrightarrow> pairs_text pp [] (ws @ ''}'')"
| pairs_last: "blank ws \<Longrightarrow> plain_text pp k \<Longrightarrow> blank ws1 \<Longrightarrow> json_text pp v t \<Longrightarrow> blank ws2 \<Longrightarrow>
    pairs_text pp [(vstr k, v)] (ws @ json_string k @ '':'' @ ws1 @ t @ ws2 @ ''}'')"
| pairs_more: "blank ws \<Longrightarrow> plain_text pp k \<Longrightarrow> blank ws1 \<Longrightarrow> json_text pp v t \<Longrightarrow> pairs_text pp ((vstr k', v') # m) u \<Longrightarrow>
    \<not> string_le k' k \<Longrightarrow>
    pairs_text pp ((vstr k, v) # (vstr k', v') # m) (ws @ json_string k @ '':'' @ ws1 @ t @ '','' @ u)"

section \<open>Tokens of JSON texts\<close>

lemma skip_space_blank [simp]: "isspace c \<Longrightarrow> skip_space (c # s) = skip_space s"
  by (subst skip_space.simps) simp

definition token_start :: "char \<Rightarrow> bool" where
  "token_start c \<longleftrightarrow> \<not> isspace c \<and> c \<noteq> CHR ''/'' \<and> c \<noteq> CHR ''#''"

lemma skip_space_start [simp]: "token_start c \<Longrightarrow> skip_space (c # s) = Inr (c # s)"
  by (subst skip_space.simps) (simp add: token_start_def)

lemma json_get_token_blank: "blank ws \<Longrightarrow> json_get_token (ws @ s) = json_get_token s"
  by (induction ws) (auto simp: blank_def json_get_token_def)

lemma json_get_token_Nil [simp]:
  "json_get_token [] = Inr (\<lparr>tok_type = NUM_TYPES, tok_text = [], tok_translate = False\<rparr>, [])"
  by (simp add: json_get_token_def skip_space.simps)

lemma json_get_token_punct:
  "c \<in> set ''{}[]:,'' \<Longrightarrow>
    json_get_token (c # s) = Inr (\<lparr>tok_type = punctuation c, tok_text = [c], tok_translate = False\<rparr>, s)"
  by (auto simp: json_get_token_def strchr_def token_start_def isspace_def)

lemma scan_string_escaped:
  "q \<noteq> BACKSLASH \<Longrightarrow> scan_string q (escape_json q s @ q # r) = Some (escape_json q s, r)"
proof (induction s)
  case Nil
  then show ?case by (cases r) (simp_all add: escape_json_def)
next
  case (Cons c s)
  have step: "escape_json q (c # s) = (if c = BACKSLASH \<or> c = q then [BACKSLASH, c] else [c]) @ escape_json q s"
    by (simp add: escape_json_def)
  obtain d u where "escape_json q s @ q # r = d # u" by (cases "escape_json q s @ q # r") auto
  then show ?case using Cons step by (auto simp: BACKSLASH_def)
qed

lemma escape_string_escaped: "escape_string (escape_json QUOTE s) = s"
proof (induction s)
  case Nil
  then show ?case by (simp add: escape_json_def)
next
  case (Cons c s)
  have "escape_json QUOTE (c # s) = (if c = BACKSLASH \<or> c = QUOTE then [BACKSLASH, c] else [c]) @ escape_json QUOTE s"
    by (simp add: escape_json_def)
  then show ?case using Cons by (auto simp: QUOTE_def BACKSLASH_def[symmetric]) (simp_all add: BACKSLASH_def)
qed

lemma json_get_token_string:
  "json_get_token (json_string s @ r)
    = Inr (\<lparr>tok_type = TYPE_STRING, tok_text = escape_json QUOTE s, tok_translate = False\<rparr>, r)"
proof -
  have "token_start QUOTE" by (simp add: token_start_def isspace_def QUOTE_def)
  moreover have "scan_string QUOTE (escape_json QUOTE s @ QUOTE # r) = Some (escape_json QUOTE s, r)"
    by (rule scan_string_escaped) (simp add: QUOTE_def BACKSLASH_def)
  ultimately show ?thesis
    by (simp add: json_get_token_def json_string_def strchr_def QUOTE_def)
qed

text \<open>What may follow a value.\<close>

definition follow :: "string \<Rightarrow> bool" where
  "follow r \<longleftrightarrow> r = [] \<or> hd r \<in> set '',]}'' \<or> isspace (hd r)"

lemma follow_blank: "blank ws \<Longrightarrow> c \<in> set '',]}'' \<Longrightarrow> follow (ws @ c # r)"
  by (cases ws) (auto simp: follow_def blank_def)

lemma follow_not:
  assumes "follow (c # r)"
  shows "\<not> ident_char c" "\<not> isdigit c" "c \<noteq> CHR ''.''" "c \<noteq> CHR ''-''"
  using assms by (auto simp: follow_def ident_char_def char_class_defs)


lemma json_get_token_word:
  assumes "w \<in> set [''null'', ''true'', ''false'']" and "follow r"
  shows "json_get_token (w @ r) = Inr (\<lparr>tok_type = json_word_type w, tok_text = w, tok_translate = False\<rparr>, r)"
proof -
  have id: "\<forall>c \<in> set w. ident_char c" using assms(1) by (auto simp: ident_char_def char_class_defs)
  have "takeWhile ident_char r = []" "dropWhile ident_char r = r"
    using assms(2) follow_not(1) by (cases r; auto)+
  then have tw: "takeWhile ident_char (w @ r) = w" "dropWhile ident_char (w @ r) = r"
    using id by (simp_all add: takeWhile_append2)
  obtain c cs where w: "w = c # cs" using assms(1) by (cases w) auto
  then have "c \<in> set ''ntf''" using assms(1) by auto
  then have "isalpha c" "token_start c" "\<not> strchr ''{}[]:,'' c" "c \<noteq> CHR 0x22" "c \<noteq> CHR 0x27" "c \<noteq> CHR ''~''"
    by (auto simp: token_start_def char_class_defs strchr_def)
  then show ?thesis using tw w by (simp add: json_get_token_def Let_def)
qed

lemma scan_number_digits:
  "\<forall>c \<in> set ds. isdigit c \<Longrightarrow> scan_number first dec (ds @ s) =
     (case scan_number (first \<and> ds = []) dec s of Inl e \<Rightarrow> Inl e | Inr (t, r) \<Rightarrow> Inr (ds @ t, r))"
proof (induction ds arbitrary: first)
  case Nil
  then show ?case by (simp split: sum.splits)
next
  case (Cons d ds)
  then have "d \<noteq> CHR ''.''" "d \<noteq> CHR ''-''" using isdigit_neq by auto
  then show ?case using Cons by (simp split: sum.splits prod.splits)
qed

lemma scan_number_follow: "follow r \<Longrightarrow> scan_number first dec r = Inr ([], r)"
  using follow_not by (cases r) auto

definition fraction_text :: "string \<Rightarrow> bool" where
  "fraction_text f \<longleftrightarrow> f = [] \<or> (hd f = CHR ''.'' \<and> (\<forall>c \<in> set (tl f). isdigit c))"

lemma scan_number_fraction: "fraction_text f \<Longrightarrow> follow r \<Longrightarrow> scan_number first False (f @ r) = Inr (f, r)"
  by (cases f) (auto simp: fraction_text_def scan_number_follow scan_number_digits)

lemma json_get_token_number:
  assumes "ds \<noteq> []" and "\<forall>c \<in> set ds. isdigit c" and "fraction_text f" and "follow r"
    and "sign = [] \<or> sign = ''-''"
  shows "json_get_token ((sign @ ds @ f) @ r)
    = Inr (\<lparr>tok_type = TYPE_NUMBER, tok_text = sign @ ds @ f, tok_translate = False\<rparr>, r)"
proof -
  have n: "scan_number first False (ds @ f @ r) = Inr (ds @ f, r)" for first
    using scan_number_digits[OF assms(2)] scan_number_fraction[OF assms(3,4)] by simp
  obtain c cs where c: "(sign @ ds @ f) @ r = c # cs" "c = CHR ''-'' \<or> isdigit c"
    using assms(1,2,5) by (cases ds) auto
  have "scan_number True False (c # cs) = Inr (sign @ ds @ f, r)"
    unfolding c(1)[symmetric] using assms(5) n by auto
  moreover have "token_start c" "\<not> strchr ''{}[]:,'' c" "c \<noteq> CHR 0x22" "c \<noteq> CHR 0x27" "c \<noteq> CHR ''~''"
      "\<not> isalpha c" "c \<noteq> CHR ''_''"
    using c(2) by (auto simp: token_start_def char_class_defs strchr_def)
  ultimately show ?thesis using c by (auto simp: json_get_token_def)
qed

lemma show_int_split:
  "\<exists>sign ds. show_int i = sign @ ds \<and> (sign = [] \<or> sign = ''-'') \<and> ds \<noteq> [] \<and> (\<forall>c \<in> set ds. isdigit c)"
proof (cases "i < 0")
  case True
  then have "show_int i = ''-'' @ show_nat (nat (- i))" by (simp add: show_int_def)
  then show ?thesis using show_nat_digits show_nat_nonempty by blast
next
  case False
  then have "show_int i = [] @ show_nat (nat i)" by (simp add: show_int_def)
  then show ?thesis using show_nat_digits show_nat_nonempty by blast
qed

section \<open>What a value does to the stack\<close>

abbreviation value_token :: "variant \<Rightarrow> string \<Rightarrow> bool" where
  "value_token v s \<equiv> (\<forall>r. follow r \<longrightarrow> (\<exists>t. json_get_token (s @ r) = Inr (t, r) \<and> literal_value t = Some v
     \<and> tok_type t \<in> set [TYPE_NUMBER, TYPE_TRUE_VALUE, TYPE_FALSE_VALUE, TYPE_NULL_VALUE]))"

lemma word_tokens:
  "value_token VNull ''null''" "value_token (VBool b) (show_bool b)"
  using json_get_token_word[of "''null''"] json_get_token_word[of "show_bool b"]
  by (auto simp: json_word_type_def literal_value_def show_bool_def)

lemma int_token:
  assumes "i32 i"
  shows "value_token (VInt i) (show_int i)"
proof (intro allI impI)
  fix r assume r: "follow r"
  obtain sign ds where d: "show_int i = sign @ ds" "sign = [] \<or> sign = ''-''" "ds \<noteq> []" "\<forall>c \<in> set ds. isdigit c"
    using show_int_split by blast
  let ?t = "\<lparr>tok_type = TYPE_NUMBER, tok_text = show_int i, tok_translate = False\<rparr>"
  have "json_get_token (show_int i @ r) = Inr (?t, r)"
    using json_get_token_number[OF d(3,4) _ r d(2), of "[]"] d(1) by (simp add: fraction_text_def)
  moreover have "CHR ''.'' \<notin> set ds" "NUL \<notin> set ds" using d(4) isdigit_neq(3,5) by blast+
  then have "CHR ''.'' \<notin> set (show_int i)" "NUL \<notin> set (show_int i)" unfolding d(1) using d(2) by auto
  moreover have "atoi (show_int i) = i"
    using strtol_show_int[of i "[]"] assms by (simp add: atoi_def i64_def i32_def)
  ultimately show "\<exists>t. json_get_token (show_int i @ r) = Inr (t, r) \<and> literal_value t = Some (VInt i)
     \<and> tok_type t \<in> set [TYPE_NUMBER, TYPE_TRUE_VALUE, TYPE_FALSE_VALUE, TYPE_NULL_VALUE]"
    by (intro exI[of _ ?t]) (simp add: literal_value_def c_str_id)
qed

lemma decimal_token:
  assumes "i64 d" and "d \<noteq> - 9223372036854775808" and "dec_to_string (from_raw_value d) = Some s"
  shows "value_token (VDecimal d) s"
proof (intro allI impI)
  fix r assume r: "follow r"
  let ?sign = "if d < 0 then ''-'' else ''''" and ?ds = "show_nat (nat (\<bar>d\<bar> div 1000000))"
  from dec_printed[OF assms(1,2)] obtain ds' where ds: "\<forall>c \<in> set ds'. isdigit c"
      "dec_to_string (from_raw_value d) = Some (?sign @ ?ds @ CHR ''.'' # ds')"
      "from_string (?sign @ ?ds @ CHR ''.'' # ds') = Some (from_raw_value d)"
    by blast
  have s: "s = ?sign @ ?ds @ CHR ''.'' # ds'" using ds(2) assms(3) by (simp only: option.inject)
  let ?t = "\<lparr>tok_type = TYPE_NUMBER, tok_text = s, tok_translate = False\<rparr>"
  have "fraction_text (CHR ''.'' # ds')" using ds(1) by (simp add: fraction_text_def)
  moreover have "?sign = [] \<or> ?sign = ''-''" by simp
  ultimately have "json_get_token (s @ r) = Inr (?t, r)"
    unfolding s by (rule json_get_token_number[OF show_nat_nonempty show_nat_digits _ r])
  then show "\<exists>t. json_get_token (s @ r) = Inr (t, r) \<and> literal_value t = Some (VDecimal d)
     \<and> tok_type t \<in> set [TYPE_NUMBER, TYPE_TRUE_VALUE, TYPE_FALSE_VALUE, TYPE_NULL_VALUE]"
    using ds(3)[folded s] s by (intro exI[of _ ?t]) (simp add: literal_value_def)
qed


text \<open>The objects on the stack while a JSON text is read.\<close>

definition array_ob :: "bool \<Rightarrow> bool \<Rightarrow> variant list \<Rightarrow> variant \<Rightarrow> json_object" where
  "array_ob pp comma xs nm = (new_object pp)\<lparr>val_type := VAL_ARRAY, array := xs, require_comma := comma, name := nm\<rparr>"

definition obj_ob :: "bool \<Rightarrow> bool \<Rightarrow> (variant \<times> variant) list \<Rightarrow> (variant \<times> variant) list \<Rightarrow> variant \<Rightarrow> json_object" where
  "obj_ob pp comma m seen nm = (new_object pp)\<lparr>val_type := VAL_OBJ, obj := m, obj_already_seen := seen,
     require_comma := comma, name := nm\<rparr>"

definition none_ob :: "bool \<Rightarrow> bool \<Rightarrow> variant \<Rightarrow> json_object" where
  "none_ob pp colon nm = (new_object pp)\<lparr>name := nm, require_colon := colon\<rparr>"

lemmas ob_defs = array_ob_def obj_ob_def none_ob_def new_object_def

definition reading :: "bool \<Rightarrow> (string \<times> json_macro) list \<Rightarrow> json_object list \<Rightarrow> parse_state" where
  "reading pp ms stk = \<lparr>stack = stk, use_preprocessor = pp, macros = ms\<rparr>"

text \<open>Where a value may stand, and the stack after it.\<close>

inductive value_here :: "callables \<Rightarrow> bool \<Rightarrow> variant \<Rightarrow> json_object list \<Rightarrow> json_object list \<Rightarrow> bool" where
  in_array: "value_here E pp v (array_ob pp False xs nm # ob # obs) (array_ob pp True (xs @ [v]) nm # ob # obs)"
| in_object: "map_insert E (vstr k) v m = Some (m @ [(vstr k, v)]) \<Longrightarrow> plain_text pp k \<Longrightarrow>
    value_here E pp v (none_ob pp False (vstr k) # obj_ob pp False m seen nm # ob # obs)
      (obj_ob pp True (m @ [(vstr k, v)]) seen nm # ob # obs)"
| at_start: "value_here E pp v [none_ob pp False VNull, array_ob pp False [] VNull] [array_ob pp True [v] VNull]"

lemma array_items_unflattened [simp]: "array_items False v = [v]"
  by (cases v) simp_all

lemma with_base_null [simp]: "with_base E VNull v = Some v"
  by (simp add: with_base_def)

lemma plain_key_base: "plain_text pp k \<Longrightarrow> pp \<Longrightarrow> k \<noteq> ''@base''"
  by (auto simp: plain_text_def)

lemma add_array [simp]:
  "nm = VNull \<or> nm = vstr [] \<Longrightarrow>
    add_to_back E nm v (array_ob pp c xs nm' # stk) = Some (array_ob pp True (xs @ [v]) nm' # stk)"
  by (auto simp: add_to_back_def add_def as_string_def ob_defs)

lemma add_object:
  "map_insert E (vstr k) v m = Some (m @ [(vstr k, v)]) \<Longrightarrow> plain_text pp k \<Longrightarrow>
    add_to_back E (vstr k) v (obj_ob pp c m seen nm' # stk)
      = Some (obj_ob pp True (m @ [(vstr k, v)]) seen nm' # stk)"
  using plain_key_base[of pp k] by (auto simp: add_to_back_def add_def as_string_def ob_defs)

lemma open_steps:
  "lsquare_step (array_ob pp c xs nm) rest (reading pp ms stk)
    = Inr (reading pp ms (array_ob pp False [] VNull # array_ob pp c xs nm # rest))"
  "lcurly_step E (array_ob pp c xs nm) rest (reading pp ms stk)
    = Inr (reading pp ms (obj_ob pp False [] [] VNull # array_ob pp c xs nm # rest))"
  "lsquare_step (none_ob pp False nm) rest (reading pp ms stk) = Inr (reading pp ms (array_ob pp False [] nm # rest))"
  "lcurly_step E (none_ob pp False nm) rest (reading pp ms stk) = Inr (reading pp ms (obj_ob pp False [] [] nm # rest))"
  by (simp_all add: lsquare_step_def lcurly_step_def setup_base_def asserted_def reading_def ob_defs)

lemma ob_flags [simp]:
  "\<not> require_colon (array_ob pp c xs nm)" "require_comma (array_ob pp c xs nm) = c"
  "\<not> require_colon (obj_ob pp c m seen nm)" "require_comma (obj_ob pp c m seen nm) = c"
  "require_colon (none_ob pp c nm) = c" "\<not> require_comma (none_ob pp c nm)"
  "val_type (array_ob pp c xs nm) = VAL_ARRAY" "val_type (obj_ob pp c m seen nm) = VAL_OBJ"
  "val_type (none_ob pp c nm) = VAL_NONE" "name (none_ob pp c nm) = nm"
  "begin_macro (none_ob pp c nm) = None"
  by (simp_all add: ob_defs)

lemma reading_simps [simp]:
  "stack (reading pp ms stk) = stk" "use_preprocessor (reading pp ms stk) = pp"
  "(reading pp ms stk)\<lparr>stack := stk'\<rparr> = reading pp ms stk'"
  by (simp_all add: reading_def)

lemma ob_updates [simp]:
  "obj_already_seen (obj_ob pp c m seen nm) = seen"
  "(obj_ob pp c m seen nm)\<lparr>obj_already_seen := seen'\<rparr> = obj_ob pp c m seen' nm"
  "(obj_ob pp c m seen nm)\<lparr>require_comma := b\<rparr> = obj_ob pp b m seen nm"
  "(array_ob pp c xs nm)\<lparr>require_comma := b\<rparr> = array_ob pp b xs nm"
  "(none_ob pp c nm)\<lparr>require_colon := b\<rparr> = none_ob pp b nm"
  "(new_object pp)\<lparr>name := nm, require_colon := b, begin_macro := None\<rparr> = none_ob pp b nm"
  by (simp_all add: ob_defs)

text \<open>The name and the objects below a list or an object that is opened where a value may stand.\<close>

lemma value_here_open:
  assumes "value_here E pp v stk stk'"
  shows "\<exists>nm stk0. stk0 \<noteq> [] \<and> add_to_back E nm v stk0 = Some stk'
    \<and> (\<exists>back ob obs. stk = back # ob # obs \<and> \<not> require_colon back \<and> \<not> require_comma back
      \<and> lsquare_step back (ob # obs) (reading pp ms stk) = Inr (reading pp ms (array_ob pp False [] nm # stk0))
      \<and> lcurly_step E back (ob # obs) (reading pp ms stk) = Inr (reading pp ms (obj_ob pp False [] [] nm # stk0)))"
  using assms
proof cases
  case (in_array xs nm ob obs)
  then show ?thesis by (intro exI[of _ VNull] exI[of _ stk]) (simp add: open_steps)
next
  case (in_object k m seen nm ob obs)
  then show ?thesis by (intro exI[of _ "vstr k"] exI[of _ "tl stk"]) (simp add: open_steps add_object)
next
  case at_start
  then show ?thesis by (intro exI[of _ VNull] exI[of _ "tl stk"]) (simp add: open_steps)
qed

section \<open>Reading a JSON text\<close>

lemma parse_loop_step:
  assumes "json_get_token s = Inr (t, r)" and "tok_type t \<noteq> NUM_TYPES"
    and "json_step E tr call pre t s r st = Inr st'"
  shows "parse_loop E tr call pre doc fname s st = parse_loop E tr call pre doc fname r st'"
  using assms by (subst parse_loop.simps) simp

lemma parse_loop_blank:
  assumes "blank ws"
  shows "parse_loop E tr call pre doc fname (ws @ s) st = parse_loop E tr call pre doc fname s st"
proof -
  have tok: "token_end t (ws @ s) r = token_end t s r" if "length r < length s" for t r
    using that by (simp add: token_end_def)
  have step: "json_step E tr call pre t (ws @ s) r st = json_step E tr call pre t s r st"
    if "length r < length s" for t r
    unfolding json_step_def by (simp only: tok[OF that])
  show ?thesis
    by (subst (1 2) parse_loop.simps)
      (auto simp: json_get_token_blank[OF assms] step dest: json_get_token_shorter split: sum.splits)
qed

lemma close_list:
  assumes "add_to_back E nm (VList xs) stk0 = Some stk'"
  shows "rsquare_step E (array_ob pp c xs nm) stk0 r (reading pp ms stk) = Inr (reading pp ms stk')"
  using assms by (simp add: rsquare_step_def finish_value_def asserted_def reading_def as_variant_def ob_defs)

lemma close_object:
  assumes "add_to_back E nm (VMap m) stk0 = Some stk'"
  shows "rcurly_step E call (obj_ob pp c m seen nm) stk0 r (reading pp ms stk) = Inr (reading pp ms stk')"
  using assms by (simp add: rcurly_step_def finish_value_def asserted_def reading_def as_variant_def ob_defs)

lemma literal_here:
  assumes "value_here E pp v stk stk'" and "literal_value t = Some v"
    and "tok_type t \<in> set [TYPE_NUMBER, TYPE_TRUE_VALUE, TYPE_FALSE_VALUE, TYPE_NULL_VALUE]"
  shows "json_step E tr call pre t s r (reading pp ms stk) = Inr (reading pp ms stk')"
proof -
  have step: "json_step E tr call pre t s r (reading pp ms (bk # ob # obs))
      = literal_step E bk (ob # obs) t (reading pp ms (bk # ob # obs))"
    if "\<not> require_colon bk" "\<not> require_comma bk" for bk ob obs
    using assms(3) that by (auto simp: json_step_def)
  show ?thesis
    using assms(1)
    by cases (simp_all add: step literal_step_def assms(2) asserted_def add_object)
qed

text \<open>The keys of \<open>m\<close> come before \<open>k\<close>.\<close>

definition keys_before :: "(variant \<times> variant) list \<Rightarrow> string \<Rightarrow> bool" where
  "keys_before m k \<longleftrightarrow> (\<forall>p \<in> set m. \<exists>k'. fst p = vstr k' \<and> \<not> string_le k k')"

lemma string_le_trans: "\<not> string_le b a \<Longrightarrow> \<not> string_le c b \<Longrightarrow> \<not> string_le c a"
  unfolding string_le_code by (meson le_less_trans less_imp_le not_le)

lemma string_le_total: "\<not> string_le b a \<Longrightarrow> string_le a b"
  unfolding string_le_code by simp

lemma map_insert_after: "keys_before m k \<Longrightarrow> map_insert E (vstr k) v m = Some (m @ [(vstr k, v)])"
  by (induction m) (auto simp: keys_before_def variant_less_def)

lemma map_find_after: "keys_before m k \<Longrightarrow> map_find E (vstr k) m = Some None"
  by (induction m) (auto simp: keys_before_def variant_less_def)

definition seen_keys :: "(variant \<times> variant) list \<Rightarrow> (variant \<times> variant) list" where
  "seen_keys m = map (\<lambda>p. (fst p, VNull)) m"

lemma keys_before_seen: "keys_before m k \<Longrightarrow> keys_before (seen_keys m) k"
  by (auto simp: keys_before_def seen_keys_def)

text \<open>What the parser needs of the preprocessor to read data: texts that name no directive stay as they are.\<close>

locale text_preprocessor =
  fixes preprocess :: "string \<Rightarrow> parse_error + variant"
  assumes plain_unchanged: "plain_text True s \<Longrightarrow> preprocess s = Inr (vstr s)"
begin

lemma string_here:
  assumes "plain_text pp s"
  shows "(if pp then string_directives preprocess s back rest else Inr (vstr s, False, False, back))
    = Inr (vstr s, False, False, back)"
proof (cases pp)
  case True
  then have p: "plain_text True s" "s = [] \<or> hd s \<noteq> CHR ''@''" using assms by (auto simp: plain_text_def)
  have "s \<noteq> ''@call''" "s \<noteq> ''@base''" "s \<noteq> ''@flatten''" "s \<noteq> ''@derive''" using p(2) by auto
  moreover have "take (length Macro) s \<noteq> Macro"
    using p(2) by (cases s) (auto simp: Macro_def)
  ultimately show ?thesis
    using True plain_unchanged[OF p(1)] by (simp add: string_directives_def Let_def)
qed simp

lemma text_token_here:
  assumes "value_here E pp (vstr s) stk stk'" and "plain_text pp s"
  shows "json_step E tr call preprocess \<lparr>tok_type = TYPE_STRING, tok_text = escape_json QUOTE s, tok_translate = False\<rparr>
      u r (reading pp ms stk) = Inr (reading pp ms stk')"
proof -
  let ?t = "\<lparr>tok_type = TYPE_STRING, tok_text = escape_json QUOTE s, tok_translate = False\<rparr>"
  have step: "json_step E tr call preprocess ?t u r (reading pp ms (bk # ob # obs))
      = string_step E tr preprocess bk (ob # obs) ?t (token_end ?t u r) r (reading pp ms (bk # ob # obs))"
    if "\<not> require_colon bk" "\<not> require_comma bk" for bk ob obs
    using that by (auto simp: json_step_def)
  show ?thesis
    using assms(1)
    by cases (simp_all add: step string_step_def string_here[OF assms(2)] escape_string_escaped
        asserted_def finish_value_def add_object)
qed

text \<open>A key and its colon.\<close>

lemma key_here:
  assumes "keys_before m k" and "plain_text pp k" and "stk0 \<noteq> []"
  shows "parse_loop E tr call preprocess doc fname (json_string k @ CHR '':'' # u)
      (reading pp ms (obj_ob pp False m (seen_keys m) nm # stk0))
    = parse_loop E tr call preprocess doc fname u
      (reading pp ms (none_ob pp False (vstr k) # obj_ob pp False m (seen_keys (m @ [(vstr k, v)])) nm # stk0))"
proof -
  let ?t = "\<lparr>tok_type = TYPE_STRING, tok_text = escape_json QUOTE k, tok_translate = False\<rparr>"
  let ?mid = "reading pp ms (none_ob pp True (vstr k) # obj_ob pp False m (seen_keys (m @ [(vstr k, v)])) nm # stk0)"
  obtain ob obs where stk0: "stk0 = ob # obs" using assms(3) by (cases stk0) auto
  have "json_step E tr call preprocess ?t (json_string k @ CHR '':'' # u) (CHR '':'' # u)
      (reading pp ms (obj_ob pp False m (seen_keys m) nm # stk0)) = Inr ?mid"
    using map_find_after[OF keys_before_seen[OF assms(1)]] map_insert_after[OF keys_before_seen[OF assms(1)]]
    by (simp add: json_step_def stk0 string_step_def string_here[OF assms(2)] escape_string_escaped asserted_def
        seen_keys_def Let_def)
  from parse_loop_step[OF json_get_token_string _ this]
  have first: "parse_loop E tr call preprocess doc fname (json_string k @ CHR '':'' # u)
      (reading pp ms (obj_ob pp False m (seen_keys m) nm # stk0))
      = parse_loop E tr call preprocess doc fname (CHR '':'' # u) ?mid" by simp
  let ?c = "\<lparr>tok_type = TYPE_COLON, tok_text = '':'', tok_translate = False\<rparr>"
  have tok: "json_get_token (CHR '':'' # u) = Inr (?c, u)"
    using json_get_token_punct[of "CHR '':''" u] by (simp add: punctuation_def)
  have "json_step E tr call preprocess ?c (CHR '':'' # u) u ?mid
      = Inr (reading pp ms (none_ob pp False (vstr k) # obj_ob pp False m (seen_keys (m @ [(vstr k, v)])) nm # stk0))"
    by (simp add: json_step_def stk0 colon_step_def)
  from parse_loop_step[OF tok _ this] first show ?thesis by simp
qed

end


context text_preprocessor
begin

lemma closing_tokens:
  "json_get_token (CHR '']'' # r) = Inr (\<lparr>tok_type = TYPE_RSQUARE, tok_text = '']'', tok_translate = False\<rparr>, r)"
  "json_get_token (CHR ''}'' # r) = Inr (\<lparr>tok_type = TYPE_RCURLY, tok_text = ''}'', tok_translate = False\<rparr>, r)"
  "json_get_token (CHR '','' # r) = Inr (\<lparr>tok_type = TYPE_COMMA, tok_text = '','', tok_translate = False\<rparr>, r)"
  "json_get_token (CHR ''['' # r) = Inr (\<lparr>tok_type = TYPE_LSQUARE, tok_text = ''['', tok_translate = False\<rparr>, r)"
  "json_get_token (CHR ''{'' # r) = Inr (\<lparr>tok_type = TYPE_LCURLY, tok_text = ''{'', tok_translate = False\<rparr>, r)"
  by (simp_all add: json_get_token_punct punctuation_def)

lemma list_end:
  assumes "add_to_back E nm (VList xs) stk0 = Some stk'" and "stk0 \<noteq> []"
  shows "parse_loop E tr call preprocess doc fname (CHR '']'' # r) (reading pp ms (array_ob pp c xs nm # stk0))
    = parse_loop E tr call preprocess doc fname r (reading pp ms stk')"
  using assms
  by (cases stk0) (simp_all add: parse_loop_step[OF closing_tokens(1)] json_step_def close_list)

lemma object_end:
  assumes "add_to_back E nm (VMap m) stk0 = Some stk'" and "stk0 \<noteq> []"
  shows "parse_loop E tr call preprocess doc fname (CHR ''}'' # r) (reading pp ms (obj_ob pp c m seen nm # stk0))
    = parse_loop E tr call preprocess doc fname r (reading pp ms stk')"
  using assms
  by (cases stk0) (simp_all add: parse_loop_step[OF closing_tokens(2)] json_step_def close_object)

lemma comma_between:
  assumes "stk0 \<noteq> []"
  shows "parse_loop E tr call preprocess doc fname (CHR '','' # r) (reading pp ms (array_ob pp True xs nm # stk0))
      = parse_loop E tr call preprocess doc fname r (reading pp ms (array_ob pp False xs nm # stk0))"
    and "parse_loop E tr call preprocess doc fname (CHR '','' # r) (reading pp ms (obj_ob pp True m seen nm # stk0))
      = parse_loop E tr call preprocess doc fname r (reading pp ms (obj_ob pp False m seen nm # stk0))"
  using assms
  by (cases stk0; simp add: parse_loop_step[OF closing_tokens(3)] json_step_def comma_step_def)+

lemma list_start:
  assumes "value_here E pp (VList xs) stk stk'"
  shows "\<exists>nm stk0. stk0 \<noteq> [] \<and> add_to_back E nm (VList xs) stk0 = Some stk'
    \<and> (\<forall>r. parse_loop E tr call preprocess doc fname (CHR ''['' # r) (reading pp ms stk)
          = parse_loop E tr call preprocess doc fname r (reading pp ms (array_ob pp False [] nm # stk0)))"
proof -
  obtain nm stk0 bk ob obs where o: "stk0 \<noteq> []" "add_to_back E nm (VList xs) stk0 = Some stk'"
      "stk = bk # ob # obs" "\<not> require_colon bk" "\<not> require_comma bk"
      "lsquare_step bk (ob # obs) (reading pp ms stk) = Inr (reading pp ms (array_ob pp False [] nm # stk0))"
    using value_here_open[OF assms] by blast
  have "parse_loop E tr call preprocess doc fname (CHR ''['' # r) (reading pp ms stk)
          = parse_loop E tr call preprocess doc fname r (reading pp ms (array_ob pp False [] nm # stk0))" for r
    using o by (intro parse_loop_step[OF closing_tokens(4)]) (simp_all add: json_step_def)
  then show ?thesis using o(1,2) by blast
qed

lemma object_start:
  assumes "value_here E pp (VMap m) stk stk'"
  shows "\<exists>nm stk0. stk0 \<noteq> [] \<and> add_to_back E nm (VMap m) stk0 = Some stk'
    \<and> (\<forall>r. parse_loop E tr call preprocess doc fname (CHR ''{'' # r) (reading pp ms stk)
          = parse_loop E tr call preprocess doc fname r (reading pp ms (obj_ob pp False [] [] nm # stk0)))"
proof -
  obtain nm stk0 bk ob obs where o: "stk0 \<noteq> []" "add_to_back E nm (VMap m) stk0 = Some stk'"
      "stk = bk # ob # obs" "\<not> require_colon bk" "\<not> require_comma bk"
      "lcurly_step E bk (ob # obs) (reading pp ms stk) = Inr (reading pp ms (obj_ob pp False [] [] nm # stk0))"
    using value_here_open[OF assms] by blast
  have "parse_loop E tr call preprocess doc fname (CHR ''{'' # r) (reading pp ms stk)
          = parse_loop E tr call preprocess doc fname r (reading pp ms (obj_ob pp False [] [] nm # stk0))" for r
    using o by (intro parse_loop_step[OF closing_tokens(5)]) (simp_all add: json_step_def)
  then show ?thesis using o(1,2) by blast
qed

text \<open>A number or word is one token.\<close>

lemma literal_read:
  assumes "value_token v s" and "value_here E pp v stk stk'" and "follow r"
  shows "parse_loop E tr call preprocess doc fname (s @ r) (reading pp ms stk)
    = parse_loop E tr call preprocess doc fname r (reading pp ms stk')"
proof -
  obtain t where t: "json_get_token (s @ r) = Inr (t, r)" "literal_value t = Some v"
      "tok_type t \<in> set [TYPE_NUMBER, TYPE_TRUE_VALUE, TYPE_FALSE_VALUE, TYPE_NULL_VALUE]"
    using assms(1,3) by blast
  show ?thesis
    by (rule parse_loop_step[OF t(1) _ literal_here[OF assms(2) t(2,3)]]) (use t(3) in auto)
qed

end


context text_preprocessor
begin

lemma element_here: "stk0 \<noteq> [] \<Longrightarrow> value_here E pp v (array_ob pp False xs nm # stk0) (array_ob pp True (xs @ [v]) nm # stk0)"
  by (cases stk0) (auto intro: value_here.in_array)

lemma member_here:
  assumes "keys_before m k" and "plain_text pp k" and "stk0 \<noteq> []"
  shows "value_here E pp v (none_ob pp False (vstr k) # obj_ob pp False m seen nm # stk0)
    (obj_ob pp True (m @ [(vstr k, v)]) seen nm # stk0)"
  using assms by (cases stk0) (auto intro: value_here.in_object simp: map_insert_after)

lemma keys_before_snoc:
  "keys_before m k \<Longrightarrow> \<not> string_le k' k \<Longrightarrow> keys_before (m @ [(vstr k, v)]) k'"
  using string_le_trans by (fastforce simp: keys_before_def)

text \<open>The texts of a value, of the rest of a list and of the rest of an object lead the parser past them.\<close>

lemma text_read:
  shows "json_text pp v s \<Longrightarrow> value_here E pp v stk stk' \<Longrightarrow> follow r \<Longrightarrow>
      parse_loop E tr call preprocess doc fname (s @ r) (reading pp ms stk)
        = parse_loop E tr call preprocess doc fname r (reading pp ms stk')"
    and "elems_text pp xs u \<Longrightarrow> stk0 \<noteq> [] \<Longrightarrow> add_to_back E nm (VList (acc @ xs)) stk0 = Some stk' \<Longrightarrow>
      parse_loop E tr call preprocess doc fname (u @ r) (reading pp ms (array_ob pp False acc nm # stk0))
        = parse_loop E tr call preprocess doc fname r (reading pp ms stk')"
    and "pairs_text pp m u \<Longrightarrow> stk0 \<noteq> [] \<Longrightarrow> (\<And>k v m'. m = (vstr k, v) # m' \<Longrightarrow> keys_before macc k) \<Longrightarrow>
      add_to_back E nm (VMap (macc @ m)) stk0 = Some stk' \<Longrightarrow>
      parse_loop E tr call preprocess doc fname (u @ r) (reading pp ms (obj_ob pp False macc (seen_keys macc) nm # stk0))
        = parse_loop E tr call preprocess doc fname r (reading pp ms stk')"
proof (induction arbitrary: stk stk' r and stk0 nm acc stk' r and stk0 nm macc stk' r
    rule: json_text_elems_text_pairs_text.inducts)
  case (json_null pp)
  then show ?case by (intro literal_read[OF word_tokens(1)])
next
  case (json_bool pp b)
  then show ?case by (intro literal_read[OF word_tokens(2)])
next
  case (json_int i pp)
  then show ?case by (intro literal_read[OF int_token])
next
  case (json_decimal d s pp)
  then show ?case by (intro literal_read[OF decimal_token])
next
  case (json_str pp s)
  show ?case
    by (rule parse_loop_step[OF json_get_token_string _ text_token_here[OF json_str(2,1)]]) simp
next
  case (json_list pp xs u)
  obtain nm stk0 where o: "stk0 \<noteq> []" "add_to_back E nm (VList xs) stk0 = Some stk'"
      "\<And>r. parse_loop E tr call preprocess doc fname (CHR ''['' # r) (reading pp ms stk)
          = parse_loop E tr call preprocess doc fname r (reading pp ms (array_ob pp False [] nm # stk0))"
    using list_start[OF json_list(3)] by blast
  show ?case using json_list.IH[of stk0 nm "[]" stk' r] o by simp
next
  case (json_map pp m u)
  obtain nm stk0 where o: "stk0 \<noteq> []" "add_to_back E nm (VMap m) stk0 = Some stk'"
      "\<And>r. parse_loop E tr call preprocess doc fname (CHR ''{'' # r) (reading pp ms stk)
          = parse_loop E tr call preprocess doc fname r (reading pp ms (obj_ob pp False [] [] nm # stk0))"
    using object_start[OF json_map(3)] by blast
  show ?case using json_map.IH[of stk0 "[]" nm stk' r] o by (simp add: keys_before_def seen_keys_def)
next
  case (elems_none ws pp)
  then show ?case by (simp add: parse_loop_blank list_end)
next
  case (elems_last ws pp x t ws')
  have f: "follow (ws' @ CHR '']'' # r)" using elems_last(3) by (intro follow_blank) auto
  show ?case
    using elems_last(4)[OF element_here[OF elems_last(5)] f] elems_last(1,3,5,6)
    by (simp add: parse_loop_blank list_end)
next
  case (elems_more ws pp x t y xs u)
  have f: "follow (CHR '','' # u @ r)" by (simp add: follow_def)
  show ?case
    using elems_more(4)[OF element_here[OF elems_more(6)] f] elems_more(1,6,7)
      elems_more(5)[of stk0 nm "acc @ [x]" stk' r]
    by (simp add: parse_loop_blank comma_between)
next
  case (pairs_none ws pp)
  then show ?case by (simp add: parse_loop_blank object_end)
next
  case (pairs_last ws pp k ws1 v t ws2)
  have kb: "keys_before macc k" using pairs_last(8) by blast
  have f: "follow (ws2 @ CHR ''}'' # r)" using pairs_last(5) by (intro follow_blank) auto
  show ?case
    using pairs_last(6)[OF member_here[OF kb pairs_last(2,7)] f] key_here[OF kb pairs_last(2,7), where v = v]
      pairs_last(1,3,5,7,9)
    by (simp add: parse_loop_blank object_end)
next
  case (pairs_more ws pp k ws1 v t k' v' m u)
  have kb: "keys_before macc k" using pairs_more(10) by blast
  have f: "follow (CHR '','' # u @ r)" by (simp add: follow_def)
  show ?case
    using pairs_more(7)[OF member_here[OF kb pairs_more(2,9)] f] key_here[OF kb pairs_more(2,9), where v = v]
      pairs_more(8)[of stk0 "macc @ [(vstr k, v)]" nm stk' r] pairs_more(1,3,9,11)
      keys_before_snoc[OF kb pairs_more(6)]
    by (simp add: parse_loop_blank comma_between)
qed

end


interpretation string_values: text_preprocessor "preprocess_string_value env parser callable" for env parser callable
  by unfold_locales (auto simp: preprocess_string_value_def plain_text_def)

section \<open>Data that is written and read back\<close>

text \<open>The keys of an object in ascending order.\<close>

fun ascending :: "(variant \<times> variant) list \<Rightarrow> bool" where
  "ascending ((VString k t, v) # (VString k' t', v') # m) = (\<not> string_le k' k \<and> ascending ((VString k' t', v') # m))"
| "ascending m = True"

definition json_key_text :: "bool \<Rightarrow> variant \<Rightarrow> bool" where
  "json_key_text pp k = (case k of
     VString s t \<Rightarrow> t = [] \<and> plain_text pp s \<and> QUOTE \<notin> set s \<and> BACKSLASH \<notin> set s | _ \<Rightarrow> False)"

fun jsonable :: "bool \<Rightarrow> variant \<Rightarrow> bool" where
  "jsonable pp VNull = True"
| "jsonable pp (VBool b) = True"
| "jsonable pp (VInt i) = i32 i"
| "jsonable pp (VDecimal d) = (i64 d \<and> d \<noteq> - 9223372036854775808)"
| "jsonable pp (VString s t) = (t = [] \<and> plain_text pp s)"
| "jsonable pp (VList xs) = (\<forall>x \<in> set xs. jsonable pp x)"
| "jsonable pp (VMap m) = (ascending m \<and> (\<forall>p \<in> set m. json_key_text pp (fst p) \<and> jsonable pp (snd p)))"
| "jsonable pp v = False"

lemma escape_json_id: "QUOTE \<notin> set s \<Longrightarrow> BACKSLASH \<notin> set s \<Longrightarrow> escape_json QUOTE s = s"
  by (induction s) (auto simp: escape_json_def)

lemma write_json_string_plain: "write_json_string s [] = json_string s"
  by (simp add: write_json_string_def json_string_def escape_json_id Let_def)

lemma json_key_written: "json_key_text pp k \<Longrightarrow> \<exists>s. k = vstr s \<and> plain_text pp s \<and> json_key E k = Some (json_string s @ '':'')"
  by (cases k) (auto simp: json_key_text_def json_string_def escape_json_id)

text \<open>An element and a member after white space.\<close>

definition item_text :: "bool \<Rightarrow> variant \<Rightarrow> string \<Rightarrow> bool" where
  "item_text pp x s \<longleftrightarrow> (\<exists>ws t. s = ws @ t \<and> blank ws \<and> json_text pp x t)"

definition member_text :: "bool \<Rightarrow> variant \<times> variant \<Rightarrow> string \<Rightarrow> bool" where
  "member_text pp p s \<longleftrightarrow> (\<exists>k ws ws1 t. fst p = vstr k \<and> plain_text pp k \<and> s = ws @ json_string k @ '':'' @ ws1 @ t
      \<and> blank ws \<and> blank ws1 \<and> json_text pp (snd p) t)"

lemma item_textI: "blank ws \<Longrightarrow> json_text pp x t \<Longrightarrow> item_text pp x (ws @ t)"
  by (auto simp: item_text_def)

lemma member_textI:
  "blank ws \<Longrightarrow> plain_text pp k \<Longrightarrow> blank ws1 \<Longrightarrow> json_text pp v t \<Longrightarrow>
    member_text pp (vstr k, v) (ws @ json_string k @ '':'' @ ws1 @ t)"
  by (auto simp: member_text_def)

lemma elems_joined:
  assumes "list_all2 (item_text pp) xs ss" and "blank ws'"
  shows "elems_text pp xs (join_text '','' ss @ ws' @ '']'')"
  using assms
proof (induction xs ss rule: list_all2_induct)
  case (Cons x xs s ss)
  then obtain ws t where s: "s = ws @ t" "blank ws" "json_text pp x t" by (auto simp: item_text_def)
  show ?case
  proof (cases xs)
    case Nil
    then show ?thesis using Cons s by (auto intro: elems_last)
  next
    case (Cons y ys)
    then obtain s' ss' where ss: "ss = s' # ss'" using Cons.hyps(2) by (cases ss) auto
    have "elems_text pp xs (join_text '','' ss @ ws' @ '']'')" using Cons.IH Cons Cons.prems by simp
    then show ?thesis using elems_more[OF s(2,3), of y ys] s(1) Cons ss by simp
  qed
qed (simp add: elems_none)

lemma pairs_joined:
  assumes "list_all2 (member_text pp) m ss" and "blank ws'" and "ascending m"
  shows "pairs_text pp m (join_text '','' ss @ ws' @ ''}'')"
  using assms
proof (induction m ss rule: list_all2_induct)
  case (Cons p m s ss)
  then obtain k ws ws1 t where s: "fst p = vstr k" "plain_text pp k" "s = ws @ json_string k @ '':'' @ ws1 @ t"
      "blank ws" "blank ws1" "json_text pp (snd p) t" by (auto simp: member_text_def)
  then obtain v where p: "p = (vstr k, v)" by (cases p) auto
  show ?case
  proof (cases m)
    case Nil
    then have "ss = []" using Cons.hyps(2) by simp
    then show ?thesis using pairs_last[OF s(4,2,5) _ Cons.prems(1), of v t] s p Nil by simp
  next
    case (Cons q m')
    then obtain s' ss' where ss: "ss = s' # ss'" using Cons.hyps(2) by (cases ss) auto
    then obtain k' where "fst q = vstr k'" using Cons.hyps(2) Cons by (auto simp: member_text_def)
    then obtain w where q: "q = (vstr k', w)" by (cases q) auto
    have asc: "\<not> string_le k' k" "ascending m" using Cons.prems(2) unfolding Cons p q by simp_all
    then have "pairs_text pp m (join_text '','' ss @ ws' @ ''}'')" using Cons.IH Cons Cons.prems by simp
    then show ?thesis
      using pairs_more[OF s(4,2,5), of v t k' w m' "join_text '','' ss @ ws' @ ''}''"] s p q asc(1) Cons ss by simp
  qed
qed (simp add: pairs_none)

text \<open>Every element written gives the list of the texts.\<close>

lemma elems_written:
  assumes "\<And>x. x \<in> set xs \<Longrightarrow> \<exists>s. write_json E x = Some s \<and> json_text pp x s"
  shows "\<exists>ss. json_elems E xs = Some ss \<and> list_all2 (item_text pp) xs ss"
  using assms
proof (induction xs)
  case (Cons x xs)
  obtain s where s: "write_json E x = Some s" "json_text pp x s" using Cons.prems by auto
  obtain ss where ss: "json_elems E xs = Some ss" "list_all2 (item_text pp) xs ss" using Cons by auto
  have "item_text pp x s" using item_textI[of "[]" pp x s] s(2) by (simp add: blank_def)
  then show ?case using s(1) ss by simp
qed simp

lemma pretty_elems_written:
  assumes "blank indent" and "\<And>x. x \<in> set xs \<Longrightarrow> \<exists>s. write_json_pretty E indent x = Some s \<and> json_text pp x s"
  shows "\<exists>ss. pretty_elems E indent xs = Some ss \<and> list_all2 (item_text pp) xs ss"
  using assms(2)
proof (induction xs)
  case (Cons x xs)
  obtain s where s: "write_json_pretty E indent x = Some s" "json_text pp x s" using Cons.prems by auto
  obtain ss where ss: "pretty_elems E indent xs = Some ss" "list_all2 (item_text pp) xs ss" using Cons by auto
  have "item_text pp x ([NL] @ indent @ s)"
    using item_textI[of "[NL] @ indent" pp x s] s(2) assms(1) by (simp add: blank_def isspace_def)
  then show ?case using s(1) ss by simp
qed simp

lemma pairs_written:
  assumes "\<And>p. p \<in> set m \<Longrightarrow> json_key_text pp (fst p) \<and> (\<exists>s. write_json E (snd p) = Some s \<and> json_text pp (snd p) s)"
  shows "\<exists>ss. json_pairs E m = Some ss \<and> list_all2 (member_text pp) m ss"
  using assms
proof (induction m)
  case (Cons p m)
  obtain k v where p: "p = (k, v)" by (cases p)
  obtain s where s: "write_json E v = Some s" "json_text pp v s" using Cons.prems[of p] p by auto
  obtain ks where k: "k = vstr ks" "plain_text pp ks" "json_key E k = Some (json_string ks @ '':'')"
    using json_key_written[of pp k E] Cons.prems[of p] p by auto
  obtain ss where ss: "json_pairs E m = Some ss" "list_all2 (member_text pp) m ss" using Cons by auto
  have "member_text pp p ((json_string ks @ '':'') @ s)"
    using member_textI[of "[]" pp ks "[]" v s] s(2) k p by (simp add: blank_def)
  then show ?case using s(1) k(3) ss p by simp
qed simp

lemma pretty_pairs_written:
  assumes "blank indent" and "\<And>p. p \<in> set m \<Longrightarrow>
    json_key_text pp (fst p) \<and> (\<exists>s. write_json_pretty E indent (snd p) = Some s \<and> json_text pp (snd p) s)"
  shows "\<exists>ss. pretty_pairs E indent m = Some ss \<and> list_all2 (member_text pp) m ss"
  using assms(2)
proof (induction m)
  case (Cons p m)
  obtain k v where p: "p = (k, v)" by (cases p)
  obtain s where s: "write_json_pretty E indent v = Some s" "json_text pp v s" using Cons.prems[of p] p by auto
  obtain ks where k: "k = vstr ks" "plain_text pp ks" "json_key E k = Some (json_string ks @ '':'')"
    using json_key_written[of pp k E] Cons.prems[of p] p by auto
  obtain ss where ss: "pretty_pairs E indent m = Some ss" "list_all2 (member_text pp) m ss" using Cons by auto
  have "member_text pp p ([NL] @ indent @ (json_string ks @ '':'') @ '' '' @ s)"
    using member_textI[of "[NL] @ indent" pp ks "'' ''" v s] s(2) k p assms(1) by (simp add: blank_def isspace_def)
  then show ?case using s(1) k(3) ss p by simp
qed simp

lemma list_written:
  assumes "list_all2 (item_text pp) xs ss" and "blank ws"
  shows "json_text pp (VList xs) (''['' @ join_text '','' ss @ ws @ '']'')"
  using json_list[OF elems_joined[OF assms]] by simp

lemma map_written:
  assumes "list_all2 (member_text pp) m ss" and "blank ws" and "ascending m"
  shows "json_text pp (VMap m) (''{'' @ join_text '','' ss @ ws @ ''}'')"
  using json_map[OF pairs_joined[OF assms]] by simp

lemma blank_Nil [simp]: "blank []"
  by (simp add: blank_def)

lemma json_written:
  assumes "jsonable pp v"
  shows "(\<exists>s. write_json E v = Some s \<and> json_text pp v s)
    \<and> (\<forall>indent. blank indent \<longrightarrow> (\<exists>s. write_json_pretty E indent v = Some s \<and> json_text pp v s))"
  using assms
proof (induction v)
  case (VDecimal d)
  then show ?case using dec_printed[of d] by (auto intro: json_decimal)
next
  case (VString s t)
  then show ?case by (auto simp: write_json_string_plain intro: json_str)
next
  case (VList xs)
  have "\<exists>ss. json_elems E xs = Some ss \<and> list_all2 (item_text pp) xs ss"
    by (rule elems_written) (use VList in auto)
  then have c: "\<exists>s. write_json E (VList xs) = Some s \<and> json_text pp (VList xs) s"
    using list_written[of pp xs _ "[]"] by auto
  have "\<exists>s. write_json_pretty E indent (VList xs) = Some s \<and> json_text pp (VList xs) s" if b: "blank indent" for indent
  proof (cases "list_ex (\<lambda>x. is_list x \<or> is_map x) xs")
    case False
    then show ?thesis using c by simp
  next
    case True
    have tab: "blank (indent @ [CHR 0x09])" using b by (simp add: blank_def isspace_def)
    obtain ss where ss: "pretty_elems E (indent @ [CHR 0x09]) xs = Some ss" "list_all2 (item_text pp) xs ss"
      using pretty_elems_written[OF tab] VList tab by force
    have "xs \<noteq> []" using True by auto
    moreover have "blank ([NL] @ indent)" using b by (simp add: blank_def isspace_def)
    ultimately show ?thesis using list_written[OF ss(2), of "[NL] @ indent"] ss(1) True by simp
  qed
  then show ?case using c by blast
next
  case (VMap m)
  have asc: "ascending m" using VMap by simp
  have "\<exists>ss. json_pairs E m = Some ss \<and> list_all2 (member_text pp) m ss"
    by (rule pairs_written) (use VMap in fastforce)
  then have c: "\<exists>s. write_json E (VMap m) = Some s \<and> json_text pp (VMap m) s"
    using map_written[of pp m _ "[]", OF _ _ asc] by auto
  have "\<exists>s. write_json_pretty E indent (VMap m) = Some s \<and> json_text pp (VMap m) s" if b: "blank indent" for indent
  proof -
    have tab: "blank (indent @ [CHR 0x09])" using b by (simp add: blank_def isspace_def)
    have "\<exists>ss. pretty_pairs E (indent @ [CHR 0x09]) m = Some ss \<and> list_all2 (member_text pp) m ss"
      by (rule pretty_pairs_written[OF tab]) (use VMap tab in fastforce)
    then obtain ss where ss: "pretty_pairs E (indent @ [CHR 0x09]) m = Some ss" "list_all2 (member_text pp) m ss" by blast
    have "blank ([NL] @ indent)" using b by (simp add: blank_def isspace_def)
    then show ?thesis using map_written[OF ss(2) _ asc, of "[NL] @ indent"] ss(1) by simp
  qed
  then show ?case using c by blast
qed (auto intro: json_text_elems_text_pairs_text.intros)

section \<open>Properties\<close>

lemma parse_text:
  assumes "json_text pp v s" and "blank ws" and "blank ws'"
  shows "parse n env (ws @ s @ ws') pp = Inr v"
proof -
  have start: "initial_state pp [] = reading pp [] [none_ob pp False VNull, array_ob pp False [] VNull]"
    by (simp add: initial_state_def reading_def ob_defs)
  have follow: "follow ws'" using assms(3) by (cases ws') (auto simp: follow_def blank_def)
  have "parse_loop E tr call (preprocess_string_value env parser callable) doc fname (ws @ s @ ws') (initial_state pp [])
      = Inr (reading pp [] [array_ob pp True [v] VNull])" for E tr call parser callable doc fname
    unfolding start parse_loop_blank[OF assms(2)] string_values.text_read(1)[OF assms(1) at_start follow]
    using parse_loop_blank[OF assms(3), where s = "[]"] by (simp add: parse_loop.simps[where s = "[]"])
  then have "parse_with env parser (ws @ s @ ws') [] pp [] None = Inr v" for parser
    by (simp add: parse_with_def parse_result_def array_ob_def)
  then show ?thesis by (cases n) (simp_all add: parse_def)
qed




text \<open>C3: Data written as JSON is read back unchanged, from the compact and from the indented form: null,
  truth values, 32-bit numbers, decimals, texts with any characters, lists, and objects whose keys are texts
  without quotes or backslashes, in the order of the map. With the preprocessor on, the texts must not begin
  with \<open>@\<close>.\<close>

theorem json_roundtrip:
  assumes "jsonable pp v"
  shows "(\<exists>s. write_json (variants env) v = Some s \<and> parse n env s pp = Inr v)
    \<and> (\<exists>s. write_json_pretty (variants env) [] v = Some s \<and> parse n env s pp = Inr v)"
proof -
  obtain s t where s: "write_json (variants env) v = Some s" "json_text pp v s"
      and t: "write_json_pretty (variants env) [] v = Some t" "json_text pp v t"
    using json_written[OF assms, of "variants env"] blank_Nil by blast
  show ?thesis
    using s(1) parse_text[OF s(2) blank_Nil blank_Nil] t(1) parse_text[OF t(2) blank_Nil blank_Nil] by simp
qed

lemma json_roundtrip_witness:
  "\<forall>env. \<exists>s. write_json_pretty (variants env) [] (VMap [(vstr ''a'', VList [VInt 1, VDecimal (- 500000)]), (vstr ''b'', vstr ''q'')])
     = Some s \<and> parse 0 env s True = Inr (VMap [(vstr ''a'', VList [VInt 1, VDecimal (- 500000)]), (vstr ''b'', vstr ''q'')])"
proof -
  have "jsonable True (VMap [(vstr ''a'', VList [VInt 1, VDecimal (- 500000)]), (vstr ''b'', vstr ''q'')])"
    by (simp add: range_defs json_key_text_def plain_text_def char_code_def QUOTE_def BACKSLASH_def)
  then show ?thesis using json_roundtrip by blast
qed

section \<open>Where writing and reading do not agree\<close>

text \<open>A key with a quote is written without a backslash, and a translated text without characters to
  escape is written as its translation, which is translated again when it is read.\<close>

lemma key_with_quote_lost:
  "write_json E (VMap [(vstr [QUOTE], VNull)]) = Some (''{'' @ [QUOTE, QUOTE, QUOTE] @ '':null}'')"
  by simp

lemma translation_written:
  "translated \<noteq> [] \<Longrightarrow> s \<noteq> [] \<Longrightarrow> BACKSLASH \<notin> set s \<Longrightarrow> CHR ''~'' \<notin> set s \<Longrightarrow>
    write_json E (VString translated s) = Some (CHR ''~'' # translated @ ''~'')"
  by (simp add: write_json_string_def Let_def)

text \<open>Columns are counted from two: the first character of a line has column 2.\<close>

lemma first_column: "doc \<noteq> [] \<Longrightarrow> hd doc \<noteq> NL \<Longrightarrow> hd doc \<noteq> CR \<Longrightarrow> get_col_number doc 0 = 2"
  by (cases doc) (simp_all add: get_col_number_def)

text \<open>A macro whose value is a number is not stored, and leaves the preprocessor off.\<close>

lemma number_macro:
  "begin_macro bk = Some p \<Longrightarrow> val_type bk = VAL_NONE \<Longrightarrow> literal_value t = Some v \<Longrightarrow>
    literal_step E bk rest t st = Inr st' \<Longrightarrow>
    macros st' = macros st \<and> use_preprocessor st' = use_preprocessor st"
  by (auto simp: literal_step_def asserted_def bind_eq_Some_conv split: option.splits)


text \<open>A macro whose value is a text ends before the closing quote: its code cannot be parsed.\<close>

lemma string_macro_unclosed:
  "tok_type t = TYPE_STRING \<Longrightarrow> token_end t (q # tok_text t @ q # r) r = q # r"
  by (simp add: token_end_def)

text \<open>Errors of an included file are reported with the name of the outermost one, but its own line.\<close>

lemma include_error_renamed:
  "parse_file_with env parser fname pp = Inl (Parse_Error m f l c) \<Longrightarrow> f = fname"
  by (auto simp: parse_file_with_def rename_error_def Let_def split: sum.splits parse_error.splits)


end
