(* ===== verification/Spec2Isabelle.thy ===== *)
theory Spec2Isabelle
  imports CT_Decimal CT_Level_Solid_Map CT_Solid_Map CT_Lockstep CT_Base64 CT_Geometry CT_Random CT_Formula_Tokenizer CT_Formula_Ops CT_Formula_Grammar CT_Pathfinding CT_Json_Parser
begin

text \<open>
  A verification library for the engine of Cube Trains Redux (\<open>src/src\<close>).

  The engine runs levels of objects whose behaviour is given in data files (JSON with macros) and in formulas, a
  small functional language over one type of values. A level advances in cycles; every cycle each player's controls are
  read, in a network game also those of the peers, and every object acts on them. The peers do not exchange the state
  of the level: they exchange controls only and have to compute the same. Hence the fixed-point numbers, the seeded
  generator of random numbers and the control packets, with which this library begins.

  \<^bold>\<open>Theories\<close> (the names of definitions are those of the code, with a suffix where they would clash)

  \<^item> \<open>CT_Prelude\<close>: integer ranges, checked and truncating arithmetic, growing vectors, regions of a map, longest prefixes.
  \<^item> \<open>CT_CLib\<close>: what is used of the C library: character classes, \<open>strtol\<close>, \<open>atoi\<close>, printing of integers.
  \<^item> \<open>CT_Decimal\<close>: \<open>decimal.hpp\<close>, \<open>decimal.cpp\<close>. A number is the raw 64-bit integer; an overflow is \<open>None\<close>.
    Multiplication is exact truncation, division has a bounded error, printed numbers are read back.
  \<^item> \<open>CT_Random\<close>: \<open>random.cpp\<close>. The sequence of random numbers is a function of the seed.
  \<^item> \<open>CT_Geometry\<close>: \<open>geometry.hpp\<close>, \<open>geometry.cpp\<close>. Rectangles as sets of points: intersection, union, and the
    difference as a partition; the text form is read back.
  \<^item> \<open>CT_Base64\<close>: \<open>base64.cpp\<close>, with the sizes of its buffers: round trip, and the overrun without line breaks.
  \<^item> \<open>CT_String_Utils\<close>: \<open>string_utils.cpp\<close>: splitting, joining and lists of integers.
  \<^item> \<open>CT_Controls\<close>: \<open>controls.hpp\<close>, \<open>controls.cpp\<close>. The variables of the file are one record; a packet is a list of
    bytes. Writing and reading of packets on every branch: whatever a packet holds, the controls of the local player and
    confirmed cycles stay as they are and no assertion fails; what the code reads beyond a packet that is too short.
  \<^item> \<open>CT_Lockstep\<close>: peers over a network that loses, repeats, delays and reorders packets, as a step relation over the
    states of \<open>CT_Controls\<close>. By rule induction confirmed cycles agree on all peers, and one packet that arrives repairs all
    losses before it.
  \<^item> \<open>CT_Level_Solid_Map\<close>: \<open>level_solid_map.hpp\<close>, \<open>level_solid_map.cpp\<close>: the solid tiles of a level, in four growable
    vectors of rows. Lookup, insertion, removal, copy and merge refine a partial map from positions; the locale of this
    interface is interpreted on the definitions of the code.
  \<^item> \<open>CT_Solid_Map\<close>: \<open>solid_map.hpp\<close>, \<open>solid_map.cpp\<close>: the solid pixels of objects, from images (doubled and smoothed,
    margins cut off), from bodies and legs, from offsets; the sides of a map are its border, each point once.
  \<^item> \<open>CT_Variant\<close>: \<open>variant.cpp\<close>: the values. Conversions, elements, arithmetic, texts; on values without objects and
    functions the order is total and agrees with equality, which every map of the engine relies on.
  \<^item> \<open>CT_Json_Tokenizer\<close>, \<open>CT_Json_Parser\<close>: \<open>json_tokenizer.cpp\<close>, \<open>json_parser.cpp\<close> and the expansion of strings in
    \<open>preprocessor.cpp\<close>. The parser is the loop of the code with its explicit stack; it reads JSON texts as defined
    separately, and values that are written as JSON are read back.
  \<^item> \<open>CT_Formula_Tokenizer\<close>: \<open>formula_tokenizer.cpp\<close> and the search for tokens and the bracket check of
    \<open>formula.cpp\<close>: nothing of a text is lost, the check accepts just the balanced sequences.
  \<^item> \<open>CT_Formula_Parser\<close>, \<open>CT_Formula_Grammar\<close>: the parser of \<open>formula.cpp\<close> and the symbol tables and calls of
    \<open>formula_function.cpp\<close>, from the tokens to the tree; a grammar with precedences, and the proof that the parser
    builds for each text of the grammar the tree it derives.
  \<^item> \<open>CT_Formula_Ops\<close>: what operators, slices and comprehensions of \<open>formula.cpp\<close> compute, and where its optimizer keeps
    and where it changes that.
  \<^item> \<open>CT_Pathfinding\<close>: \<open>pathfinding.hpp\<close>, \<open>pathfinding.cpp\<close>: A* and the search by cost end and return paths of the
    graph whenever there are any; \<open>std::sort\<close> is a locale, interpreted on \<open>sort_key\<close>.

  \<^bold>\<open>How they interact.\<close> The tokens of the formula tokenizer are those the parser reads; that every operator
  token has a precedence is proved across both. The JSON parser expands strings of files with a parameter for formulas,
  builds values of \<open>CT_Variant\<close>, and a value of \<open>CT_Variant\<close> written as JSON is read by it. \<open>CT_Formula_Ops\<close>,
  \<open>CT_Solid_Map\<close> and \<open>CT_Pathfinding\<close> work on values, rectangles and decimals as those theories define them.

  \<^bold>\<open>Errors.\<close> A failed assertion ends the program; it is \<open>None\<close> or a value of an error type. Undefined behaviour
  (overflow, access outside a buffer) is \<open>None\<close> or a constructor of its own, never a made-up value.

  \<^bold>\<open>Termination.\<close> Most loops are structural recursion or have a measure. The parser of formulas ends by the number
  of characters of its tokens, also where it parses the body of a function or the substitutions of a string anew;
  nested translations are bounded by a depth \<open>d\<close> that a property shows to be irrelevant when translations have no
  substitutions. The fuel of the JSON parser bounds the depth of included files and macro calls only; for the tokens
  there is a measure. The loops of the searches may run forever in graphs with negative weights and are
  \<open>partial_function (option)\<close>; for other graphs it is a property that they return.

  \<^bold>\<open>Shown to be wrong.\<close> Lemmas with concrete inputs show where the code does not do what it says: a packet shorter
  than its header is read beyond its end; base64 without line breaks writes beyond its buffer; the optimizer of formulas
  makes \<open>null = 0\<close> true and \<open>text + number\<close> fail; calls of calls, a sign behind an operator and maps inside of indices
  are not parsed, a last where clause without value and some arguments are dropped; maps made from images have no
  sides; A* keeps the costs of the first path found and so misses shorter ones.

  \<^bold>\<open>Not modelled.\<close> Rendering, sound, input devices, user interface, editor, files and network services (they call
  SDL, OpenGL, boost::asio and the platforms); levels and objects, which need all of those at once and floating-point
  physics; the builtin functions of formulas and the evaluation of whole trees; the tile map, whose patterns are regular
  expressions of boost; the reader of the old configuration language; floating point wherever it occurs (conversions of
  decimals, the power operator, the path search of levels); reference counting, the sharing of buffers and the places
  remembered for messages, which do not influence values; vendored code.
\<close>

end
